(* ===== verification/Prelude.thy ===== *)
theory Prelude
  imports Main "HOL-Library.Word" "HOL-Library.AList" "HOL-Library.Sublist"
    "HOL-Library.Multiset"
begin

text \<open>
  Shared vocabulary of the development: the machine types of the Rust sources, the rule
  collections the component theories fill and use, and generic facts about lists and words.

  A Rust \<^verbatim>\<open>uN\<close> or \<^verbatim>\<open>iN\<close> whose width can be observed is an N-bit word (read with \<open>unat\<close> or
  \<open>sint\<close>); lengths and counts of in-memory collections (\<^verbatim>\<open>usize\<close>) are \<open>nat\<close>.
  A \<^verbatim>\<open>Vec<u8>\<close> is a list of bytes.
\<close>

type_synonym u8 = "8 word"
type_synonym u32 = "32 word"
type_synonym u64 = "64 word"
type_synonym i32 = "32 word"
type_synonym i64 = "64 word"
type_synonym bytes = "u8 list"

named_theorems ray_inv \<open>preservation rules: an operation keeps an invariant\<close>
named_theorems hm_simps \<open>rewriting of hash-map operations\<close>

section \<open>Lists\<close>

lemma list_all_mem: "list_all P xs \<Longrightarrow> x \<in> set xs \<Longrightarrow> P x"
  by (simp add: list_all_iff)

lemma filter_eq_single:
  "distinct (map f xs) \<Longrightarrow> x \<in> set xs \<Longrightarrow> filter (\<lambda>y. f y = f x) xs = [x]"
proof (induction xs)
  case (Cons y ys)
  show ?case
  proof (cases "f y = f x")
    case True
    with Cons.prems have "y = x" by force
    with Cons.prems have "\<forall>z\<in>set ys. f z \<noteq> f x" by (metis distinct.simps(2) image_eqI list.set_map list.simps(9))
    with \<open>y = x\<close> show ?thesis by (simp add: filter_empty_conv)
  next
    case False
    with Cons show ?thesis by auto
  qed
qed simp

lemma sum_list_map_filter_le:
  "sum_list (map f (filter P xs)) \<le> sum_list (map f xs)" for f :: "'a \<Rightarrow> nat"
  by (induction xs) auto

lemma take_pad_id: "length xs = n \<Longrightarrow> take n (xs @ replicate k z) = xs"
  by simp

text \<open>Replacing one element of a list exchanges its contribution to the selected multiset.\<close>

lemma mset_map_filter_update:
  assumes "i < length xs"
  shows "\<exists>rest. mset (map f (filter P xs)) = (if P (xs ! i) then {#f (xs ! i)#} else {#}) + rest \<and>
    (\<forall>y. mset (map f (filter P (xs[i := y]))) = (if P y then {#f y#} else {#}) + rest)"
proof (intro exI conjI allI)
  let ?rest = "mset (map f (filter P (take i xs))) + mset (map f (filter P (drop (Suc i) xs)))"
  show "mset (map f (filter P xs)) = (if P (xs ! i) then {#f (xs ! i)#} else {#}) + ?rest"
    by (subst id_take_nth_drop[OF assms]) simp
  show "mset (map f (filter P (xs[i := y]))) = (if P y then {#f y#} else {#}) + ?rest" for y
    by (subst upd_conv_take_nth_drop[OF assms]) simp
qed

text \<open>And its contribution to a sum.\<close>

lemma sum_list_map_update:
  fixes w :: "'a \<Rightarrow> nat"
  assumes "i < length xs"
  shows "sum_list (map w (xs[i := x])) + w (xs ! i) = sum_list (map w xs) + w x"
proof -
  have "w (xs ! i) \<le> sum_list (map w xs)" using assms by (simp add: member_le_sum_list)
  then show ?thesis using assms by (simp add: map_update sum_list_update)
qed

section \<open>Words\<close>

lemma unat_Suc_word: "w + 1 \<noteq> 0 \<Longrightarrow> unat (w + 1) = Suc (unat w)" for w :: "'a::len word"
  using unatSuc[of w] by (simp add: add.commute)

lemma u32_bound: "unat (w :: u32) < 4294967296"
proof -
  have "unat w < 2 ^ LENGTH(32)" by (rule unsigned_less)
  then show ?thesis by simp
qed

lemma word_pos_iff_unat: "0 < w \<longleftrightarrow> 0 < unat w" for w :: "'a::len word"
  by (simp add: word_less_nat_alt)

end
