(* ===== verification/F64.thy ===== *)
theory F64
  imports Prelude "HOL-Library.Log_Nat"
begin

text \<open>
  Rust's \<^verbatim>\<open>f64\<close>: IEEE 754 binary64 with round-to-nearest, ties to even, as far as the
  resource accounting uses it (\<^verbatim>\<open>+=\<close>, \<^verbatim>\<open>-=\<close>, \<^verbatim>\<open>/\<close>, comparisons, \<^verbatim>\<open>partial_cmp\<close>, the cast of an
  unsigned integer).

  Every finite double is an integer multiple of the least subnormal \<open>2 ^ -1074\<close>;
  \<open>Fin k\<close> is the double of value \<open>k * 2 ^ -1074\<close>, so that an exact sum is an integer sum and
  the machine result is its rounding to 53 significant bits (\<open>f64_round\<close>). \<open>Infinity True\<close> is
  negative infinity. The sign of a zero is not represented: it is only visible to a
  division by zero or to printing, and the code guards its division by a positive divisor.
  \<open>f64_wf\<close> holds of the values a double can take; \<open>f64_on_grid g\<close> of the multiples of
  \<open>2 ^ (g - 1074)\<close> on which sums and differences are exact (\<open>g = 1074\<close>: whole numbers).
\<close>

section \<open>Definitions\<close>

datatype f64 = NaN | Infinity bool | Fin int

definition round_div :: "nat \<Rightarrow> nat \<Rightarrow> nat" where
  "round_div n d =
     (let q = n div d; r = n mod d
      in if 2 * r < d \<or> (2 * r = d \<and> even q) then q else q + 1)"

definition round_sig :: "nat \<Rightarrow> nat \<Rightarrow> nat" where
  "round_sig n d =
     (let s = floorlog 2 (n div d) - 53 in round_div n (d * 2 ^ s) * 2 ^ s)"

definition f64_limit :: nat where
  "f64_limit = 2 ^ 2098"

definition f64_unit :: nat where
  "f64_unit = 2 ^ 1074"

definition round_int :: "nat \<Rightarrow> nat" where
  "round_int n = round_sig n 1"

definition f64_pack :: "bool \<Rightarrow> nat \<Rightarrow> f64" where
  "f64_pack neg m =
     (if m < f64_limit then Fin (if neg then - int m else int m) else Infinity neg)"

definition f64_round :: "int \<Rightarrow> f64" where
  "f64_round k = f64_pack (k < 0) (round_int (nat \<bar>k\<bar>))"

fun f64_neg :: "f64 \<Rightarrow> f64" where
  "f64_neg NaN = NaN"
| "f64_neg (Infinity s) = Infinity (\<not> s)"
| "f64_neg (Fin k) = Fin (- k)"

fun f64_add :: "f64 \<Rightarrow> f64 \<Rightarrow> f64" where
  "f64_add (Fin a) (Fin b) = f64_round (a + b)"
| "f64_add (Infinity s) (Infinity t) = (if s = t then Infinity s else NaN)"
| "f64_add (Infinity s) (Fin b) = Infinity s"
| "f64_add (Fin a) (Infinity t) = Infinity t"
| "f64_add _ _ = NaN"

definition f64_sub :: "f64 \<Rightarrow> f64 \<Rightarrow> f64" where
  "f64_sub x y = f64_add x (f64_neg y)"

fun f64_div :: "f64 \<Rightarrow> f64 \<Rightarrow> f64" where
  "f64_div (Fin a) (Fin b) =
     (if b = 0 then (if a = 0 then NaN else Infinity (a < 0))
      else f64_pack ((a < 0) \<noteq> (b < 0)) (round_sig (nat \<bar>a\<bar> * f64_unit) (nat \<bar>b\<bar>)))"
| "f64_div (Infinity s) (Fin b) = Infinity (s \<noteq> (b < 0))"
| "f64_div (Fin a) (Infinity t) = Fin 0"
| "f64_div _ _ = NaN"

fun f64_lt :: "f64 \<Rightarrow> f64 \<Rightarrow> bool" where
  "f64_lt (Fin a) (Fin b) = (a < b)"
| "f64_lt (Infinity s) (Infinity t) = (s \<and> \<not> t)"
| "f64_lt (Infinity s) (Fin b) = s"
| "f64_lt (Fin a) (Infinity t) = (\<not> t)"
| "f64_lt _ _ = False"

fun f64_le :: "f64 \<Rightarrow> f64 \<Rightarrow> bool" where
  "f64_le (Fin a) (Fin b) = (a \<le> b)"
| "f64_le (Infinity s) (Infinity t) = (s \<or> \<not> t)"
| "f64_le (Infinity s) (Fin b) = s"
| "f64_le (Fin a) (Infinity t) = (\<not> t)"
| "f64_le _ _ = False"

datatype ordering = Less | Equal | Greater

definition f64_partial_cmp :: "f64 \<Rightarrow> f64 \<Rightarrow> ordering option" where
  "f64_partial_cmp x y =
     (if f64_lt x y then Some Less
      else if f64_lt y x then Some Greater
      else if f64_le x y then Some Equal
      else None)"

definition f64_of_nat :: "nat \<Rightarrow> f64" where
  "f64_of_nat n = f64_round (int (n * f64_unit))"

definition f64_one :: f64 where
  "f64_one = f64_of_nat 1"

fun f64_wf :: "f64 \<Rightarrow> bool" where
  "f64_wf (Fin k) = (f64_round k = Fin k)"
| "f64_wf _ = True"

fun f64_on_grid :: "nat \<Rightarrow> f64 \<Rightarrow> bool" where
  "f64_on_grid g (Fin k) = (2 ^ g dvd k \<and> \<bar>k\<bar> \<le> 2 ^ (53 + g))"
| "f64_on_grid g _ = False"

section \<open>Rounding to 53 significant bits\<close>

lemma round_div_bounds:
  assumes "0 < d"
  shows "n div d \<le> round_div n d" "round_div n d \<le> n div d + 1"
  by (auto simp: round_div_def Let_def)

lemma round_div_exact: "0 < d \<Longrightarrow> d dvd n \<Longrightarrow> round_div n d = n div d"
  by (auto simp: round_div_def Let_def)

lemma round_div_mono:
  assumes "0 < d" "n \<le> n'"
  shows "round_div n d \<le> round_div n' d"
proof (cases "n div d = n' div d")
  case True
  then have "n mod d \<le> n' mod d"
    using assms by (metis add_le_cancel_left div_mult_mod_eq)
  with True show ?thesis by (auto simp: round_div_def Let_def)
next
  case False
  with div_le_mono[OF assms(2), of d] have "n div d + 1 \<le> n' div d" by simp
  then show ?thesis
    using round_div_bounds[OF assms(1)] by (meson le_trans)
qed

lemma round_div_le:
  assumes "0 < d" "n \<le> m * d"
  shows "round_div n d \<le> m"
  using round_div_mono[OF assms] round_div_exact[OF assms(1), of "m * d"] assms(1) by simp

lemma round_div_ge:
  assumes "0 < d" "m * d \<le> n"
  shows "m \<le> round_div n d"
  using round_div_mono[OF assms] round_div_exact[OF assms(1), of "m * d"] assms(1) by simp

lemma round_sig_exp:
  assumes "0 < d"
  shows "n < d * 2 ^ (floorlog 2 (n div d))"
proof -
  have "n div d < 2 ^ floorlog 2 (n div d)"
    using floorlog_bounds[of "n div d" 2] by (cases "n div d = 0") auto
  then show ?thesis
    using assms by (simp add: div_less_iff_less_mult mult.commute)
qed

lemma round_sig_upper:
  assumes "0 < d" "floorlog 2 (n div d) - 53 \<le> s"
  shows "round_sig n d \<le> 2 ^ (53 + s)"
proof -
  let ?t = "floorlog 2 (n div d) - 53"
  have "n < d * 2 ^ floorlog 2 (n div d)" by (rule round_sig_exp[OF assms(1)])
  also have "\<dots> \<le> d * 2 ^ (53 + ?t)" by (intro mult_le_mono power_increasing) auto
  finally have "round_div n (d * 2 ^ ?t) \<le> 2 ^ 53"
    using assms(1) by (intro round_div_le) (auto simp: power_add mult_ac)
  then have "round_sig n d \<le> 2 ^ 53 * 2 ^ ?t"
    unfolding round_sig_def Let_def by (intro mult_le_mono) simp_all
  also have "\<dots> = 2 ^ (53 + ?t)" by (simp only: power_add)
  also have "\<dots> \<le> 2 ^ (53 + s)" using assms(2) by (intro power_increasing) auto
  finally show ?thesis .
qed

lemma round_sig_lower:
  assumes "0 < d" "0 < s" "floorlog 2 (n div d) - 53 = s"
  shows "2 ^ (52 + s) \<le> round_sig n d"
proof -
  have fl: "floorlog 2 (n div d) = 53 + s" using assms by simp
  then have "0 < n div d" using floorlog_eq_zero_iff[of 2 "n div d"] by force
  from floorlog_bounds[OF this, of 2] have "2 ^ (52 + s) \<le> n div d" by (simp add: fl)
  then have "2 ^ (52 + s) * d \<le> n"
    using assms(1) by (simp add: less_eq_div_iff_mult_less_eq)
  then have "2 ^ 52 \<le> round_div n (d * 2 ^ s)"
    using assms(1) by (intro round_div_ge) (auto simp: power_add mult_ac)
  then have "2 ^ 52 * 2 ^ s \<le> round_sig n d"
    unfolding round_sig_def Let_def assms(3) by (intro mult_le_mono) simp_all
  then show ?thesis by (simp only: power_add)
qed

lemma round_sig_mono:
  assumes "0 < d" "n \<le> n'"
  shows "round_sig n d \<le> round_sig n' d"
proof -
  let ?s = "floorlog 2 (n div d) - 53" and ?s' = "floorlog 2 (n' div d) - 53"
  have le: "?s \<le> ?s'"
    using floorlog_mono[OF div_le_mono[OF assms(2)]] by (simp add: diff_le_mono)
  show ?thesis
  proof (cases "?s = ?s'")
    case True
    then show ?thesis
      using round_div_mono[of "d * 2 ^ ?s" n n'] assms by (simp add: round_sig_def Let_def)
  next
    case False
    with le have lt: "?s + 1 \<le> ?s'" by simp
    have "round_sig n d \<le> 2 ^ (53 + ?s)" using round_sig_upper[OF assms(1)] by blast
    also have "(2::nat) ^ (53 + ?s) \<le> 2 ^ (52 + ?s')" using lt by (intro power_increasing) auto
    also have "\<dots> \<le> round_sig n' d" by (rule round_sig_lower[OF assms(1)]) (use lt in auto)
    finally show ?thesis .
  qed
qed

lemma round_sig_exact:
  assumes "0 < d" "m \<le> 2 ^ 53"
  shows "round_sig (d * (m * 2 ^ j)) d = m * 2 ^ j"
proof -
  have half: "round_sig (d * (m * 2 ^ j)) d = m * 2 ^ j" if "m < 2 ^ 53" for m j :: nat
  proof -
    let ?n = "d * (m * 2 ^ j)"
    let ?s = "floorlog 2 (m * 2 ^ j) - 53"
    have dv: "?n div d = m * 2 ^ j" using assms(1) by simp
    have "?s \<le> j"
    proof (cases "m = 0")
      case False
      then have "floorlog 2 (m * 2 ^ j) = floorlog 2 m + j" by simp
      moreover have "floorlog 2 m \<le> 53" using that by (intro floorlog_leI) auto
      ultimately show ?thesis by simp
    qed (simp add: floorlog_def)
    then have "(2::nat) ^ ?s dvd m * 2 ^ j" by (simp add: le_imp_power_dvd)
    then obtain k where k: "m * 2 ^ j = 2 ^ ?s * k" by (rule dvdE)
    have "round_div ?n (d * 2 ^ ?s) = k"
      using assms(1) by (subst k, subst round_div_exact) auto
    then show ?thesis
      unfolding round_sig_def dv Let_def using k by (simp add: mult.commute)
  qed
  show ?thesis
  proof (cases "m = 2 ^ 53")
    case True
    then show ?thesis using half[of 1 "53 + j"] by (simp add: power_add)
  next
    case False
    with assms(2) show ?thesis by (intro half) simp
  qed
qed

lemma round_sig_form:
  assumes "0 < d"
  obtains m j where "round_sig n d = m * 2 ^ j" "m \<le> 2 ^ 53"
proof -
  let ?s = "floorlog 2 (n div d) - 53"
  have "n < d * 2 ^ floorlog 2 (n div d)" by (rule round_sig_exp[OF assms])
  also have "\<dots> \<le> d * 2 ^ (53 + ?s)" by (intro mult_le_mono power_increasing) auto
  finally have "round_div n (d * 2 ^ ?s) \<le> 2 ^ 53"
    using assms by (intro round_div_le) (auto simp: power_add mult_ac)
  moreover have "round_sig n d = round_div n (d * 2 ^ ?s) * 2 ^ ?s"
    by (simp add: round_sig_def Let_def)
  ultimately show thesis using that by blast
qed

lemma round_sig_idem: "0 < d \<Longrightarrow> round_sig (round_sig n d) 1 = round_sig n d"
  using round_sig_form[of d n] round_sig_exact[of 1] by (metis mult_1 zero_less_one)


section \<open>Rounding\<close>

lemma round_int_mono: "n \<le> n' \<Longrightarrow> round_int n \<le> round_int n'"
  by (simp add: round_int_def round_sig_mono)

lemma round_int_idem: "round_int (round_int n) = round_int n"
  using round_sig_idem[of 1 n] by (simp add: round_int_def)

lemma round_int_exact: "m \<le> 2 ^ 53 \<Longrightarrow> round_int (m * 2 ^ j) = m * 2 ^ j"
  using round_sig_exact[of 1 m j] by (simp add: round_int_def)

lemma f64_pack_FinD: "f64_pack s m = Fin k \<Longrightarrow> m < f64_limit \<and> nat \<bar>k\<bar> = m"
  by (auto simp: f64_pack_def split: if_splits)

lemma f64_round_fixed: "round_int (nat \<bar>k\<bar>) = nat \<bar>k\<bar> \<Longrightarrow> nat \<bar>k\<bar> < f64_limit \<Longrightarrow> f64_round k = Fin k"
  by (auto simp: f64_round_def f64_pack_def)

lemma f64_round_wf [simp]: "f64_wf (f64_round k)"
proof (cases "f64_round k")
  case (Fin r)
  then have "round_int (nat \<bar>k\<bar>) < f64_limit" "nat \<bar>r\<bar> = round_int (nat \<bar>k\<bar>)"
    by (auto simp: f64_round_def dest: f64_pack_FinD)
  then have "f64_round r = Fin r" by (intro f64_round_fixed) (simp_all add: round_int_idem)
  then show ?thesis by (simp add: Fin)
qed auto

lemma f64_round_mono: "a \<le> b \<Longrightarrow> f64_le (f64_round a) (f64_round b)"
proof -
  assume ab: "a \<le> b"
  have pos: "round_int (nat \<bar>a\<bar>) \<le> round_int (nat \<bar>b\<bar>)" if "0 \<le> a"
    using that ab by (intro round_int_mono) auto
  have neg: "round_int (nat \<bar>b\<bar>) \<le> round_int (nat \<bar>a\<bar>)" if "b < 0"
    using that ab by (intro round_int_mono) auto
  show ?thesis
    using pos neg ab by (auto simp: f64_round_def f64_pack_def not_less)
qed

lemma f64_round_exact:
  assumes "nat \<bar>k\<bar> = m * 2 ^ j" "m \<le> 2 ^ 53" "nat \<bar>k\<bar> < f64_limit"
  shows "f64_round k = Fin k"
  using assms by (intro f64_round_fixed) (simp_all add: round_int_exact)

lemma f64_round_grid:
  assumes "2 ^ g dvd k" "\<bar>k\<bar> \<le> 2 ^ (53 + g)" "g \<le> 2044"
  shows "f64_round k = Fin k"
proof -
  obtain c where c: "k = 2 ^ g * c" using assms(1) by (rule dvdE)
  then have n: "nat \<bar>k\<bar> = nat \<bar>c\<bar> * 2 ^ g"
    by (simp add: abs_mult nat_mult_distrib nat_power_eq)
  have le: "nat \<bar>k\<bar> \<le> 2 ^ (53 + g)" using assms(2) by (simp add: nat_le_iff)
  then have "nat \<bar>c\<bar> * 2 ^ g \<le> 2 ^ 53 * 2 ^ g" by (simp only: n power_add)
  then have m: "nat \<bar>c\<bar> \<le> 2 ^ 53" by simp
  have "nat \<bar>k\<bar> < f64_limit"
    unfolding f64_limit_def
    by (rule le_less_trans[OF le], rule power_strict_increasing) (use assms(3) in auto)
  with n m show ?thesis by (rule f64_round_exact)
qed

lemma f64_round_0 [simp]: "f64_round 0 = Fin 0"
  using f64_round_grid[of 0 0] by simp

lemma f64_round_1 [simp]: "f64_round 1 = Fin 1"
  using f64_round_grid[of 0 1] by simp

lemma f64_round_pos: "0 < k \<Longrightarrow> f64_lt (Fin 0) (f64_round k)"
  using f64_round_mono[of 1 k] by (cases "f64_round k") auto

section \<open>Addition and subtraction\<close>

lemma f64_sub_Fin: "f64_sub (Fin a) (Fin b) = f64_round (a - b)"
  by (simp add: f64_sub_def)

lemma f64_sub_bounds:
  assumes "f64_wf (Fin a)" "0 \<le> q" "q \<le> a"
  obtains r where "f64_sub (Fin a) (Fin q) = Fin r" "0 \<le> r" "r \<le> a" "r = 0 \<longleftrightarrow> a = q"
proof -
  have up: "f64_le (f64_round (a - q)) (Fin a)"
    using f64_round_mono[of "a - q" a] assms by simp
  have lo: "f64_le (Fin 0) (f64_round (a - q))"
    using f64_round_mono[of 0 "a - q"] assms by simp
  obtain r where r: "f64_round (a - q) = Fin r"
    using up lo by (cases "f64_round (a - q)") auto
  moreover have "r = 0 \<longleftrightarrow> a = q"
    using f64_round_pos[of "a - q"] assms r by (cases "a = q") auto
  ultimately show thesis using that up lo by (auto simp: f64_sub_Fin)
qed

lemma f64_add_wf [simp]: "f64_wf (f64_add x y)"
  by (cases "(x, y)" rule: f64_add.cases) auto

lemma f64_sub_wf [simp]: "f64_wf (f64_sub x y)"
  by (simp add: f64_sub_def)

lemma f64_add_grid:
  assumes "2 ^ g dvd a" "2 ^ g dvd b" "\<bar>a + b\<bar> \<le> 2 ^ (53 + g)" "g \<le> 2044"
  shows "f64_add (Fin a) (Fin b) = Fin (a + b)"
  using assms by (auto intro!: f64_round_grid)

lemma f64_sub_grid:
  assumes "2 ^ g dvd a" "2 ^ g dvd b" "\<bar>a - b\<bar> \<le> 2 ^ (53 + g)" "g \<le> 2044"
  shows "f64_sub (Fin a) (Fin b) = Fin (a - b)"
  using assms by (auto intro!: f64_round_grid simp: f64_sub_Fin)

lemma f64_on_grid_wf: "f64_on_grid g x \<Longrightarrow> g \<le> 2044 \<Longrightarrow> f64_wf x"
  by (cases x) (auto intro: f64_round_grid)

section \<open>Order\<close>

lemma f64_not_lt_iff_le: "x \<noteq> NaN \<Longrightarrow> y \<noteq> NaN \<Longrightarrow> (\<not> f64_lt x y) = f64_le y x"
  by (cases "(x, y)" rule: f64_lt.cases) auto

lemma f64_lt_NaN [simp]: "\<not> f64_lt NaN y" "\<not> f64_lt x NaN"
  by (cases y; simp) (cases x; simp)

lemma f64_le_NaN [simp]: "\<not> f64_le NaN y" "\<not> f64_le x NaN"
  by (cases y; simp) (cases x; simp)

lemma f64_add_NaN [simp]: "f64_add NaN y = NaN" "f64_add x NaN = NaN"
  by (cases y; simp) (cases x; simp)

lemma f64_sub_NaN [simp]: "f64_sub NaN y = NaN" "f64_sub x NaN = NaN"
  by (simp_all add: f64_sub_def)

lemma f64_le_trans: "f64_le x y \<Longrightarrow> f64_le y z \<Longrightarrow> f64_le x z"
  by (cases x; cases y; cases z) auto

lemma f64_le_lt_trans: "f64_le x y \<Longrightarrow> f64_lt y z \<Longrightarrow> f64_lt x z"
  by (cases x; cases y; cases z) auto

section \<open>Whole numbers\<close>

lemma f64_of_nat_Fin: "n \<le> 2 ^ 53 \<Longrightarrow> f64_of_nat n = Fin (int (n * f64_unit))"
  unfolding f64_of_nat_def
  by (rule f64_round_grid[of 1074]) (auto simp: f64_unit_def power_add)


lemma f64_unit_pos [simp]: "0 < f64_unit" "f64_unit \<noteq> 0"
  by (simp_all add: f64_unit_def)

lemma f64_one_Fin: "f64_one = Fin (int f64_unit)"
  using f64_of_nat_Fin[of 1] by (simp add: f64_one_def)

lemma f64_of_nat_sub:
  assumes "a \<le> 2 ^ 53" "b \<le> a"
  shows "f64_sub (f64_of_nat a) (f64_of_nat b) = f64_of_nat (a - b)"
proof -
  have fin: "f64_of_nat a = Fin (int (a * f64_unit))" "f64_of_nat b = Fin (int (b * f64_unit))"
    using assms f64_of_nat_Fin[of a] f64_of_nat_Fin[of b] by simp_all
  show ?thesis
    unfolding fin f64_sub_Fin unfolding f64_of_nat_def using assms(2) by (simp add: algebra_simps)
qed

lemma f64_of_nat_add:
  assumes "a + b \<le> 2 ^ 53"
  shows "f64_add (f64_of_nat a) (f64_of_nat b) = f64_of_nat (a + b)"
proof -
  have fin: "f64_of_nat a = Fin (int (a * f64_unit))" "f64_of_nat b = Fin (int (b * f64_unit))"
    using assms f64_of_nat_Fin[of a] f64_of_nat_Fin[of b] by simp_all
  show ?thesis
    unfolding fin f64_add.simps unfolding f64_of_nat_def by (simp add: algebra_simps)
qed

lemma f64_of_nat_cmp:
  assumes "a \<le> 2 ^ 53" "b \<le> 2 ^ 53"
  shows "f64_lt (f64_of_nat a) (f64_of_nat b) = (a < b)"
    and "f64_le (f64_of_nat a) (f64_of_nat b) = (a \<le> b)"
    and "f64_of_nat a = f64_of_nat b \<longleftrightarrow> a = b"
  using assms by (simp_all add: f64_of_nat_Fin)

lemma f64_of_nat_grid: "a \<le> 2 ^ 53 \<Longrightarrow> f64_on_grid 1074 (f64_of_nat a)"
  by (auto simp: f64_of_nat_Fin f64_unit_def power_add)

lemma f64_div_self_bound:
  assumes "f64_wf (Fin t)" "0 < t" "0 \<le> u" "u \<le> t"
  obtains r where "f64_div (Fin u) (Fin t) = Fin r" "0 \<le> r" "r \<le> int f64_unit"
proof -
  have "round_sig (nat \<bar>u\<bar> * f64_unit) (nat \<bar>t\<bar>) \<le> round_sig (nat \<bar>t\<bar> * f64_unit) (nat \<bar>t\<bar>)"
    using assms by (intro round_sig_mono) auto
  also have "\<dots> = f64_unit"
    using round_sig_exact[of "nat \<bar>t\<bar>" 1 1074] assms by (simp only: f64_unit_def mult_1) simp
  finally have le: "round_sig (nat \<bar>u\<bar> * f64_unit) (nat \<bar>t\<bar>) \<le> f64_unit" .
  moreover have "f64_unit < f64_limit"
    unfolding f64_unit_def f64_limit_def by (rule power_strict_increasing) simp_all
  ultimately show thesis
    using assms by (intro that[of "int (round_sig (nat \<bar>u\<bar> * f64_unit) (nat \<bar>t\<bar>))"])
      (auto simp: f64_pack_def)
qed

section \<open>Rounding of scaled values\<close>

text \<open>The last bits of a result, computed on the significand: \<open>m * 2 ^ e\<close> with \<open>53 + j\<close> bits in \<open>m\<close> loses \<open>j\<close> bits.\<close>

lemma round_div_cancel: "0 < c \<Longrightarrow> round_div (n * c) (d * c) = round_div n d"
  by (simp add: round_div_def Let_def mult_mod_left[symmetric])

lemma round_sig_step:
  assumes "2 ^ (52 + j) \<le> n div d" "n div d < 2 ^ (53 + j)"
  shows "round_sig n d = round_div n (d * 2 ^ j) * 2 ^ j"
proof -
  have "floorlog 2 (n div d) = 53 + j"
    using floorlog_geI[of 2 "53 + j" "n div d"] floorlog_leI[of "n div d" 2 "53 + j"] assms by simp
  then show ?thesis by (simp add: round_sig_def Let_def)
qed

lemma f64_round_scaled:
  assumes "2 ^ (52 + j) \<le> m" "m < 2 ^ (53 + j)" "53 + j + e < 2098"
  shows "f64_round (int (m * 2 ^ e)) = Fin (int (round_div m (2 ^ j) * 2 ^ j * 2 ^ e))"
proof -
  have "round_int (m * 2 ^ e) = round_div (m * 2 ^ e) (2 ^ (j + e)) * 2 ^ (j + e)"
    using assms(1,2) unfolding round_int_def
    by (subst round_sig_step[of "j + e"]) (simp_all add: power_add)
  also have "\<dots> = round_div m (2 ^ j) * 2 ^ j * 2 ^ e"
    by (simp add: power_add round_div_cancel)
  finally have r: "round_int (m * 2 ^ e) = \<dots>" .
  have "round_div m (2 ^ j) \<le> 2 ^ 53" using assms(2) by (intro round_div_le) (simp_all add: power_add)
  then have "round_div m (2 ^ j) * 2 ^ j * 2 ^ e \<le> 2 ^ 53 * 2 ^ j * 2 ^ e" by simp
  also have "\<dots> = 2 ^ (53 + j + e)" by (simp add: power_add)
  also have "\<dots> < f64_limit" unfolding f64_limit_def by (rule power_strict_increasing) (use assms(3) in simp_all)
  finally have "round_int (m * 2 ^ e) < f64_limit" by (simp only: r)
  moreover have "nat \<bar>int (m * 2 ^ e)\<bar> = m * 2 ^ e" by (simp only: abs_of_nat nat_int)
  moreover have "\<not> int (m * 2 ^ e) < 0" by linarith
  ultimately show ?thesis by (simp only: f64_round_def r f64_pack_def if_True if_False)
qed

lemma round_sig_cancel: "0 < c \<Longrightarrow> round_sig (n * c) (d * c) = round_sig n d"
proof -
  let ?s = "floorlog 2 (n div d) - 53"
  assume c: "0 < c"
  then have "n * c div (d * c) = n div d" by simp
  moreover have "d * c * 2 ^ ?s = d * 2 ^ ?s * c" by (simp add: ac_simps)
  ultimately show ?thesis using round_div_cancel[OF c, of n "d * 2 ^ ?s"] by (simp only: round_sig_def Let_def)
qed

lemma f64_div_scaled:
  assumes "b * 2 ^ (52 + j) \<le> a * 2 ^ 57" "a * 2 ^ 57 < b * 2 ^ (53 + j)" "0 < a" "a \<le> 2 ^ 53" "0 < b" "b \<le> 2 ^ 53"
    and "j < 1000"
  shows "f64_div (f64_of_nat a) (f64_of_nat b) = Fin (int (round_div (a * 2 ^ 57) (b * 2 ^ j) * 2 ^ j * 2 ^ 1017))"
proof -
  let ?n = "a * 2 ^ 57 * 2 ^ 1017"
  have unit: "f64_unit = 2 ^ 57 * 2 ^ 1017" by (simp add: f64_unit_def flip: power_add)
  have "f64_div (f64_of_nat a) (f64_of_nat b) = f64_pack False (round_sig (a * f64_unit * f64_unit) (b * f64_unit))"
    using assms(3-6) by (simp add: f64_of_nat_Fin nat_mult_distrib f64_unit_def)
  also have "round_sig (a * f64_unit * f64_unit) (b * f64_unit) = round_sig ?n b"
    using round_sig_cancel[of f64_unit "a * f64_unit" b] by (simp add: unit mult.assoc)
  also have "round_sig ?n b = round_div ?n (b * 2 ^ (j + 1017)) * 2 ^ (j + 1017)"
  proof (rule round_sig_step)
    have "2 ^ (52 + (j + 1017)) * b = b * 2 ^ (52 + j) * 2 ^ 1017" by (simp add: power_add)
    then show "2 ^ (52 + (j + 1017)) \<le> ?n div b"
      using assms(1,5) by (simp add: less_eq_div_iff_mult_less_eq)
    have "2 ^ (53 + (j + 1017)) * b = b * 2 ^ (53 + j) * 2 ^ 1017" by (simp add: power_add)
    then show "?n div b < 2 ^ (53 + (j + 1017))"
      using assms(2,5) by (simp add: div_less_iff_less_mult)
  qed
  also have "\<dots> = round_div (a * 2 ^ 57) (b * 2 ^ j) * 2 ^ j * 2 ^ 1017"
    using round_div_cancel[of "2 ^ 1017" "a * 2 ^ 57" "b * 2 ^ j"] by (simp add: power_add mult.assoc)
  finally have q: "f64_div (f64_of_nat a) (f64_of_nat b) = f64_pack False (round_div (a * 2 ^ 57) (b * 2 ^ j) * 2 ^ j * 2 ^ 1017)" .
  have "round_div (a * 2 ^ 57) (b * 2 ^ j) \<le> 2 ^ 53"
    using assms(2,5) by (intro round_div_le) (simp_all add: power_add mult.left_commute mult.commute)
  then have "round_div (a * 2 ^ 57) (b * 2 ^ j) * 2 ^ j * 2 ^ 1017 \<le> 2 ^ 53 * 2 ^ j * 2 ^ 1017" by simp
  also have "\<dots> = 2 ^ (53 + j + 1017)" by (simp only: power_add)
  also have "\<dots> < f64_limit" unfolding f64_limit_def by (rule power_strict_increasing) (use assms(7) in simp_all)
  finally show ?thesis using q by (simp only: f64_pack_def) simp
qed


lemma f64_sub_scaled:
  assumes "b \<le> a" "2 ^ (52 + j) \<le> a - b" "a - b < 2 ^ (53 + j)" "53 + j + e < 2098"
  shows "f64_sub (Fin (int (a * 2 ^ e))) (Fin (int (b * 2 ^ e))) = Fin (int (round_div (a - b) (2 ^ j) * 2 ^ j * 2 ^ e))"
proof -
  have "int (a * 2 ^ e) - int (b * 2 ^ e) = int ((a - b) * 2 ^ e)"
    using assms(1) by (simp add: algebra_simps of_nat_diff)
  then show ?thesis using f64_round_scaled[OF assms(2-4)] by (simp only: f64_sub_Fin)
qed

lemma f64_add_scaled:
  assumes "2 ^ (52 + j) \<le> a + b" "a + b < 2 ^ (53 + j)" "53 + j + e < 2098"
  shows "f64_add (Fin (int (a * 2 ^ e))) (Fin (int (b * 2 ^ e))) = Fin (int (round_div (a + b) (2 ^ j) * 2 ^ j * 2 ^ e))"
proof -
  have "int (a * 2 ^ e) + int (b * 2 ^ e) = int ((a + b) * 2 ^ e)" by (simp add: algebra_simps)
  then show ?thesis using f64_round_scaled[OF assms] by (simp only: f64_add.simps)
qed

end
