(* ===== verification/Hash_Map.thy ===== *)
theory Hash_Map
  imports Prelude
begin

text \<open>
  The standard library's \<^verbatim>\<open>HashMap<K, V>\<close>, as the sources use it: \<^verbatim>\<open>get\<close>, \<^verbatim>\<open>insert\<close>,
  \<^verbatim>\<open>remove\<close>, \<^verbatim>\<open>get_mut\<close>, \<^verbatim>\<open>contains_key\<close>, \<^verbatim>\<open>values\<close>, \<^verbatim>\<open>retain\<close>, \<^verbatim>\<open>len\<close> and iteration.

  A hash map is an association list with distinct keys (\<open>hm_ok\<close>). The order of the list
  stands for the map's iteration order, which Rust leaves unspecified: a theorem that holds
  for every list with distinct keys holds for every iteration order.

  The locale \<open>registry\<close> is the contract of the tables of the program whose records carry
  their own key (GCS nodes, jobs and usage records, the global scheduler's node views):
  clients see the table through a lookup function and a listing.
\<close>

type_synonym ('k, 'v) hash_map = "('k \<times> 'v) list"

definition hm_ok :: "('k, 'v) hash_map \<Rightarrow> bool" where
  "hm_ok m = distinct (map fst m)"

definition hm_get :: "('k, 'v) hash_map \<Rightarrow> 'k \<Rightarrow> 'v option" where
  "hm_get m k = map_of m k"

definition hm_contains :: "('k, 'v) hash_map \<Rightarrow> 'k \<Rightarrow> bool" where
  "hm_contains m k = (case hm_get m k of None \<Rightarrow> False | Some _ \<Rightarrow> True)"

definition hm_insert :: "'k \<Rightarrow> 'v \<Rightarrow> ('k, 'v) hash_map \<Rightarrow> ('k, 'v) hash_map" where
  "hm_insert k v m = AList.update k v m"

definition hm_remove :: "'k \<Rightarrow> ('k, 'v) hash_map \<Rightarrow> ('k, 'v) hash_map" where
  "hm_remove k m = AList.delete k m"

definition hm_modify :: "'k \<Rightarrow> ('v \<Rightarrow> 'v) \<Rightarrow> ('k, 'v) hash_map \<Rightarrow> ('k, 'v) hash_map" where
  "hm_modify k f m = (case hm_get m k of None \<Rightarrow> m | Some v \<Rightarrow> hm_insert k (f v) m)"

definition hm_retain :: "('k \<Rightarrow> 'v \<Rightarrow> bool) \<Rightarrow> ('k, 'v) hash_map \<Rightarrow> ('k, 'v) hash_map" where
  "hm_retain P m = filter (\<lambda>(k, v). P k v) m"

definition hm_values :: "('k, 'v) hash_map \<Rightarrow> 'v list" where
  "hm_values m = map snd m"

section \<open>Lookup after each operation\<close>

lemma hm_ok_empty [simp]: "hm_ok []"
  by (simp add: hm_ok_def)

lemma hm_get_empty [simp]: "hm_get [] k = None"
  by (simp add: hm_get_def)

lemma hm_get_Cons: "hm_get ((a, v) # m) k = (if a = k then Some v else hm_get m k)"
  by (simp add: hm_get_def)

lemma hm_get_insert [simp, hm_simps]: "hm_get (hm_insert k v m) = (hm_get m)(k \<mapsto> v)"
  by (simp add: hm_get_def hm_insert_def update_conv' fun_eq_iff)

lemma hm_get_remove [simp, hm_simps]: "hm_get (hm_remove k m) = (hm_get m)(k := None)"
  by (simp add: hm_get_def hm_remove_def delete_conv' fun_eq_iff)

lemma hm_get_modify [simp, hm_simps]:
  "hm_get (hm_modify k f m) = (hm_get m)(k := map_option f (hm_get m k))"
  by (auto simp: hm_modify_def fun_eq_iff split: option.splits)

lemma hm_contains_iff [simp]: "hm_contains m k \<longleftrightarrow> hm_get m k \<noteq> None"
  by (simp add: hm_contains_def split: option.splits)

lemma hm_get_retain:
  "hm_ok m \<Longrightarrow> hm_get (hm_retain P m) k =
     (case hm_get m k of None \<Rightarrow> None | Some v \<Rightarrow> if P k v then Some v else None)"
proof (induction m)
  case (Cons p m)
  obtain a v where p: "p = (a, v)" by fastforce
  have "hm_get m a = None" using Cons.prems by (simp add: p hm_ok_def hm_get_def map_of_eq_None_iff)
  with Cons p show ?case
    by (auto simp: hm_ok_def hm_retain_def hm_get_Cons split: option.splits)
qed (simp add: hm_retain_def)

section \<open>Distinct keys\<close>

lemma hm_ok_insert [simp, ray_inv]: "hm_ok m \<Longrightarrow> hm_ok (hm_insert k v m)"
  by (simp add: hm_ok_def hm_insert_def distinct_update)

lemma hm_ok_remove [simp, ray_inv]: "hm_ok m \<Longrightarrow> hm_ok (hm_remove k m)"
  by (simp add: hm_ok_def hm_remove_def distinct_delete)

lemma hm_ok_modify [simp, ray_inv]: "hm_ok m \<Longrightarrow> hm_ok (hm_modify k f m)"
  by (simp add: hm_modify_def split: option.splits)

lemma hm_ok_retain [simp, ray_inv]: "hm_ok m \<Longrightarrow> hm_ok (hm_retain P m)"
  by (auto simp: hm_ok_def hm_retain_def distinct_map_filter)

lemma hm_ok_Cons: "hm_ok ((k, v) # m) \<longleftrightarrow> hm_get m k = None \<and> hm_ok m"
  by (auto simp: hm_ok_def hm_get_def map_of_eq_None_iff)

section \<open>Values and sizes\<close>

lemma hm_mem_iff: "hm_ok m \<Longrightarrow> (k, v) \<in> set m \<longleftrightarrow> hm_get m k = Some v"
  by (simp add: hm_ok_def hm_get_def)

lemma hm_values_mem: "hm_ok m \<Longrightarrow> v \<in> set (hm_values m) \<longleftrightarrow> (\<exists>k. hm_get m k = Some v)"
  by (force simp: hm_values_def hm_mem_iff[symmetric])

lemma hm_retain_id: "(\<And>k v. hm_get m k = Some v \<Longrightarrow> P k v) \<Longrightarrow> hm_ok m \<Longrightarrow> hm_retain P m = m"
  by (auto simp: hm_retain_def hm_mem_iff intro!: filter_True)

lemma hm_insert_fresh: "k \<notin> fst ` set m \<Longrightarrow> hm_insert k v m = m @ [(k, v)]"
  by (induction m) (auto simp: hm_insert_def)

lemma hm_len_insert: "hm_get m k = None \<Longrightarrow> length (hm_insert k v m) = Suc (length m)"
  unfolding hm_insert_def hm_get_def by (induction m) (auto split: if_splits)

text \<open>The weight of a map: the sum of a measure over its values.\<close>

definition hm_weight :: "('v \<Rightarrow> nat) \<Rightarrow> ('k, 'v) hash_map \<Rightarrow> nat" where
  "hm_weight f m = sum_list (map f (hm_values m))"

lemma hm_weight_remove:
  "hm_ok m \<Longrightarrow> hm_get m k = Some v \<Longrightarrow> hm_weight f m = f v + hm_weight f (hm_remove k m)"
  unfolding hm_weight_def hm_values_def hm_remove_def
  by (induction m) (auto simp: hm_ok_Cons hm_get_Cons hm_get_def map_of_eq_None_iff split: if_splits)

lemma hm_remove_None: "hm_get m k = None \<Longrightarrow> hm_remove k m = m"
  by (simp add: hm_remove_def hm_get_def map_of_eq_None_iff)

lemma hm_remove_insert [simp]: "hm_remove k (hm_insert k v m) = hm_remove k m"
  by (simp add: hm_remove_def hm_insert_def delete_update_same)

lemma hm_weight_insert:
  "hm_ok m \<Longrightarrow> hm_weight f (hm_insert k v m) = f v + hm_weight f (hm_remove k m)"
  unfolding hm_weight_def hm_values_def hm_remove_def hm_insert_def
  by (induction m) (auto simp: hm_ok_Cons hm_get_def map_of_eq_None_iff)

lemma hm_weight_remove_le: "hm_weight f (hm_remove k m) \<le> hm_weight f m"
  unfolding hm_weight_def hm_values_def hm_remove_def AList.delete_eq
  by (induction m) auto

lemma hm_weight_retain_le: "hm_weight f (hm_retain P m) \<le> hm_weight f m"
  unfolding hm_weight_def hm_values_def hm_retain_def by (induction m) auto

section \<open>Registries: tables whose records carry their key\<close>

definition hm_keyed :: "('v \<Rightarrow> 'k) \<Rightarrow> ('k, 'v) hash_map \<Rightarrow> bool" where
  "hm_keyed key m = (hm_ok m \<and> list_all (\<lambda>(k, v). key v = k) m)"

lemma hm_keyedD: "hm_keyed key m \<Longrightarrow> hm_get m k = Some v \<Longrightarrow> key v = k"
  by (auto simp: hm_keyed_def list_all_iff hm_mem_iff[symmetric])

lemma hm_keyedI:
  "hm_ok m \<Longrightarrow> (\<And>k v. hm_get m k = Some v \<Longrightarrow> key v = k) \<Longrightarrow> hm_keyed key m"
  by (auto simp: hm_keyed_def list_all_iff hm_mem_iff)

lemma hm_keyed_ok: "hm_keyed key m \<Longrightarrow> hm_ok m"
  by (simp add: hm_keyed_def)

lemma hm_keyed_empty [simp]: "hm_keyed key []"
  by (simp add: hm_keyed_def)

lemma hm_keyed_insert [ray_inv]: "hm_keyed key m \<Longrightarrow> key v = k \<Longrightarrow> hm_keyed key (hm_insert k v m)"
  using hm_keyed_ok[of key m]
  by (auto intro!: hm_keyedI dest: hm_keyedD split: if_splits)

lemma hm_keyed_remove [ray_inv]: "hm_keyed key m \<Longrightarrow> hm_keyed key (hm_remove k m)"
  using hm_keyed_ok[of key m]
  by (auto intro!: hm_keyedI dest: hm_keyedD split: if_splits)

lemma hm_keyed_modify [ray_inv]:
  "hm_keyed key m \<Longrightarrow> (\<And>v. key (f v) = key v) \<Longrightarrow> hm_keyed key (hm_modify k f m)"
  using hm_keyed_ok[of key m] hm_keyedD[of key m]
  by (auto intro!: hm_keyedI split: if_splits)

lemma hm_keyed_retain [ray_inv]: "hm_keyed key m \<Longrightarrow> hm_keyed key (hm_retain P m)"
  using hm_keyed_ok[of key m]
  by (auto intro!: hm_keyedI simp: hm_get_retain dest: hm_keyedD split: option.splits if_splits)

lemma hm_keyed_values:
  "hm_keyed key m \<Longrightarrow> v \<in> set (hm_values m) \<longleftrightarrow> hm_get m (key v) = Some v"
  using hm_keyed_ok[of key m] by (auto simp: hm_values_mem dest: hm_keyedD)

lemma hm_keyed_distinct_keys: "hm_keyed key m \<Longrightarrow> distinct (map key (hm_values m))"
proof -
  assume k: "hm_keyed key m"
  then have "map key (hm_values m) = map fst m"
    by (auto simp: hm_keyed_def hm_values_def list_all_iff)
  with k show ?thesis by (simp add: hm_keyed_def hm_ok_def)
qed

locale registry =
  fixes inv :: "'s \<Rightarrow> bool"
    and lookup :: "'s \<Rightarrow> 'k \<Rightarrow> 'v option"
    and put :: "'v \<Rightarrow> 's \<Rightarrow> 's"
    and all :: "'s \<Rightarrow> 'v list"
    and key :: "'v \<Rightarrow> 'k"
  assumes inv_put: "inv s \<Longrightarrow> inv (put v s)"
    and lookup_put: "inv s \<Longrightarrow> lookup (put v s) k = (if k = key v then Some v else lookup s k)"
    and lookup_key: "inv s \<Longrightarrow> lookup s k = Some v \<Longrightarrow> key v = k"
    and set_all: "inv s \<Longrightarrow> v \<in> set (all s) \<longleftrightarrow> lookup s (key v) = Some v"
    and distinct_all: "inv s \<Longrightarrow> distinct (map key (all s))"
begin

lemma inv_puts: "inv s \<Longrightarrow> inv (fold put vs s)"
  by (induction vs arbitrary: s) (auto intro: inv_put)

lemma lookup_puts:
  "inv s \<Longrightarrow> lookup (fold put vs s) k =
     (case find (\<lambda>v. key v = k) (rev vs) of Some v \<Rightarrow> Some v | None \<Rightarrow> lookup s k)"
proof (induction vs rule: rev_induct)
  case (snoc v vs)
  then show ?case by (auto simp: lookup_put inv_puts)
qed simp

lemma all_put_mem: "inv s \<Longrightarrow> v \<in> set (all (put v s))"
  by (simp add: set_all inv_put lookup_put)

lemma all_put_iff:
  "inv s \<Longrightarrow> w \<in> set (all (put v s)) \<longleftrightarrow> w = v \<or> (w \<in> set (all s) \<and> key w \<noteq> key v)"
  by (auto simp: set_all inv_put lookup_put split: if_splits)

lemma all_lookup: "inv s \<Longrightarrow> lookup s k = Some v \<longleftrightarrow> v \<in> set (all s) \<and> key v = k"
  by (auto simp: set_all dest: lookup_key)

lemma all_filter_key:
  "inv s \<Longrightarrow> lookup s k = Some v \<Longrightarrow> filter (\<lambda>w. key w = k) (all s) = [v]"
  using filter_eq_single[OF distinct_all, of s v] by (auto simp: all_lookup)

end

locale registry_with_removal = registry +
  fixes del :: "'k \<Rightarrow> 's \<Rightarrow> 's"
  assumes inv_del: "inv s \<Longrightarrow> inv (del k s)"
    and lookup_del: "inv s \<Longrightarrow> lookup (del k s) k' = (if k' = k then None else lookup s k')"
begin

lemma all_del_iff:
  "inv s \<Longrightarrow> w \<in> set (all (del k s)) \<longleftrightarrow> w \<in> set (all s) \<and> key w \<noteq> k"
  by (auto simp: set_all inv_del lookup_del)

lemma lookup_del_put_same: "inv s \<Longrightarrow> lookup (del (key v) (put v s)) (key v) = None"
  by (simp add: lookup_del inv_put)

end

end
