(* ===== verification/Core_Resource.thy ===== *)
theory Core_Resource
  imports F64 Hash_Map
begin

text \<open>
  \<^verbatim>\<open>crates/ray-core/src/resource.rs\<close>: a resource set maps resource names to quantities. The
  loops of \<^verbatim>\<open>can_satisfy\<close>, \<^verbatim>\<open>subtract\<close> and \<^verbatim>\<open>add\<close> run over the argument's map in its iteration
  order. The lemmas below give each loop a pointwise reading that does not mention the
  order, and the arithmetic of allocation and release on machine doubles.
\<close>

record Resources =
  res_map :: "(string, f64) hash_map"

section \<open>Operations\<close>

definition f64_zero :: f64 where
  "f64_zero = Fin 0"

definition resources_new :: Resources where
  "resources_new = \<lparr>res_map = []\<rparr>"

definition with_cpu_and_memory :: "f64 \<Rightarrow> f64 \<Rightarrow> Resources" where
  "with_cpu_and_memory cpu memory_bytes =
     \<lparr>res_map = hm_insert ''memory'' memory_bytes (hm_insert ''CPU'' cpu [])\<rparr>"

definition res_set :: "Resources \<Rightarrow> string \<Rightarrow> f64 \<Rightarrow> Resources" where
  "res_set r name quantity = r\<lparr>res_map := hm_insert name quantity (res_map r)\<rparr>"

definition res_get :: "Resources \<Rightarrow> string \<Rightarrow> f64" where
  "res_get r name = (case hm_get (res_map r) name of Some q \<Rightarrow> q | None \<Rightarrow> f64_zero)"

text \<open>The text form; how a double prints is an argument.\<close>

fun join :: "string \<Rightarrow> string list \<Rightarrow> string" where
  "join sep [] = []"
| "join sep [x] = x"
| "join sep (x # xs) = x @ sep @ join sep xs"

definition res_display :: "(f64 \<Rightarrow> string) \<Rightarrow> Resources \<Rightarrow> string" where
  "res_display show_f64 r =
     ''Resources({'' @ join '', '' (map (\<lambda>(k, v). k @ ''='' @ show_f64 v) (res_map r)) @ ''})''"

fun can_satisfy_loop :: "Resources \<Rightarrow> (string \<times> f64) list \<Rightarrow> bool" where
  "can_satisfy_loop r [] = True"
| "can_satisfy_loop r ((name, qty) # rest) =
     (if f64_lt (res_get r name) qty then False else can_satisfy_loop r rest)"

definition can_satisfy :: "Resources \<Rightarrow> Resources \<Rightarrow> bool" where
  "can_satisfy r required = can_satisfy_loop r (res_map required)"

definition subtract_entry :: "(string, f64) hash_map \<Rightarrow> string \<Rightarrow> f64 \<Rightarrow> (string, f64) hash_map" where
  "subtract_entry m name qty =
     (let current = (case hm_get m name of Some c \<Rightarrow> c | None \<Rightarrow> f64_zero);
          current' = f64_sub current qty;
          m' = hm_insert name current' m
      in if f64_le current' f64_zero then hm_remove name m' else m')"

fun subtract_loop :: "(string, f64) hash_map \<Rightarrow> (string \<times> f64) list \<Rightarrow> (string, f64) hash_map" where
  "subtract_loop m [] = m"
| "subtract_loop m ((name, qty) # rest) = subtract_loop (subtract_entry m name qty) rest"

definition res_subtract :: "Resources \<Rightarrow> Resources \<Rightarrow> Resources" where
  "res_subtract r other = r\<lparr>res_map := subtract_loop (res_map r) (res_map other)\<rparr>"

definition add_entry :: "(string, f64) hash_map \<Rightarrow> string \<Rightarrow> f64 \<Rightarrow> (string, f64) hash_map" where
  "add_entry m name qty =
     (let current = (case hm_get m name of Some c \<Rightarrow> c | None \<Rightarrow> f64_zero)
      in hm_insert name (f64_add current qty) m)"

fun add_loop :: "(string, f64) hash_map \<Rightarrow> (string \<times> f64) list \<Rightarrow> (string, f64) hash_map" where
  "add_loop m [] = m"
| "add_loop m ((name, qty) # rest) = add_loop (add_entry m name qty) rest"

definition res_add :: "Resources \<Rightarrow> Resources \<Rightarrow> Resources" where
  "res_add r other = r\<lparr>res_map := add_loop (res_map r) (res_map other)\<rparr>"

section \<open>Well-formed resource sets\<close>

definition res_ok :: "Resources \<Rightarrow> bool" where
  "res_ok r = (hm_ok (res_map r) \<and> list_all (\<lambda>(_, q). f64_wf q) (res_map r))"

text \<open>A request whose quantities are finite and not negative.\<close>

fun f64_amount :: "f64 \<Rightarrow> bool" where
  "f64_amount (Fin k) = (0 \<le> k \<and> f64_wf (Fin k))"
| "f64_amount _ = False"

definition res_amounts :: "Resources \<Rightarrow> bool" where
  "res_amounts r = (hm_ok (res_map r) \<and> list_all (\<lambda>(_, q). f64_amount q) (res_map r))"

text \<open>Whole multiples of a common granule, within the exact range of a double.\<close>

definition res_grid :: "nat \<Rightarrow> Resources \<Rightarrow> bool" where
  "res_grid g r =
     (hm_ok (res_map r) \<and> g \<le> 2044 \<and>
      list_all (\<lambda>(_, q). f64_on_grid g q \<and> f64_amount q) (res_map r))"

section \<open>Pointwise reading of the loops\<close>

lemma res_get_new [simp]: "res_get resources_new name = f64_zero"
  by (simp add: res_get_def resources_new_def)

lemma res_get_set [simp]: "res_get (res_set r n q) name = (if name = n then q else res_get r name)"
  by (simp add: res_get_def res_set_def)

lemma can_satisfy_loop_iff:
  "can_satisfy_loop r xs \<longleftrightarrow> (\<forall>(name, qty) \<in> set xs. \<not> f64_lt (res_get r name) qty)"
  by (induction r xs rule: can_satisfy_loop.induct) auto

lemma can_satisfy_iff:
  assumes "hm_ok (res_map req)"
  shows "can_satisfy r req \<longleftrightarrow>
     (\<forall>name qty. hm_get (res_map req) name = Some qty \<longrightarrow> \<not> f64_lt (res_get r name) qty)"
  using assms by (auto simp: can_satisfy_def can_satisfy_loop_iff hm_mem_iff)

lemma can_satisfy_single [simp]:
  "can_satisfy r (res_set resources_new n x) \<longleftrightarrow> \<not> f64_lt (res_get r n) x"
  by (simp add: can_satisfy_def res_set_def resources_new_def hm_insert_def)

definition subtract_val :: "f64 option \<Rightarrow> f64 \<Rightarrow> f64 option" where
  "subtract_val cur qty =
     (let v = f64_sub (case cur of Some c \<Rightarrow> c | None \<Rightarrow> f64_zero) qty
      in if f64_le v f64_zero then None else Some v)"

lemma hm_get_subtract_entry:
  "hm_get (subtract_entry m name qty) = (hm_get m)(name := subtract_val (hm_get m name) qty)"
  by (auto simp: subtract_entry_def subtract_val_def Let_def fun_eq_iff)

lemma hm_get_subtract_loop:
  "hm_ok xs \<Longrightarrow> hm_get (subtract_loop m xs) name =
     (case hm_get xs name of None \<Rightarrow> hm_get m name | Some q \<Rightarrow> subtract_val (hm_get m name) q)"
proof (induction m xs rule: subtract_loop.induct)
  case (2 m n q rest)
  then show ?case
    by (auto simp: hm_ok_Cons hm_get_Cons hm_get_subtract_entry split: option.splits)
qed simp

lemma hm_get_add_loop:
  "hm_ok xs \<Longrightarrow> hm_get (add_loop m xs) name =
     (case hm_get xs name of None \<Rightarrow> hm_get m name
      | Some q \<Rightarrow> Some (f64_add (case hm_get m name of Some c \<Rightarrow> c | None \<Rightarrow> f64_zero) q))"
proof (induction m xs rule: add_loop.induct)
  case (2 m n q rest)
  then show ?case
    by (auto simp: hm_ok_Cons hm_get_Cons add_entry_def split: option.splits)
qed simp

lemma hm_ok_subtract_loop [simp]: "hm_ok m \<Longrightarrow> hm_ok (subtract_loop m xs)"
  by (induction m xs rule: subtract_loop.induct) (auto simp: subtract_entry_def Let_def)

lemma hm_ok_add_loop [simp]: "hm_ok m \<Longrightarrow> hm_ok (add_loop m xs)"
  by (induction m xs rule: add_loop.induct) (auto simp: add_entry_def)

text \<open>The quantity after a subtraction: the difference, with non-positive results dropped to 0.\<close>

definition clip_sub :: "f64 \<Rightarrow> f64 \<Rightarrow> f64" where
  "clip_sub a q = (if f64_le (f64_sub a q) f64_zero then f64_zero else f64_sub a q)"

lemma res_get_subtract:
  assumes "hm_ok (res_map other)"
  shows "res_get (res_subtract r other) name =
     (case hm_get (res_map other) name of None \<Rightarrow> res_get r name | Some q \<Rightarrow> clip_sub (res_get r name) q)"
  using assms
  by (auto simp: res_get_def res_subtract_def hm_get_subtract_loop subtract_val_def clip_sub_def
      Let_def split: option.splits)

lemma res_get_add:
  assumes "hm_ok (res_map other)"
  shows "res_get (res_add r other) name =
     (case hm_get (res_map other) name of None \<Rightarrow> res_get r name | Some q \<Rightarrow> f64_add (res_get r name) q)"
  using assms by (auto simp: res_get_def res_add_def hm_get_add_loop split: option.splits)

section \<open>Well-formedness is kept\<close>

lemma f64_amount_wf: "f64_amount q \<Longrightarrow> f64_wf q"
  by (cases q) auto

lemma res_okI:
  "hm_ok (res_map r) \<Longrightarrow> (\<And>n q. hm_get (res_map r) n = Some q \<Longrightarrow> f64_wf q) \<Longrightarrow> res_ok r"
  by (auto simp: res_ok_def list_all_iff hm_mem_iff)

lemma res_okD: "res_ok r \<Longrightarrow> hm_get (res_map r) n = Some q \<Longrightarrow> f64_wf q"
  by (auto simp: res_ok_def list_all_iff hm_mem_iff[symmetric])

lemma res_ok_hm_ok: "res_ok r \<Longrightarrow> hm_ok (res_map r)"
  by (simp add: res_ok_def)

lemma res_ok_new [simp]: "res_ok resources_new"
  by (simp add: res_ok_def resources_new_def)

lemma res_ok_set [ray_inv]: "res_ok r \<Longrightarrow> f64_wf q \<Longrightarrow> res_ok (res_set r n q)"
  using res_ok_hm_ok[of r] by (intro res_okI) (auto simp: res_set_def dest: res_okD split: if_splits)

lemma res_ok_get: "res_ok r \<Longrightarrow> f64_wf (res_get r n)"
  by (auto simp: res_get_def f64_zero_def dest: res_okD split: option.splits)

lemma res_ok_subtract [ray_inv]: "res_ok r \<Longrightarrow> hm_ok (res_map other) \<Longrightarrow> res_ok (res_subtract r other)"
  using res_ok_hm_ok[of r]
  by (intro res_okI)
    (auto simp: res_subtract_def hm_get_subtract_loop subtract_val_def Let_def
      dest: res_okD split: option.splits if_splits)

lemma res_ok_add [ray_inv]: "res_ok r \<Longrightarrow> hm_ok (res_map other) \<Longrightarrow> res_ok (res_add r other)"
  using res_ok_hm_ok[of r]
  by (intro res_okI) (auto simp: res_add_def hm_get_add_loop dest: res_okD split: option.splits)

section \<open>Allocation arithmetic\<close>

lemma res_amountsD:
  "res_amounts r \<Longrightarrow> hm_get (res_map r) n = Some q \<Longrightarrow> f64_amount q"
  by (auto simp: res_amounts_def list_all_iff hm_mem_iff[symmetric])

lemma res_amounts_hm_ok: "res_amounts r \<Longrightarrow> hm_ok (res_map r)"
  by (simp add: res_amounts_def)

lemma res_amounts_get: "res_amounts r \<Longrightarrow> f64_amount (res_get r n)"
  by (auto simp: res_get_def f64_zero_def dest: res_amountsD split: option.splits)

lemma clip_sub_amount:
  assumes "f64_amount a" "f64_amount q" "\<not> f64_lt a q"
  shows "f64_amount (clip_sub a q)" "f64_le (clip_sub a q) a"
proof -
  obtain x y where xy: "a = Fin x" "q = Fin y" using assms by (cases a; cases q) auto
  then obtain r where "f64_sub a q = Fin r" "0 \<le> r" "r \<le> x"
    using f64_sub_bounds[of x y] assms by auto
  moreover have "f64_wf (f64_sub a q)" by simp
  ultimately show "f64_amount (clip_sub a q)" "f64_le (clip_sub a q) a"
    using xy assms by (auto simp: clip_sub_def f64_zero_def)
qed

lemma res_amounts_subtract [ray_inv]:
  assumes "res_amounts r" "res_amounts req" "can_satisfy r req"
  shows "res_amounts (res_subtract r req)"
proof -
  have ok: "hm_ok (res_map r)" "hm_ok (res_map req)"
    using assms by (auto dest: res_amounts_hm_ok)
  have "f64_amount q" if q: "hm_get (res_map (res_subtract r req)) n = Some q" for n q
  proof (cases "hm_get (res_map req) n")
    case None
    with q ok assms(1) show ?thesis
      by (auto simp: res_subtract_def hm_get_subtract_loop dest: res_amountsD)
  next
    case (Some y)
    have "\<not> f64_lt (res_get r n) y" using assms(3) Some ok by (simp add: can_satisfy_iff)
    then have "f64_amount (clip_sub (res_get r n) y)"
      using assms Some by (intro clip_sub_amount) (auto intro: res_amounts_get res_amountsD)
    moreover have "res_get (res_subtract r req) n = q" using q by (simp add: res_get_def)
    ultimately show ?thesis using Some ok by (simp add: res_get_subtract)
  qed
  then show ?thesis
    using ok by (auto simp: res_amounts_def list_all_iff hm_mem_iff res_subtract_def)
qed

lemma res_subtract_le:
  assumes "res_amounts r" "res_amounts req" "can_satisfy r req"
  shows "f64_le (res_get (res_subtract r req) n) (res_get r n)"
proof -
  have "f64_le x x" if "f64_amount x" for x using that by (cases x) auto
  then have refl: "f64_le (res_get r n) (res_get r n)" using res_amounts_get[OF assms(1)] by simp
  show ?thesis
    using assms refl
    by (auto simp: res_get_subtract res_amounts_hm_ok can_satisfy_iff
        intro!: clip_sub_amount(2) res_amounts_get dest: res_amountsD split: option.splits)
qed

lemma can_satisfy_mono:
  assumes "hm_ok (res_map req)" "\<And>n. f64_le (res_get r' n) (res_get r n)" "can_satisfy r' req"
    and "\<And>n q. hm_get (res_map req) n = Some q \<Longrightarrow> q \<noteq> NaN"
  shows "can_satisfy r req"
  unfolding can_satisfy_iff[OF assms(1)]
proof (intro allI impI notI)
  fix n q
  assume q: "hm_get (res_map req) n = Some q" and lt: "f64_lt (res_get r n) q"
  have "f64_lt (res_get r' n) q" using f64_le_lt_trans[OF assms(2) lt] .
  with assms(1,3) q show False by (simp add: can_satisfy_iff)
qed

section \<open>Exact accounting on a grid\<close>

text \<open>The quantity of a resource in units of the least subnormal.\<close>

definition res_units :: "Resources \<Rightarrow> string \<Rightarrow> int" where
  "res_units r n = (case res_get r n of Fin k \<Rightarrow> k | _ \<Rightarrow> 0)"

lemma res_gridD:
  assumes "res_grid g r"
  shows "res_amounts r" "hm_ok (res_map r)" "g \<le> 2044"
    "hm_get (res_map r) n = Some q \<Longrightarrow> f64_on_grid g q"
  using assms by (auto simp: res_grid_def res_amounts_def list_all_iff hm_mem_iff[symmetric])

lemma res_gridI:
  assumes "hm_ok (res_map r)" "g \<le> 2044"
    "\<And>n q. hm_get (res_map r) n = Some q \<Longrightarrow> f64_on_grid g q \<and> f64_amount q"
  shows "res_grid g r"
  using assms by (auto simp: res_grid_def list_all_iff hm_mem_iff)

lemma res_grid_get:
  assumes "res_grid g r"
  shows "res_get r n = Fin (res_units r n)" "0 \<le> res_units r n"
    "2 ^ g dvd res_units r n" "res_units r n \<le> 2 ^ (53 + g)"
proof -
  have "f64_on_grid g (res_get r n) \<and> f64_amount (res_get r n)"
    using res_gridD(4)[OF assms] res_amounts_get[OF res_gridD(1)[OF assms]]
    by (auto simp: res_get_def f64_zero_def split: option.splits)
  then show "res_get r n = Fin (res_units r n)" "0 \<le> res_units r n"
    "2 ^ g dvd res_units r n" "res_units r n \<le> 2 ^ (53 + g)"
    by (cases "res_get r n"; auto simp: res_units_def)+
qed

lemma res_units_entry:
  "hm_get (res_map r) n = Some q \<Longrightarrow> res_grid g r \<Longrightarrow> q = Fin (res_units r n)"
  using res_grid_get(1)[of g r n] by (simp add: res_get_def)

lemma res_units_no_entry: "hm_get (res_map r) n = None \<Longrightarrow> res_units r n = 0"
  by (simp add: res_units_def res_get_def f64_zero_def)

lemma can_satisfy_grid:
  assumes "res_grid g r" "res_grid g req"
  shows "can_satisfy r req \<longleftrightarrow> (\<forall>n. res_units req n \<le> res_units r n)"
proof
  assume cs: "can_satisfy r req"
  show "\<forall>n. res_units req n \<le> res_units r n"
  proof
    fix n
    show "res_units req n \<le> res_units r n"
    proof (cases "hm_get (res_map req) n")
      case None
      then show ?thesis using res_grid_get(2)[OF assms(1)] by (simp add: res_units_no_entry)
    next
      case (Some q)
      with cs have "\<not> f64_lt (res_get r n) q" using assms by (simp add: can_satisfy_iff res_gridD(2))
      with Some show ?thesis
        using res_units_entry[OF Some assms(2)] res_grid_get(1)[OF assms(1)] by simp
    qed
  qed
next
  assume le: "\<forall>n. res_units req n \<le> res_units r n"
  show "can_satisfy r req"
    unfolding can_satisfy_iff[OF res_gridD(2)[OF assms(2)]]
    using le res_units_entry[OF _ assms(2)] res_grid_get(1)[OF assms(1)]
    by (metis f64_lt.simps(1) not_less)
qed

lemma res_units_subtract:
  assumes "res_grid g r" "res_grid g req" "can_satisfy r req"
  shows "res_units (res_subtract r req) n = res_units r n - res_units req n"
proof (cases "hm_get (res_map req) n")
  case None
  then show ?thesis
    using assms(2) by (simp add: res_units_def[of "res_subtract r req"] res_get_subtract
        res_gridD(2) res_units_no_entry) (simp add: res_units_def)
next
  case (Some q)
  note G = res_grid_get[OF assms(1), of n] and H = res_grid_get[OF assms(2), of n]
  have le: "res_units req n \<le> res_units r n"
    using assms by (simp add: can_satisfy_grid)
  have "f64_sub (res_get r n) q = Fin (res_units r n - res_units req n)"
    unfolding G(1) res_units_entry[OF Some assms(2)]
    using G H le res_gridD(3)[OF assms(1)] by (intro f64_sub_grid[of g]) auto
  with Some le show ?thesis
    using assms(2) by (simp add: res_units_def[of "res_subtract r req"] res_get_subtract
        res_gridD(2) clip_sub_def f64_zero_def)
qed

lemma res_grid_from_units:
  assumes "hm_ok (res_map r)" "g \<le> 2044"
    and "\<And>n q. hm_get (res_map r) n = Some q \<Longrightarrow>
       \<exists>k. q = Fin k \<and> 0 \<le> k \<and> 2 ^ g dvd k \<and> k \<le> 2 ^ (53 + g)"
  shows "res_grid g r"
proof (rule res_gridI[OF assms(1,2)])
  fix n q assume "hm_get (res_map r) n = Some q"
  from assms(3)[OF this] obtain k where k: "q = Fin k" "0 \<le> k" "2 ^ g dvd k" "k \<le> 2 ^ (53 + g)"
    by blast
  then have "f64_on_grid g q" by simp
  with k f64_on_grid_wf[OF this assms(2)] show "f64_on_grid g q \<and> f64_amount q" by simp
qed

lemma res_grid_subtract [ray_inv]:
  assumes "res_grid g r" "res_grid g req" "can_satisfy r req"
  shows "res_grid g (res_subtract r req)"
proof (rule res_grid_from_units)
  show "hm_ok (res_map (res_subtract r req))" "g \<le> 2044"
    using res_gridD[OF assms(1)] by (simp_all add: res_subtract_def)
  fix n q assume q: "hm_get (res_map (res_subtract r req)) n = Some q"
  have "f64_amount q"
    using res_amounts_subtract[OF res_gridD(1)[OF assms(1)] res_gridD(1)[OF assms(2)] assms(3)] q
    by (rule res_amountsD)
  then obtain k where k: "q = Fin k" by (cases q) auto
  with q have "k = res_units (res_subtract r req) n" by (simp add: res_units_def res_get_def)
  then have kk: "k = res_units r n - res_units req n" by (simp add: res_units_subtract[OF assms])
  have "res_units req n \<le> res_units r n"
    using assms by (simp add: can_satisfy_grid)
  then show "\<exists>k. q = Fin k \<and> 0 \<le> k \<and> 2 ^ g dvd k \<and> k \<le> 2 ^ (53 + g)"
    using k kk res_grid_get[OF assms(1), of n] res_grid_get[OF assms(2), of n] by auto
qed

lemma res_get_add_grid:
  assumes "res_grid g r" "res_grid g req" "res_units r n + res_units req n \<le> 2 ^ (53 + g)"
  shows "res_get (res_add r req) n = Fin (res_units r n + res_units req n)"
proof (cases "hm_get (res_map req) n")
  case None
  then show ?thesis
    using assms by (simp add: res_get_add res_gridD(2) res_units_no_entry res_grid_get(1)[OF assms(1)])
next
  case (Some q)
  note G = res_grid_get[OF assms(1), of n] and H = res_grid_get[OF assms(2), of n]
  have "f64_add (res_get r n) q = Fin (res_units r n + res_units req n)"
    unfolding G(1) res_units_entry[OF Some assms(2)]
    using G H assms(3) res_gridD(3)[OF assms(1)] by (intro f64_add_grid[of g]) auto
  with Some show ?thesis using assms(2) by (simp add: res_get_add res_gridD(2))
qed

lemma res_units_add:
  assumes "res_grid g r" "res_grid g req" "res_units r n + res_units req n \<le> 2 ^ (53 + g)"
  shows "res_units (res_add r req) n = res_units r n + res_units req n"
  by (simp add: res_units_def[of "res_add r req"] res_get_add_grid[OF assms])

lemma res_grid_add [ray_inv]:
  assumes "res_grid g r" "res_grid g req" "\<And>n. res_units r n + res_units req n \<le> 2 ^ (53 + g)"
  shows "res_grid g (res_add r req)"
proof (rule res_grid_from_units)
  show "hm_ok (res_map (res_add r req))" "g \<le> 2044"
    using res_gridD[OF assms(1)] by (simp_all add: res_add_def)
  fix n q assume "hm_get (res_map (res_add r req)) n = Some q"
  then have "q = Fin (res_units r n + res_units req n)"
    using res_get_add_grid[OF assms(1,2,3), of n] by (simp add: res_get_def)
  then show "\<exists>k. q = Fin k \<and> 0 \<le> k \<and> 2 ^ g dvd k \<and> k \<le> 2 ^ (53 + g)"
    using assms(3)[of n] res_grid_get[OF assms(1), of n] res_grid_get[OF assms(2), of n] by auto
qed

lemma subtract_add_get:
  assumes "res_grid g r" "res_grid g req" "can_satisfy r req"
  shows "res_get (res_add (res_subtract r req) req) n = res_get r n"
proof -
  note sub = res_units_subtract[OF assms] and grid = res_grid_subtract[OF assms]
  have "res_units (res_subtract r req) n + res_units req n \<le> 2 ^ (53 + g)"
    using res_grid_get(4)[OF assms(1)] by (simp add: sub)
  from res_get_add_grid[OF grid assms(2) this] show ?thesis
    using res_grid_get(1)[OF assms(1)] by (simp add: sub)
qed

text \<open>Whole quantities up to \<open>2 ^ 53\<close> are on the grid of granule one.\<close>

lemma res_grid_new [simp]: "res_grid 1074 resources_new"
  by (simp add: res_grid_def resources_new_def)

lemma f64_of_nat_amount: "k \<le> 2 ^ 53 \<Longrightarrow> f64_amount (f64_of_nat k)"
  using f64_on_grid_wf[OF f64_of_nat_grid[of k]] by (simp add: f64_of_nat_Fin)

lemma res_grid_set_nat [simp]:
  assumes "res_grid 1074 r" "k \<le> 2 ^ 53"
  shows "res_grid 1074 (res_set r n (f64_of_nat k))"
proof (rule res_gridI)
  fix m q assume "hm_get (res_map (res_set r n (f64_of_nat k))) m = Some q"
  then show "f64_on_grid 1074 q \<and> f64_amount q"
    using res_gridD[OF assms(1)] f64_of_nat_grid[OF assms(2)] f64_of_nat_amount[OF assms(2)]
    by (auto simp: res_set_def dest: res_amountsD split: if_splits)
qed (use res_gridD[OF assms(1)] in \<open>simp_all add: res_set_def\<close>)

section \<open>Properties\<close>

lemma hm_get_perm: "hm_ok m \<Longrightarrow> mset m = mset m' \<Longrightarrow> hm_get m = hm_get m'"
  unfolding hm_ok_def hm_get_def
  by (metis mset_eq_setD distinct_map map_of_inject_set mset_eq_imp_distinct_iff)

text \<open>
  The iteration order of the other set's hash map does not matter to \<^verbatim>\<open>can_satisfy\<close>,
  \<^verbatim>\<open>subtract\<close> or \<^verbatim>\<open>add\<close>: two maps with the same entries in different orders give the same
  answer and the same quantity of every resource.
\<close>

lemma resource_loops_order_independent:
  assumes "hm_ok (res_map other)" "mset (res_map other) = mset (res_map other')"
  shows "can_satisfy r other = can_satisfy r other'
    \<and> res_get (res_subtract r other) n = res_get (res_subtract r other') n
    \<and> res_get (res_add r other) n = res_get (res_add r other') n"
proof -
  have get: "hm_get (res_map other) = hm_get (res_map other')"
    using assms by (rule hm_get_perm)
  have ok': "hm_ok (res_map other')"
    using assms by (metis hm_ok_def mset_eq_imp_distinct_iff mset_map)
  show ?thesis
    using assms(1) ok'
    by (simp add: can_satisfy_iff res_get_subtract res_get_add get)
qed

end
