(* ===== verification/Core_Error.thy ===== *)
theory Core_Error
  imports Core_Resource
begin

text \<open>
  \<^verbatim>\<open>crates/ray-core/src/error.rs\<close>: the error type of every fallible operation and its text.

  An error message is the list of the pieces its \<^verbatim>\<open>format!\<close> joins: literal text, integers
  printed in decimal, and resource sets printed with \<^verbatim>\<open>{:?}\<close> (whose text depends on the
  iteration order of a hash map and on the printing of doubles). Messages that come from
  outside the repository (\<^verbatim>\<open>io::Error\<close>, a panic payload) are strings supplied by the model's
  parameters.
\<close>

datatype fragment = Lit string | Num int | DebugRes Resources

type_synonym message = "fragment list"

datatype RayError =
    ObjectNotFound message
  | ObjectAlreadyExists message
  | TaskFailed message
  | TaskNotFound message
  | ActorNotFound message
  | ActorDied message
  | NodeNotFound message
  | InsufficientResources message
  | SchedulingFailed message
  | SerializationError message
  | DeserializationError message
  | SharedMemoryError message
  | Timeout message
  | Transport message
  | GcsError message
  | Internal message
  | Io message
  | Other message

type_synonym 'a RayResult = "RayError + 'a"

fun error_to_string :: "RayError \<Rightarrow> message" where
  "error_to_string (ObjectNotFound m) = Lit ''Object not found: '' # m"
| "error_to_string (ObjectAlreadyExists m) = Lit ''Object already exists: '' # m"
| "error_to_string (TaskFailed m) = Lit ''Task failed: '' # m"
| "error_to_string (TaskNotFound m) = Lit ''Task not found: '' # m"
| "error_to_string (ActorNotFound m) = Lit ''Actor not found: '' # m"
| "error_to_string (ActorDied m) = Lit ''Actor died: '' # m"
| "error_to_string (NodeNotFound m) = Lit ''Node not found: '' # m"
| "error_to_string (InsufficientResources m) = Lit ''Insufficient resources: '' # m"
| "error_to_string (SchedulingFailed m) = Lit ''Scheduling failed: '' # m"
| "error_to_string (SerializationError m) = Lit ''Serialization error: '' # m"
| "error_to_string (DeserializationError m) = Lit ''Deserialization error: '' # m"
| "error_to_string (SharedMemoryError m) = Lit ''Shared memory error: '' # m"
| "error_to_string (Timeout m) = Lit ''Timeout: '' # m"
| "error_to_string (Transport m) = Lit ''Transport error: '' # m"
| "error_to_string (GcsError m) = Lit ''GCS error: '' # m"
| "error_to_string (Internal m) = Lit ''Internal error: '' # m"
| "error_to_string (Io m) = Lit ''IO error: '' # m"
| "error_to_string (Other m) = m"

definition is_ok :: "'a RayResult \<Rightarrow> bool" where
  "is_ok r = (case r of Inl _ \<Rightarrow> False | Inr _ \<Rightarrow> True)"

definition unwrap_or :: "'a RayResult \<Rightarrow> 'a \<Rightarrow> 'a" where
  "unwrap_or r d = (case r of Inl _ \<Rightarrow> d | Inr x \<Rightarrow> x)"

lemma is_ok_simps [simp]: "is_ok (Inr x)" "\<not> is_ok (Inl e)"
  by (simp_all add: is_ok_def)

lemma unwrap_or_simps [simp]: "unwrap_or (Inr x) d = x" "unwrap_or (Inl e) d = d"
  by (simp_all add: unwrap_or_def)

end
