(* ===== verification/Resource_Manager.thy ===== *)
theory Resource_Manager
  imports Core_Error
begin

text \<open>
  \<^verbatim>\<open>crates/ray-raylet/src/resource_manager.rs\<close>: the resources of one node. Each method runs
  under the \<^verbatim>\<open>RwLock\<close> of \<^verbatim>\<open>available\<close>, so each is one atomic step.

  The locale \<open>allocator\<close> is what the scheduler relies on: an accounting invariant between
  the manager and the multiset of requests it has granted, kept by a granted allocation and
  by the release of a granted request. It is interpreted on the manager's own operations.
\<close>

record ResourceManager =
  rm_total :: Resources
  rm_available :: Resources

definition rm_new :: "Resources \<Rightarrow> ResourceManager" where
  "rm_new tot = \<lparr>rm_total = tot, rm_available = tot\<rparr>"

definition try_allocate :: "Resources \<Rightarrow> ResourceManager \<Rightarrow> bool RayResult \<times> ResourceManager" where
  "try_allocate required rm =
     (if can_satisfy (rm_available rm) required
      then (Inr True, rm\<lparr>rm_available := res_subtract (rm_available rm) required\<rparr>)
      else (Inr False, rm))"

definition rm_release :: "Resources \<Rightarrow> ResourceManager \<Rightarrow> ResourceManager" where
  "rm_release resources rm = rm\<lparr>rm_available := res_add (rm_available rm) resources\<rparr>"

fun utilization_loop ::
  "Resources \<Rightarrow> (string \<times> f64) list \<Rightarrow> (string, f64) hash_map \<Rightarrow> (string, f64) hash_map" where
  "utilization_loop available [] util = util"
| "utilization_loop available ((name, total_qty) # rest) util =
     (let avail_qty = res_get available name
      in utilization_loop available rest
           (if f64_lt f64_zero total_qty
            then hm_insert name (f64_div (f64_sub total_qty avail_qty) total_qty) util
            else util))"

definition utilization :: "ResourceManager \<Rightarrow> Resources" where
  "utilization rm =
     \<lparr>res_map = utilization_loop (rm_available rm) (res_map (rm_total rm)) (res_map resources_new)\<rparr>"

section \<open>Accounting\<close>

text \<open>
  \<open>rm_accounts g rm held\<close>: on the grid \<open>g\<close>, what is available plus what the granted requests
  \<open>held\<close> hold is the total, for every resource.
\<close>

definition held_units :: "Resources multiset \<Rightarrow> string \<Rightarrow> int" where
  "held_units held n = (\<Sum>r\<in>#held. res_units r n)"

definition rm_accounts :: "nat \<Rightarrow> ResourceManager \<Rightarrow> Resources multiset \<Rightarrow> bool" where
  "rm_accounts g rm held \<longleftrightarrow>
     res_grid g (rm_total rm) \<and> res_grid g (rm_available rm) \<and> (\<forall>r\<in>#held. res_grid g r) \<and>
     (\<forall>n. res_units (rm_available rm) n + held_units held n = res_units (rm_total rm) n)"

lemma held_units_add [simp]: "held_units (add_mset r held) n = res_units r n + held_units held n"
  by (simp add: held_units_def)

lemma held_units_empty [simp]: "held_units {#} n = 0"
  by (simp add: held_units_def)

lemma rm_accounts_new: "res_grid g tot \<Longrightarrow> rm_accounts g (rm_new tot) {#}"
  by (simp add: rm_accounts_def rm_new_def)

lemma try_allocate_total [simp]: "rm_total (snd (try_allocate req rm)) = rm_total rm"
  by (simp add: try_allocate_def)

lemma rm_release_total [simp]: "rm_total (rm_release req rm) = rm_total rm"
  by (simp add: rm_release_def)

lemma try_allocate_false: "try_allocate req rm = (Inr False, rm') \<Longrightarrow> rm' = rm"
  by (simp add: try_allocate_def split: if_splits)

lemma try_allocate_not_err [simp]: "fst (try_allocate req rm) \<noteq> Inl e"
  by (simp add: try_allocate_def)

lemma try_allocate_true_iff [simp]:
  "fst (try_allocate req rm) = Inr True \<longleftrightarrow> can_satisfy (rm_available rm) req"
  by (simp add: try_allocate_def)

text \<open>The form the scheduler uses: \<^verbatim>\<open>try_allocate(..).unwrap_or(false)\<close>.\<close>

lemma try_allocate_unwrap [simp]:
  "unwrap_or (fst (try_allocate req rm)) False \<longleftrightarrow> can_satisfy (rm_available rm) req"
  by (simp add: try_allocate_def)

definition rm_granted :: "Resources \<Rightarrow> ResourceManager \<Rightarrow> ResourceManager option" where
  "rm_granted req rm =
     (case try_allocate req rm of (ok, rm') \<Rightarrow> if unwrap_or ok False then Some rm' else None)"

lemma rm_granted_eq:
  "rm_granted req rm =
     (if can_satisfy (rm_available rm) req
      then Some (rm\<lparr>rm_available := res_subtract (rm_available rm) req\<rparr>) else None)"
  by (simp add: rm_granted_def try_allocate_def)

lemma rm_accounts_grant:
  assumes "rm_accounts g rm held" "res_grid g req" "rm_granted req rm = Some rm'"
  shows "rm_accounts g rm' (add_mset req held)"
proof -
  have cs: "can_satisfy (rm_available rm) req"
    and rm': "rm' = rm\<lparr>rm_available := res_subtract (rm_available rm) req\<rparr>"
    using assms(3) by (auto simp: rm_granted_eq split: if_splits)
  have grid: "res_grid g (rm_available rm)" using assms(1) by (simp add: rm_accounts_def)
  show ?thesis
    unfolding rm_accounts_def rm'
    using assms(1,2) res_grid_subtract[OF grid assms(2) cs] res_units_subtract[OF grid assms(2) cs]
    by (auto simp: rm_accounts_def)
qed

lemma held_units_nonneg: "\<forall>r\<in>#held. res_grid g r \<Longrightarrow> 0 \<le> held_units held n"
  by (induction held) (auto simp: res_grid_get(2))

lemma rm_accounts_release:
  assumes "rm_accounts g rm held" "req \<in># held"
  shows "rm_accounts g (rm_release req rm) (held - {#req#})"
proof -
  obtain held' where h: "held = add_mset req held'" using assms(2) by (meson mset_add)
  have grid: "res_grid g (rm_available rm)" "res_grid g req" "res_grid g (rm_total rm)"
    and held': "\<forall>r\<in>#held'. res_grid g r"
    and eq: "\<And>n. res_units (rm_available rm) n + (res_units req n + held_units held' n)
       = res_units (rm_total rm) n"
    using assms(1) by (auto simp: rm_accounts_def h)
  have bound: "res_units (rm_available rm) n + res_units req n \<le> 2 ^ (53 + g)" for n
    using eq[of n] held_units_nonneg[OF held', of n] res_grid_get(4)[OF grid(3), of n] by linarith
  show ?thesis
    unfolding rm_accounts_def rm_release_def
    using grid held' eq res_grid_add[OF grid(1,2) bound] res_units_add[OF grid(1,2) bound]
    by (auto simp: h add.assoc)
qed

section \<open>The allocator contract\<close>

locale allocator =
  fixes accounts :: "'s \<Rightarrow> 'r multiset \<Rightarrow> bool"
    and valid :: "'r \<Rightarrow> bool"
    and grant :: "'r \<Rightarrow> 's \<Rightarrow> 's option"
    and release :: "'r \<Rightarrow> 's \<Rightarrow> 's"
  assumes accounts_grant:
      "accounts s held \<Longrightarrow> valid r \<Longrightarrow> grant r s = Some s' \<Longrightarrow> accounts s' (add_mset r held)"
    and accounts_release:
      "accounts s held \<Longrightarrow> r \<in># held \<Longrightarrow> accounts (release r s) (held - {#r#})"
begin

lemma accounts_release_add: "accounts s (add_mset r held) \<Longrightarrow> accounts (release r s) held"
  using accounts_release[of s "add_mset r held" r] by simp

lemma accounts_release_union:
  "accounts s (mset rs + held) \<Longrightarrow> accounts (fold release rs s) held"
  by (induction rs arbitrary: s) (auto dest: accounts_release_add)

lemma accounts_grant_release:
  "accounts s held \<Longrightarrow> valid r \<Longrightarrow> grant r s = Some s' \<Longrightarrow> accounts (release r s') held"
  by (blast intro: accounts_grant accounts_release_add)

end

interpretation rm: allocator "rm_accounts g" "res_grid g" rm_granted rm_release for g
  by unfold_locales (auto intro: rm_accounts_grant rm_accounts_release)

section \<open>Utilization\<close>

lemma utilization_loop_get:
  "hm_ok xs \<Longrightarrow> hm_get (utilization_loop av xs util) n =
     (case hm_get xs n of
        None \<Rightarrow> hm_get util n
      | Some t \<Rightarrow> if f64_lt f64_zero t then Some (f64_div (f64_sub t (res_get av n)) t)
                  else hm_get util n)"
proof (induction av xs util rule: utilization_loop.induct)
  case (2 av name t rest util)
  then show ?case
    by (auto simp: hm_ok_Cons hm_get_Cons Let_def split: option.splits)
qed simp

lemma utilization_get:
  assumes "hm_ok (res_map (rm_total rm))"
  shows "res_get (utilization rm) n =
    (if f64_lt f64_zero (res_get (rm_total rm) n)
     then f64_div (f64_sub (res_get (rm_total rm) n) (res_get (rm_available rm) n)) (res_get (rm_total rm) n)
     else f64_zero)"
proof (cases "hm_get (res_map (rm_total rm)) n")
  case None
  with assms show ?thesis
    by (simp add: res_get_def utilization_def utilization_loop_get f64_zero_def resources_new_def)
next
  case (Some t)
  with assms show ?thesis
    by (simp add: res_get_def utilization_def utilization_loop_get resources_new_def)
qed

section \<open>Properties\<close>

text \<open>
  C16. Releasing what was allocated restores the pool: on quantities that are multiples of a
  common granule (whole CPUs, halves, ...) and within a double's exact range, a granted
  request followed by its release leaves every available quantity as it was.
\<close>

theorem allocate_release_restores:
  assumes "rm_accounts g rm held" "res_grid g req" "try_allocate req rm = (Inr True, rm')"
  shows "res_get (rm_available (rm_release req rm')) n = res_get (rm_available rm) n"
proof -
  have "can_satisfy (rm_available rm) req"
    and "rm' = rm\<lparr>rm_available := res_subtract (rm_available rm) req\<rparr>"
    using assms(3) by (auto simp: try_allocate_def split: if_splits)
  then show ?thesis
    using assms(1,2) subtract_add_get[of g "rm_available rm" req n]
    by (simp add: rm_accounts_def rm_release_def)
qed

theorem allocate_release_restores_witness:
  "res_get (rm_available (rm_release (res_set resources_new ''CPU'' (f64_of_nat 1))
      (snd (try_allocate (res_set resources_new ''CPU'' (f64_of_nat 1))
        (rm_new (res_set resources_new ''CPU'' (f64_of_nat 4))))))) ''CPU'' = f64_of_nat 4"
proof -
  let ?tot = "res_set resources_new ''CPU'' (f64_of_nat 4)"
  let ?req = "res_set resources_new ''CPU'' (f64_of_nat 1)"
  have acc: "rm_accounts 1074 (rm_new ?tot) {#}" by (rule rm_accounts_new) simp
  have grid: "res_grid 1074 ?req" by simp
  have "can_satisfy ?tot ?req"
    by (simp add: f64_of_nat_cmp)
  then have "try_allocate ?req (rm_new ?tot) = (Inr True, snd (try_allocate ?req (rm_new ?tot)))"
    by (simp add: try_allocate_def rm_new_def)
  from allocate_release_restores[OF acc grid this, of "''CPU''"] show ?thesis
    by (simp add: rm_new_def)
qed



text \<open>
  The utilization of every resource is a fraction between 0.0 and 1.0, in the rounded
  double arithmetic of the code, whenever the books balance.
\<close>

lemma utilization_fraction:
  assumes "rm_accounts g rm held"
  shows "f64_le f64_zero (res_get (utilization rm) n)
    \<and> f64_le (res_get (utilization rm) n) f64_one"
proof -
  have grid: "res_grid g (rm_total rm)" "res_grid g (rm_available rm)"
    and held: "\<forall>r\<in>#held. res_grid g r"
    and eq: "res_units (rm_available rm) n + held_units held n = res_units (rm_total rm) n"
    using assms by (auto simp: rm_accounts_def)
  let ?t = "res_units (rm_total rm) n" and ?a = "res_units (rm_available rm) n"
  have le: "?a \<le> ?t" using eq held_units_nonneg[OF held, of n] by simp
  have wf: "f64_wf (Fin ?t)"
    using res_amounts_get[OF res_gridD(1)[OF grid(1)], of n] f64_amount_wf res_grid_get(1)[OF grid(1)]
    by metis
  obtain u where u: "f64_sub (Fin ?t) (Fin ?a) = Fin u" "0 \<le> u" "u \<le> ?t"
    using f64_sub_bounds[OF wf res_grid_get(2)[OF grid(2)] le] by blast
  have get: "res_get (utilization rm) n = (if 0 < ?t then f64_div (Fin u) (Fin ?t) else f64_zero)"
    using utilization_get[OF res_gridD(2)[OF grid(1)], of n]
    by (simp only: res_grid_get(1)[OF grid(1)] res_grid_get(1)[OF grid(2)] u f64_zero_def f64_lt.simps)
  show ?thesis
  proof (cases "0 < ?t")
    case True
    then obtain r where "f64_div (Fin u) (Fin ?t) = Fin r" "0 \<le> r" "r \<le> int f64_unit"
      using f64_div_self_bound[OF wf True u(2,3)] by blast
    with True show ?thesis by (simp add: get f64_one_Fin f64_zero_def)
  qed (simp add: get f64_one_Fin f64_zero_def)
qed

text \<open>
  A request with a NaN quantity switches the limit off: it is granted whatever is
  available, and after it every request for that resource, of any size, is granted too.
  (NaN compares false with everything, and the NaN stays in the available map.)
\<close>

lemma nan_request_disables_limit:
  "fst (try_allocate (res_set resources_new n NaN) rm) = Inr True
   \<and> fst (try_allocate (res_set resources_new n q)
        (snd (try_allocate (res_set resources_new n NaN) rm))) = Inr True"
proof -
  have "res_get (res_subtract r (res_set resources_new n NaN)) n = NaN" for r
    by (simp add: res_get_subtract res_set_def resources_new_def clip_sub_def)
  then show ?thesis
    by (simp add: try_allocate_def)
qed

text \<open>The doubles 0.1 and 0.2, and what happens to 1.0 in the order of the example.\<close>

lemma tenths:
  "f64_div (f64_of_nat 1) (f64_of_nat 10) = Fin (int (14411518807585588 * 2 ^ 1017))"
  "f64_div (f64_of_nat 2) (f64_of_nat 10) = Fin (int (28823037615171176 * 2 ^ 1017))"
  "f64_of_nat 1 = Fin (int (144115188075855872 * 2 ^ 1017))"
proof -
  show "f64_div (f64_of_nat 1) (f64_of_nat 10) = Fin (int (14411518807585588 * 2 ^ 1017))"
    by (subst f64_div_scaled[where j = 1]) (simp_all add: round_div_def)
  show "f64_div (f64_of_nat 2) (f64_of_nat 10) = Fin (int (28823037615171176 * 2 ^ 1017))"
    by (subst f64_div_scaled[where j = 2]) (simp_all add: round_div_def)
  have "f64_unit = 2 ^ 57 * 2 ^ 1017" by (simp add: f64_unit_def flip: power_add)
  then show "f64_of_nat 1 = Fin (int (144115188075855872 * 2 ^ 1017))" by (simp add: f64_of_nat_Fin)
qed

lemma tenths_drift:
  "f64_sub (Fin (int (144115188075855872 * 2 ^ 1017))) (Fin (int (14411518807585588 * 2 ^ 1017))) = Fin (int (129703669268270288 * 2 ^ 1017))"
  "f64_sub (Fin (int (129703669268270288 * 2 ^ 1017))) (Fin (int (28823037615171176 * 2 ^ 1017))) = Fin (int (100880631653099104 * 2 ^ 1017))"
  "f64_add (Fin (int (100880631653099104 * 2 ^ 1017))) (Fin (int (28823037615171176 * 2 ^ 1017))) = Fin (int (129703669268270272 * 2 ^ 1017))"
  "f64_add (Fin (int (129703669268270272 * 2 ^ 1017))) (Fin (int (14411518807585588 * 2 ^ 1017))) = Fin (int (144115188075855856 * 2 ^ 1017))"
  by (subst f64_sub_scaled[where j = 4]; simp add: round_div_def del: f64_add.simps)+
     (subst f64_add_scaled[where j = 4]; simp add: round_div_def del: f64_add.simps)+



end
