(* ===== verification/Core_Id.thy ===== *)
theory Core_Id
  imports Prelude "HOL-Library.Type_Length" "HOL-Library.Numeral_Type"
begin

text \<open>
  The identifiers of \<^verbatim>\<open>crates/ray-core/src/id.rs\<close>. The macro \<^verbatim>\<open>define_id!\<close> declares one newtype
  over \<^verbatim>\<open>[u8; N]\<close> per identifier; here \<open>'n byte_array\<close> is the type of byte arrays of length
  \<open>LENGTH('n)\<close>, and the six identifiers are its instances at 16 and 28. The random bytes
  of \<^verbatim>\<open>Uuid::new_v4\<close> are an argument of \<open>id_new\<close>.
\<close>

typedef (overloaded) 'n byte_array = "{bs :: bytes. length bs = LENGTH('n::len)}"
  morphisms as_bytes Byte_Array
  by (rule exI[of _ "replicate LENGTH('n) 0"]) simp

setup_lifting type_definition_byte_array

type_synonym TaskId = "16 byte_array"
type_synonym ActorId = "16 byte_array"
type_synonym WorkerId = "16 byte_array"
type_synonym NodeId = "16 byte_array"
type_synonym JobId = "16 byte_array"
type_synonym ObjectId = "28 byte_array"

text \<open>\<^verbatim>\<open>bytes[..copy_len].copy_from_slice(&slice[..copy_len])\<close> on a zeroed array of length \<open>n\<close>.\<close>

definition copy_into_zeroed :: "nat \<Rightarrow> bytes \<Rightarrow> bytes" where
  "copy_into_zeroed n src =
     (let buf = replicate n 0; copy_len = min (length src) n
      in take copy_len src @ drop copy_len buf)"

lemma length_copy_into_zeroed [simp]: "length (copy_into_zeroed n src) = n"
  by (simp add: copy_into_zeroed_def Let_def)

lemma copy_into_zeroed_eq: "copy_into_zeroed n src = take n src @ replicate (n - length src) 0"
  by (cases "length src \<le> n") (simp_all add: copy_into_zeroed_def Let_def min_def)

lift_definition id_new :: "bytes \<Rightarrow> 'n::len byte_array" is
  "\<lambda>uuid_bytes. copy_into_zeroed LENGTH('n) uuid_bytes" by simp

lift_definition from_slice :: "bytes \<Rightarrow> 'n::len byte_array" is
  "\<lambda>src. copy_into_zeroed LENGTH('n) src" by simp

lift_definition id_default :: "'n::len byte_array" is "replicate LENGTH('n) 0" by simp

definition to_vec :: "'n::len byte_array \<Rightarrow> bytes" where
  "to_vec x = as_bytes x"

definition from_vec :: "bytes \<Rightarrow> 'n::len byte_array" where
  "from_vec v = from_slice v"

instantiation byte_array :: (len) equal
begin

definition equal_byte_array :: "'a byte_array \<Rightarrow> 'a byte_array \<Rightarrow> bool" where
  "equal_byte_array x y = (as_bytes x = as_bytes y)"

instance
  by standard (simp add: equal_byte_array_def as_bytes_inject)

end

section \<open>Text forms\<close>

definition hex_digit :: "nat \<Rightarrow> char" where
  "hex_digit n = ''0123456789abcdef'' ! n"

definition hex_byte :: "u8 \<Rightarrow> string" where
  "hex_byte b = [hex_digit (unat b div 16), hex_digit (unat b mod 16)]"

definition hex_encode :: "bytes \<Rightarrow> string" where
  "hex_encode bs = concat (map hex_byte bs)"

definition id_display :: "'n::len byte_array \<Rightarrow> string" where
  "id_display x = hex_encode (take 4 (as_bytes x))"

definition id_debug :: "string \<Rightarrow> 'n::len byte_array \<Rightarrow> string" where
  "id_debug name x = name @ ''('' @ hex_encode (take 4 (as_bytes x)) @ '')''"

section \<open>Byte round trips\<close>

lemma length_as_bytes [simp]: "length (as_bytes (x :: 'n::len byte_array)) = LENGTH('n)"
  using as_bytes[of x] by simp

lemma copy_into_zeroed_exact: "length bs = n \<Longrightarrow> copy_into_zeroed n bs = bs"
  by (simp add: copy_into_zeroed_def Let_def)

lemma as_bytes_from_vec: "as_bytes (from_vec v :: 'n::len byte_array) = copy_into_zeroed LENGTH('n) v"
  by (simp add: from_vec_def from_slice.rep_eq)

lemma from_vec_to_vec [simp]: "from_vec (to_vec x) = x"
  by (simp add: to_vec_def as_bytes_inject[symmetric] as_bytes_from_vec copy_into_zeroed_exact)

lemma to_vec_from_vec: "length v = LENGTH('n) \<Longrightarrow> to_vec (from_vec v :: 'n::len byte_array) = v"
  by (simp add: to_vec_def as_bytes_from_vec copy_into_zeroed_exact)

lemma to_vec_inject [simp]: "to_vec x = to_vec y \<longleftrightarrow> x = y"
  by (simp add: to_vec_def as_bytes_inject)

text \<open>Concrete identifiers: the one-byte prefix of an all-zero array.\<close>

lemma copy_into_zeroed_single_eq:
  "0 < n \<Longrightarrow> copy_into_zeroed n [a] = copy_into_zeroed n [b] \<longleftrightarrow> a = b"
  by (cases n) (simp_all add: copy_into_zeroed_def Let_def min_def)

lemma from_slice_single_eq [simp]:
  "(from_slice [a] :: 'n::len byte_array) = from_slice [b] \<longleftrightarrow> a = b"
  by (simp add: as_bytes_inject[symmetric] from_slice.rep_eq copy_into_zeroed_single_eq)

section \<open>Hexadecimal text determines the bytes\<close>

lemma hex_digit_inj: "m < 16 \<Longrightarrow> n < 16 \<Longrightarrow> hex_digit m = hex_digit n \<Longrightarrow> m = n"
proof -
  have d: "distinct ''0123456789abcdef''" by simp
  show "m < 16 \<Longrightarrow> n < 16 \<Longrightarrow> hex_digit m = hex_digit n \<Longrightarrow> m = n"
    unfolding hex_digit_def using nth_eq_iff_index_eq[OF d, of m n] by simp
qed

lemma hex_byte_inj: "hex_byte a = hex_byte b \<Longrightarrow> a = b"
proof -
  assume eq: "hex_byte a = hex_byte b"
  have "unat a < 256" "unat b < 256" using unsigned_less[of a] unsigned_less[of b] by simp_all
  then have "unat a div 16 < 16" "unat b div 16 < 16" by (simp_all add: less_mult_imp_div_less)
  with eq have "unat a div 16 = unat b div 16" "unat a mod 16 = unat b mod 16"
    by (auto simp: hex_byte_def intro: hex_digit_inj)
  then have "unat a = unat b" by (metis div_mult_mod_eq)
  then show ?thesis by (simp add: word_unat_eq_iff)
qed

lemma hex_encode_Cons: "hex_encode (b # bs) = hex_byte b @ hex_encode bs"
  by (simp add: hex_encode_def)

lemma length_hex_encode [simp]: "length (hex_encode bs) = 2 * length bs"
  by (induction bs) (auto simp: hex_encode_def hex_byte_def)

lemma hex_encode_inj: "hex_encode xs = hex_encode ys \<Longrightarrow> xs = ys"
proof (induction xs arbitrary: ys)
  case Nil
  then show ?case by (cases ys) (auto simp: hex_encode_def hex_byte_def)
next
  case (Cons x xs)
  then obtain y ys' where ys: "ys = y # ys'"
    by (cases ys) (auto simp: hex_encode_def hex_byte_def)
  with Cons.prems have "hex_byte x = hex_byte y" "hex_encode xs = hex_encode ys'"
    by (auto simp: hex_encode_Cons hex_byte_def)
  with Cons.IH ys show ?case by (simp add: hex_byte_inj)
qed

end
