(* ===== verification/Core_Types.thy ===== *)
theory Core_Types
  imports Core_Error Core_Id
begin

text \<open>
  The data of \<^verbatim>\<open>crates/ray-core/src/traits.rs\<close>: task and actor specifications, their statuses,
  and the records the GCS stores. Field names carry a prefix of their struct, since record
  fields share one name space.
\<close>

datatype TaskStatus =
  TS_Pending | TS_Scheduled | TS_Running | TS_Finished | TS_Failed | TS_Cancelled

datatype ActorState = AS_Pending | AS_Alive | AS_Restarting | AS_Dead

record TaskSpec =
  ts_task_id :: TaskId
  ts_job_id :: JobId
  ts_function_name :: string
  ts_function_payload :: bytes
  ts_return_ids :: "ObjectId list"
  ts_dependency_ids :: "ObjectId list"
  ts_required_resources :: Resources
  ts_max_retries :: i32

record ActorSpec =
  as_actor_id :: ActorId
  as_job_id :: JobId
  as_class_name :: string
  as_class_payload :: bytes
  as_constructor_args :: bytes
  as_required_resources :: Resources
  as_max_restarts :: i32

record NodeInfo =
  ni_node_id :: NodeId
  ni_address :: string
  ni_port :: i32
  ni_total_resources :: Resources
  ni_available_resources :: Resources
  ni_is_alive :: bool

record ActorInfo =
  ai_actor_id :: ActorId
  ai_job_id :: JobId
  ai_class_name :: string
  ai_state :: ActorState
  ai_node_id :: NodeId
  ai_num_restarts :: i32

record JobInfo =
  ji_job_id :: JobId
  ji_driver_ip :: string
  ji_start_time_ms :: i64
  ji_end_time_ms :: i64
  ji_is_dead :: bool
  ji_config :: "(string, string) hash_map"

record ResourceUsageInfo =
  ru_node_id :: NodeId
  ru_available :: Resources
  ru_total :: Resources
  ru_timestamp_ms :: i64

text \<open>A task for the examples: \<open>cpus\<close> CPUs and one return object.\<close>

definition cpu_task :: "u8 \<Rightarrow> nat \<Rightarrow> bytes \<Rightarrow> TaskSpec" where
  "cpu_task k cpus payload =
     \<lparr>ts_task_id = from_slice [k], ts_job_id = id_default, ts_function_name = ''f'',
      ts_function_payload = payload, ts_return_ids = [from_slice [k]], ts_dependency_ids = [],
      ts_required_resources = res_set resources_new ''CPU'' (f64_of_nat cpus), ts_max_retries = 0\<rparr>"

end
