(* ===== verification/Object_Store.thy ===== *)
theory Object_Store
  imports Core_Types
begin

text \<open>
  \<^verbatim>\<open>crates/ray-object-store/src/store.rs\<close>: the in-memory object store. A method that takes the
  lock once is one step. \<^verbatim>\<open>put\<close> takes it up to four times (size check, eviction, second
  check, insertion); its sections are separate definitions (\<open>put_check\<close>,
  \<open>evict_zero_ref_objects\<close>, \<open>put_insert\<close>), composed here without interference and
  interleaved in theory \<open>Object_Store_Conc\<close>. \<^verbatim>\<open>spill_to_disk\<close> and \<^verbatim>\<open>restore_from_disk\<close> use the
  file system, whose operations are an argument (\<open>fs_ops\<close>); instants are nanoseconds.
  \<^verbatim>\<open>ref_count += 1\<close> wraps at 32 bits, as in a release build.

  The locale \<open>object_store_api\<close> is the \<^verbatim>\<open>ObjectStore\<close> trait as its clients rely on it.
\<close>

record ObjectEntry =
  oe_object_id :: ObjectId
  oe_data :: bytes
  oe_create_time :: nat
  oe_ref_count :: u32
  oe_is_spilled :: bool
  oe_spill_url :: "string option"

record InMemoryObjectStore =
  os_objects :: "(ObjectId, ObjectEntry) hash_map"
  os_max_memory_bytes :: nat

section \<open>Synchronous operations\<close>

definition os_new :: "nat \<Rightarrow> InMemoryObjectStore" where
  "os_new max_memory_bytes = \<lparr>os_objects = [], os_max_memory_bytes = max_memory_bytes\<rparr>"

definition total_size :: "InMemoryObjectStore \<Rightarrow> nat" where
  "total_size s = sum_list (map (\<lambda>e. length (oe_data e)) (hm_values (os_objects s)))"

definition object_count :: "InMemoryObjectStore \<Rightarrow> nat" where
  "object_count s = length (os_objects s)"

definition evict_zero_ref_objects :: "InMemoryObjectStore \<Rightarrow> nat \<times> InMemoryObjectStore" where
  "evict_zero_ref_objects s =
     (let before = length (os_objects s);
          objects = hm_retain (\<lambda>_ entry. oe_ref_count entry > 0) (os_objects s)
      in (before - length objects, s\<lparr>os_objects := objects\<rparr>))"

definition get_entry :: "InMemoryObjectStore \<Rightarrow> ObjectId \<Rightarrow> ObjectEntry option" where
  "get_entry s object_id = hm_get (os_objects s) object_id"

definition add_reference :: "ObjectId \<Rightarrow> InMemoryObjectStore \<Rightarrow> InMemoryObjectStore" where
  "add_reference object_id s =
     s\<lparr>os_objects := hm_modify object_id (\<lambda>e. e\<lparr>oe_ref_count := oe_ref_count e + 1\<rparr>) (os_objects s)\<rparr>"

definition saturating_sub :: "u32 \<Rightarrow> u32 \<Rightarrow> u32" where
  "saturating_sub a b = (if a < b then 0 else a - b)"

definition remove_reference :: "ObjectId \<Rightarrow> InMemoryObjectStore \<Rightarrow> bool \<times> InMemoryObjectStore" where
  "remove_reference object_id s =
     (case hm_get (os_objects s) object_id of
        Some entry \<Rightarrow>
          (let entry' = entry\<lparr>oe_ref_count := saturating_sub (oe_ref_count entry) 1\<rparr>;
               objects = hm_insert object_id entry' (os_objects s)
           in if oe_ref_count entry' = 0
              then (True, s\<lparr>os_objects := hm_remove object_id objects\<rparr>)
              else (False, s\<lparr>os_objects := objects\<rparr>))
      | None \<Rightarrow> (False, s))"

section \<open>The ObjectStore trait\<close>

text \<open>The budget test, made under one read lock: true when the object does not fit.\<close>

definition put_check :: "InMemoryObjectStore \<Rightarrow> bytes \<Rightarrow> bool" where
  "put_check s data = (total_size s + length data > os_max_memory_bytes s)"

definition put_full_error :: "InMemoryObjectStore \<Rightarrow> bytes \<Rightarrow> RayError" where
  "put_full_error s data =
     InsufficientResources [Lit ''Object store full: '', Num (int (total_size s)), Lit '' + '',
       Num (int (length data)), Lit '' > '', Num (int (os_max_memory_bytes s)), Lit '' bytes'']"

definition put_insert :: "nat \<Rightarrow> ObjectId \<Rightarrow> bytes \<Rightarrow> InMemoryObjectStore \<Rightarrow> InMemoryObjectStore" where
  "put_insert now object_id data s =
     (let entry = \<lparr>oe_object_id = object_id, oe_data = data, oe_create_time = now, oe_ref_count = 1,
                   oe_is_spilled = False, oe_spill_url = None\<rparr>
      in s\<lparr>os_objects := hm_insert object_id entry (os_objects s)\<rparr>)"

definition os_put ::
  "nat \<Rightarrow> ObjectId \<Rightarrow> bytes \<Rightarrow> InMemoryObjectStore \<Rightarrow> unit RayResult \<times> InMemoryObjectStore" where
  "os_put now object_id data s =
     (if os_max_memory_bytes s > 0 \<and> put_check s data
      then (let s1 = snd (evict_zero_ref_objects s)
            in if put_check s1 data then (Inl (put_full_error s1 data), s1)
               else (Inr (), put_insert now object_id data s1))
      else (Inr (), put_insert now object_id data s))"

definition os_delete :: "ObjectId \<Rightarrow> InMemoryObjectStore \<Rightarrow> unit RayResult \<times> InMemoryObjectStore" where
  "os_delete object_id s = (Inr (), s\<lparr>os_objects := hm_remove object_id (os_objects s)\<rparr>)"

definition os_contains :: "ObjectId \<Rightarrow> InMemoryObjectStore \<Rightarrow> bool RayResult" where
  "os_contains object_id s = Inr (hm_contains (os_objects s) object_id)"

subsection \<open>Polling loops\<close>

text \<open>
  \<^verbatim>\<open>get\<close> and \<^verbatim>\<open>wait\<close> poll: \<open>stores i\<close> is the store the \<open>i\<close>-th poll reads and \<open>clock i\<close> the
  instant it then compares with the deadline; other tasks run during the sleep between two
  polls. Not returning is \<open>None\<close>.
\<close>

definition millis :: "u64 \<Rightarrow> nat" where
  "millis ms = unat ms * 1000000"

definition poll_sleeps :: "(nat \<Rightarrow> nat) \<Rightarrow> bool" where
  "poll_sleeps clock \<longleftrightarrow> (\<forall>i. clock i + millis 10 \<le> clock (Suc i))"

definition get_timeout_error :: "ObjectId \<Rightarrow> i64 \<Rightarrow> RayError" where
  "get_timeout_error object_id timeout_ms =
     Timeout [Lit ''Object '', Lit (id_debug ''ObjectId'' object_id), Lit '' not available after '',
       Num (sint timeout_ms), Lit ''ms'']"

partial_function (option) get_loop ::
  "(nat \<Rightarrow> InMemoryObjectStore) \<Rightarrow> (nat \<Rightarrow> nat) \<Rightarrow> ObjectId \<Rightarrow> i64 \<Rightarrow> nat \<Rightarrow> nat \<Rightarrow> bytes RayResult option"
where
  "get_loop stores clock object_id timeout_ms deadline i =
     (case hm_get (os_objects (stores i)) object_id of
        Some entry \<Rightarrow> Some (Inr (oe_data entry))
      | None \<Rightarrow>
          if deadline \<le> clock i then Some (Inl (get_timeout_error object_id timeout_ms))
          else get_loop stores clock object_id timeout_ms deadline (Suc i))"

definition os_get ::
  "(nat \<Rightarrow> InMemoryObjectStore) \<Rightarrow> (nat \<Rightarrow> nat) \<Rightarrow> nat \<Rightarrow> ObjectId \<Rightarrow> i64 \<Rightarrow> bytes RayResult option" where
  "os_get stores clock start object_id timeout_ms =
     get_loop stores clock object_id timeout_ms (start + millis timeout_ms) 0"

definition ready_flags :: "InMemoryObjectStore \<Rightarrow> ObjectId list \<Rightarrow> bool list" where
  "ready_flags s object_ids = map (hm_contains (os_objects s)) object_ids"

definition ready_count :: "bool list \<Rightarrow> i32" where
  "ready_count flags = word_of_nat (length (filter id flags))"

partial_function (option) wait_loop ::
  "(nat \<Rightarrow> InMemoryObjectStore) \<Rightarrow> (nat \<Rightarrow> nat) \<Rightarrow> ObjectId list \<Rightarrow> i32 \<Rightarrow> nat \<Rightarrow> nat \<Rightarrow> bool list RayResult option"
where
  "wait_loop stores clock object_ids num_ready deadline i =
     (let flags = ready_flags (stores i) object_ids
      in if sint num_ready \<le> sint (ready_count flags) \<or> deadline \<le> clock i then Some (Inr flags)
         else wait_loop stores clock object_ids num_ready deadline (Suc i))"

definition os_wait ::
  "(nat \<Rightarrow> InMemoryObjectStore) \<Rightarrow> (nat \<Rightarrow> nat) \<Rightarrow> nat \<Rightarrow> ObjectId list \<Rightarrow> i32 \<Rightarrow> i64 \<Rightarrow> bool list RayResult option"
where
  "os_wait stores clock start object_ids num_ready timeout_ms =
     wait_loop stores clock object_ids num_ready (start + millis timeout_ms) 0"

section \<open>Spilling\<close>

record 'fs fs_ops =
  fs_create_dir_all :: "string \<Rightarrow> 'fs \<Rightarrow> (string + unit) \<times> 'fs"
  fs_write :: "string \<Rightarrow> bytes \<Rightarrow> 'fs \<Rightarrow> (string + unit) \<times> 'fs"
  fs_read :: "string \<Rightarrow> 'fs \<Rightarrow> string + bytes"
  fs_remove_file :: "string \<Rightarrow> 'fs \<Rightarrow> (string + unit) \<times> 'fs"

definition path_join :: "string \<Rightarrow> string \<Rightarrow> string" where
  "path_join dir file =
     (if dir = [] then file
      else if last dir = CHR ''/'' then dir @ file
      else dir @ ''/'' @ file)"

definition spill_path :: "string \<Rightarrow> ObjectId \<Rightarrow> string" where
  "spill_path dir object_id = path_join dir (hex_encode (as_bytes object_id) @ ''.bin'')"

definition object_not_found :: "ObjectId \<Rightarrow> RayError" where
  "object_not_found object_id = ObjectNotFound [Lit (id_debug ''ObjectId'' object_id)]"

text \<open>The two locked sections of \<^verbatim>\<open>spill_to_disk\<close>, before and after the file is written.\<close>

definition spill_read :: "ObjectId \<Rightarrow> InMemoryObjectStore \<Rightarrow> bytes RayResult" where
  "spill_read object_id s =
     (case hm_get (os_objects s) object_id of
        Some entry \<Rightarrow> Inr (oe_data entry)
      | None \<Rightarrow> Inl (object_not_found object_id))"

definition spill_mark :: "ObjectId \<Rightarrow> string \<Rightarrow> InMemoryObjectStore \<Rightarrow> InMemoryObjectStore" where
  "spill_mark object_id path s =
     s\<lparr>os_objects := hm_modify object_id
         (\<lambda>e. e\<lparr>oe_is_spilled := True, oe_spill_url := Some path\<rparr>) (os_objects s)\<rparr>"

definition spill_to_disk ::
  "'fs fs_ops \<Rightarrow> ObjectId \<Rightarrow> string \<Rightarrow> InMemoryObjectStore \<times> 'fs
     \<Rightarrow> unit RayResult \<times> InMemoryObjectStore \<times> 'fs" where
  "spill_to_disk fs object_id dir st =
     (case st of (s, f) \<Rightarrow>
      (case spill_read object_id s of
         Inl e \<Rightarrow> (Inl e, s, f)
       | Inr data \<Rightarrow>
         (case fs_create_dir_all fs dir f of
            (Inl e, f1) \<Rightarrow> (Inl (Io [Lit e]), s, f1)
          | (Inr _, f1) \<Rightarrow>
            (case fs_write fs (spill_path dir object_id) data f1 of
               (Inl e, f2) \<Rightarrow> (Inl (Io [Lit e]), s, f2)
             | (Inr _, f2) \<Rightarrow> (Inr (), spill_mark object_id (spill_path dir object_id) s, f2)))))"

definition restore_path :: "ObjectId \<Rightarrow> InMemoryObjectStore \<Rightarrow> string RayResult" where
  "restore_path object_id s =
     (case hm_get (os_objects s) object_id of
        None \<Rightarrow> Inl (object_not_found object_id)
      | Some entry \<Rightarrow>
          (case oe_spill_url entry of
             Some url \<Rightarrow> Inr url
           | None \<Rightarrow> Inl (ObjectNotFound [Lit (id_debug ''ObjectId'' object_id), Lit '' not spilled''])))"

definition restore_store :: "ObjectId \<Rightarrow> bytes \<Rightarrow> InMemoryObjectStore \<Rightarrow> InMemoryObjectStore" where
  "restore_store object_id data s =
     s\<lparr>os_objects := hm_modify object_id
         (\<lambda>e. e\<lparr>oe_data := data, oe_is_spilled := False, oe_spill_url := None\<rparr>) (os_objects s)\<rparr>"

definition restore_from_disk ::
  "'fs fs_ops \<Rightarrow> ObjectId \<Rightarrow> InMemoryObjectStore \<times> 'fs \<Rightarrow> unit RayResult \<times> InMemoryObjectStore \<times> 'fs" where
  "restore_from_disk fs object_id st =
     (case st of (s, f) \<Rightarrow>
      (case restore_path object_id s of
         Inl e \<Rightarrow> (Inl e, s, f)
       | Inr path \<Rightarrow>
         (case fs_read fs path f of
            Inl e \<Rightarrow> (Inl (Io [Lit e]), s, f)
          | Inr data \<Rightarrow>
              (Inr (), restore_store object_id data s, snd (fs_remove_file fs path f)))))"

section \<open>Invariant\<close>

text \<open>Every entry is filed under its own identifier and is referenced.\<close>

definition os_inv :: "InMemoryObjectStore \<Rightarrow> bool" where
  "os_inv s = (hm_keyed oe_object_id (os_objects s) \<and> list_all (\<lambda>(_, e). oe_ref_count e > 0) (os_objects s))"

text \<open>The stored bytes fit the budget, if there is one.\<close>

definition os_within_budget :: "InMemoryObjectStore \<Rightarrow> bool" where
  "os_within_budget s = (os_max_memory_bytes s > 0 \<longrightarrow> total_size s \<le> os_max_memory_bytes s)"

text \<open>What a client sees: the bytes of each object.\<close>

definition os_view :: "InMemoryObjectStore \<Rightarrow> ObjectId \<rightharpoonup> bytes" where
  "os_view s = (\<lambda>oid. map_option oe_data (hm_get (os_objects s) oid))"

lemma os_invD:
  assumes "os_inv s"
  shows "hm_ok (os_objects s)" "hm_keyed oe_object_id (os_objects s)"
    "hm_get (os_objects s) k = Some e \<Longrightarrow> oe_ref_count e > 0"
    "hm_get (os_objects s) k = Some e \<Longrightarrow> oe_object_id e = k"
  using assms
  by (auto simp: os_inv_def list_all_iff hm_keyed_ok hm_mem_iff[symmetric] dest: hm_keyedD)

lemma os_invI:
  assumes "hm_keyed oe_object_id (os_objects s)"
    "\<And>k e. hm_get (os_objects s) k = Some e \<Longrightarrow> oe_ref_count e > 0"
  shows "os_inv s"
  using assms hm_keyed_ok[OF assms(1)] by (auto simp: os_inv_def list_all_iff hm_mem_iff)

lemma total_size_weight: "total_size s = hm_weight (\<lambda>e. length (oe_data e)) (os_objects s)"
  by (simp add: total_size_def hm_weight_def)

section \<open>Effect of each operation\<close>

lemma evict_noop: "os_inv s \<Longrightarrow> evict_zero_ref_objects s = (0, s)"
  using os_invD(1,3)[of s] hm_retain_id[of "os_objects s" "\<lambda>_ e. oe_ref_count e > 0"]
  by (simp add: evict_zero_ref_objects_def Let_def)

lemma evict_max [simp]: "os_max_memory_bytes (snd (evict_zero_ref_objects s)) = os_max_memory_bytes s"
  by (simp add: evict_zero_ref_objects_def Let_def)

lemma evict_size_le: "total_size (snd (evict_zero_ref_objects s)) \<le> total_size s"
  by (simp add: evict_zero_ref_objects_def Let_def total_size_weight hm_weight_retain_le)

lemma evict_ok: "hm_ok (os_objects s) \<Longrightarrow> hm_ok (os_objects (snd (evict_zero_ref_objects s)))"
  by (simp add: evict_zero_ref_objects_def Let_def)

lemma put_insert_simps [simp]:
  "os_max_memory_bytes (put_insert now oid data s) = os_max_memory_bytes s"
  "os_view (put_insert now oid data s) = (os_view s)(oid \<mapsto> data)"
  by (simp_all add: put_insert_def os_view_def fun_eq_iff)

lemma put_insert_size:
  "hm_ok (os_objects s) \<Longrightarrow> total_size (put_insert now oid data s) \<le> total_size s + length data"
  using hm_weight_remove_le[of "\<lambda>e. length (oe_data e)" oid "os_objects s"]
  by (simp add: total_size_weight put_insert_def hm_weight_insert)

lemma put_insert_inv [ray_inv]: "os_inv s \<Longrightarrow> os_inv (put_insert now oid data s)"
  by (rule os_invI)
    (auto simp: put_insert_def intro!: hm_keyed_insert dest: os_invD split: if_splits)

lemma os_put_inv_eq:
  "os_inv s \<Longrightarrow> os_put now oid data s =
     (if os_max_memory_bytes s > 0 \<and> put_check s data
      then (Inl (put_full_error s data), s) else (Inr (), put_insert now oid data s))"
  by (simp add: os_put_def evict_noop)

lemma os_put_inv [ray_inv]: "os_inv s \<Longrightarrow> os_inv (snd (os_put now oid data s))"
  by (simp add: os_put_inv_eq put_insert_inv)

lemma os_put_max [simp]: "os_max_memory_bytes (snd (os_put now oid data s)) = os_max_memory_bytes s"
  by (simp add: os_put_def Let_def)

lemma os_put_budget:
  assumes "hm_ok (os_objects s)" "os_within_budget s"
  shows "os_within_budget (snd (os_put now oid data s))"
proof (cases "os_max_memory_bytes s > 0")
  case True
  let ?s1 = "snd (evict_zero_ref_objects s)"
  have "total_size ?s1 \<le> os_max_memory_bytes s"
    using evict_size_le[of s] assms(2) True by (simp add: os_within_budget_def)
  moreover have "total_size (put_insert now oid data s) \<le> os_max_memory_bytes s"
    if "\<not> put_check s data"
    using that put_insert_size[OF assms(1), of now oid data] by (simp add: put_check_def)
  moreover have "total_size (put_insert now oid data ?s1) \<le> os_max_memory_bytes s"
    if "\<not> put_check ?s1 data"
    using that put_insert_size[OF evict_ok[OF assms(1)], of now oid data] by (simp add: put_check_def)
  ultimately show ?thesis
    using True by (auto simp: os_put_def Let_def os_within_budget_def)
qed (simp add: os_within_budget_def)

lemma os_delete_simps [simp]:
  "fst (os_delete oid s) = Inr ()"
  "os_view (snd (os_delete oid s)) = (os_view s)(oid := None)"
  "os_max_memory_bytes (snd (os_delete oid s)) = os_max_memory_bytes s"
  by (simp_all add: os_delete_def os_view_def fun_eq_iff)

lemma os_delete_inv [ray_inv]: "os_inv s \<Longrightarrow> os_inv (snd (os_delete oid s))"
  by (rule os_invI) (auto simp: os_delete_def intro!: hm_keyed_remove dest: os_invD split: if_splits)

lemma os_delete_size: "total_size (snd (os_delete oid s)) \<le> total_size s"
  by (simp add: total_size_weight os_delete_def hm_weight_remove_le)

lemma os_contains_view: "os_contains oid s = Inr (os_view s oid \<noteq> None)"
  by (simp add: os_contains_def os_view_def)

lemma add_reference_view [simp]: "os_view (add_reference oid s) = os_view s"
  by (auto simp: add_reference_def os_view_def fun_eq_iff option.map_comp comp_def)

lemma add_reference_inv [ray_inv]:
  assumes "os_inv s" "\<And>e. get_entry s oid = Some e \<Longrightarrow> oe_ref_count e + 1 \<noteq> 0"
  shows "os_inv (add_reference oid s)"
  by (rule os_invI)
    (use assms in \<open>auto simp: add_reference_def get_entry_def word_neq_0_conv[symmetric]
        intro!: hm_keyed_modify dest: os_invD split: if_splits\<close>)

lemma saturating_sub_1: "saturating_sub a 1 = (if a \<le> 1 then 0 else a - 1)"
proof (cases "a = 0 \<or> a = 1")
  case False
  then have "\<not> a < 1" "\<not> a \<le> 1" by (auto simp: order_le_less)
  then show ?thesis by (simp add: saturating_sub_def)
qed (auto simp: saturating_sub_def)

lemma word_minus_1_pos: "\<not> a \<le> 1 \<Longrightarrow> 0 < a - 1" for a :: u32
  by (metis eq_iff_diff_eq_0 order_refl word_neq_0_conv)

lemma remove_reference_Some:
  assumes "hm_get (os_objects s) oid = Some e"
  shows "remove_reference oid s =
     (if oe_ref_count e \<le> 1 then (True, s\<lparr>os_objects := hm_remove oid (os_objects s)\<rparr>)
      else (False, s\<lparr>os_objects :=
              hm_insert oid (e\<lparr>oe_ref_count := oe_ref_count e - 1\<rparr>) (os_objects s)\<rparr>))"
  using assms word_minus_1_pos[of "oe_ref_count e"]
  by (simp add: remove_reference_def Let_def saturating_sub_1)

lemma remove_reference_None:
  "hm_get (os_objects s) oid = None \<Longrightarrow> remove_reference oid s = (False, s)"
  by (simp add: remove_reference_def)

lemma remove_reference_inv [ray_inv]:
  assumes "os_inv s"
  shows "os_inv (snd (remove_reference oid s))"
proof (cases "hm_get (os_objects s) oid")
  case None
  with assms show ?thesis by (simp add: remove_reference_None)
next
  case (Some e)
  show ?thesis
  proof (cases "oe_ref_count e \<le> 1")
    case True
    then show ?thesis
      using os_delete_inv[OF assms, of oid] by (simp add: remove_reference_Some[OF Some] os_delete_def)
  next
    case False
    then show ?thesis
      using assms Some word_minus_1_pos[OF False]
      by (intro os_invI)
        (auto simp: remove_reference_Some[OF Some] intro!: hm_keyed_insert dest: os_invD split: if_splits)
  qed
qed

lemma remove_reference_size: "total_size (snd (remove_reference oid s)) \<le> total_size s"
  if "hm_ok (os_objects s)"
proof (cases "hm_get (os_objects s) oid")
  case (Some e)
  then show ?thesis
    using that hm_weight_remove[OF that Some, of "\<lambda>e. length (oe_data e)"]
    by (auto simp: remove_reference_Some[OF Some] total_size_weight hm_weight_insert)
qed (simp add: remove_reference_None)

lemma remove_reference_max [simp]:
  "os_max_memory_bytes (snd (remove_reference oid s)) = os_max_memory_bytes s"
  by (simp add: remove_reference_def Let_def split: option.splits)

text \<open>An update of one entry that keeps the length of its data keeps the total size.\<close>

lemma hm_modify_size:
  assumes "hm_ok (os_objects s)"
    and "\<And>e. hm_get (os_objects s) oid = Some e \<Longrightarrow> length (oe_data (f e)) = length (oe_data e)"
  shows "total_size (s\<lparr>os_objects := hm_modify oid f (os_objects s)\<rparr>) = total_size s"
proof (cases "hm_get (os_objects s) oid")
  case (Some e)
  then show ?thesis
    using assms hm_weight_remove[OF assms(1) Some, of "\<lambda>e. length (oe_data e)"]
    by (simp add: total_size_weight hm_modify_def hm_weight_insert)
qed (simp add: hm_modify_def total_size_weight)

lemma modify_entry_inv:
  assumes "os_inv s" "\<And>e. oe_object_id (f e) = oe_object_id e"
    and "\<And>e. hm_get (os_objects s) oid = Some e \<Longrightarrow> oe_ref_count (f e) > 0"
  shows "os_inv (s\<lparr>os_objects := hm_modify oid f (os_objects s)\<rparr>)"
  using assms by (intro os_invI) (auto intro!: hm_keyed_modify dest: os_invD split: if_splits)

lemma add_reference_size: "hm_ok (os_objects s) \<Longrightarrow> total_size (add_reference oid s) = total_size s"
  unfolding add_reference_def by (rule hm_modify_size) simp_all

lemma spill_mark_size: "hm_ok (os_objects s) \<Longrightarrow> total_size (spill_mark oid p s) = total_size s"
  unfolding spill_mark_def by (rule hm_modify_size) simp_all

lemma spill_mark_inv [ray_inv]: "os_inv s \<Longrightarrow> os_inv (spill_mark oid p s)"
  unfolding spill_mark_def by (rule modify_entry_inv) (auto dest: os_invD)

lemma spill_mark_view [simp]: "os_view (spill_mark oid p s) = os_view s"
  by (auto simp: spill_mark_def os_view_def fun_eq_iff option.map_comp comp_def)

lemma restore_store_inv [ray_inv]: "os_inv s \<Longrightarrow> os_inv (restore_store oid data s)"
  unfolding restore_store_def by (rule modify_entry_inv) (auto dest: os_invD)

lemma restore_store_size:
  "hm_ok (os_objects s) \<Longrightarrow> (\<And>e. get_entry s oid = Some e \<Longrightarrow> length data = length (oe_data e)) \<Longrightarrow>
   total_size (restore_store oid data s) = total_size s"
  unfolding restore_store_def get_entry_def by (rule hm_modify_size) simp_all

lemma max_memory_simps [simp]:
  "os_max_memory_bytes (add_reference oid s) = os_max_memory_bytes s"
  "os_max_memory_bytes (spill_mark oid p s) = os_max_memory_bytes s"
  "os_max_memory_bytes (restore_store oid data s) = os_max_memory_bytes s"
  by (simp_all add: add_reference_def spill_mark_def restore_store_def)

section \<open>The trait's contract\<close>

locale object_store_api =
  fixes inv :: "'s \<Rightarrow> bool"
    and view :: "'s \<Rightarrow> 'k \<rightharpoonup> 'd"
    and put :: "nat \<Rightarrow> 'k \<Rightarrow> 'd \<Rightarrow> 's \<Rightarrow> unit RayResult \<times> 's"
    and delete :: "'k \<Rightarrow> 's \<Rightarrow> unit RayResult \<times> 's"
    and contains :: "'k \<Rightarrow> 's \<Rightarrow> bool RayResult"
  assumes inv_put: "inv s \<Longrightarrow> inv (snd (put t k d s))"
    and put_ok: "inv s \<Longrightarrow> put t k d s = (Inr (), s') \<Longrightarrow> view s' = (view s)(k \<mapsto> d)"
    and put_err: "inv s \<Longrightarrow> put t k d s = (Inl e, s') \<Longrightarrow> view s' = view s"
    and inv_delete: "inv s \<Longrightarrow> inv (snd (delete k s))"
    and view_delete: "inv s \<Longrightarrow> view (snd (delete k s)) = (view s)(k := None)"
    and contains_view: "contains k s = Inr (view s k \<noteq> None)"
begin

lemma view_put:
  "inv s \<Longrightarrow> view (snd (put t k d s)) = (if is_ok (fst (put t k d s)) then (view s)(k \<mapsto> d) else view s)"
  by (cases "put t k d s") (auto simp: is_ok_def dest: put_ok put_err split: sum.splits)

lemma view_put_other: "inv s \<Longrightarrow> k' \<noteq> k \<Longrightarrow> view (snd (put t k d s)) k' = view s k'"
  by (simp add: view_put)

lemma put_keeps: "inv s \<Longrightarrow> view s k' \<noteq> None \<Longrightarrow> view (snd (put t k d s)) k' \<noteq> None"
  by (simp add: view_put)

lemma contains_put: "inv s \<Longrightarrow> is_ok (fst (put t k d s)) \<Longrightarrow> contains k (snd (put t k d s)) = Inr True"
  by (simp add: contains_view view_put)

lemma contains_delete: "inv s \<Longrightarrow> contains k (snd (delete k s)) = Inr False"
  by (simp add: contains_view view_delete)

end

interpretation os: object_store_api os_inv os_view os_put os_delete os_contains
  by unfold_locales
    (auto simp: os_put_inv_eq os_contains_view intro: put_insert_inv os_delete_inv split: if_splits)

section \<open>Reachable stores\<close>

text \<open>
  The stores the operations lead to, from an empty one. A reference count below \<open>2 ^ 32 - 1\<close>
  can be incremented without wrapping; a restored file has the length of the entry it was
  spilled from.
\<close>

inductive os_reachable :: "nat \<Rightarrow> InMemoryObjectStore \<Rightarrow> bool" for cap where
  start: "os_reachable cap (os_new cap)"
| put: "os_reachable cap s \<Longrightarrow> os_reachable cap (snd (os_put now oid data s))"
| delete: "os_reachable cap s \<Longrightarrow> os_reachable cap (snd (os_delete oid s))"
| evict: "os_reachable cap s \<Longrightarrow> os_reachable cap (snd (evict_zero_ref_objects s))"
| add_ref: "os_reachable cap s \<Longrightarrow> (\<And>e. get_entry s oid = Some e \<Longrightarrow> oe_ref_count e + 1 \<noteq> 0) \<Longrightarrow>
    os_reachable cap (add_reference oid s)"
| remove_ref: "os_reachable cap s \<Longrightarrow> os_reachable cap (snd (remove_reference oid s))"
| spill: "os_reachable cap s \<Longrightarrow> os_reachable cap (spill_mark oid path s)"
| restore: "os_reachable cap s \<Longrightarrow> (\<And>e. get_entry s oid = Some e \<Longrightarrow> length data = length (oe_data e)) \<Longrightarrow>
    os_reachable cap (restore_store oid data s)"

lemma os_reachable_inv:
  "os_reachable cap s \<Longrightarrow> os_inv s \<and> os_within_budget s \<and> os_max_memory_bytes s = cap"
proof (induction rule: os_reachable.induct)
  case start
  show ?case by (simp add: os_new_def os_inv_def os_within_budget_def total_size_def hm_values_def)
next
  case (put s now oid data)
  then show ?case using os_invD(1)[of s] by (simp add: os_put_inv os_put_budget)
next
  case (delete s oid)
  then show ?case
    using os_delete_size[of oid s] by (auto simp: os_delete_inv os_within_budget_def)
next
  case (evict s)
  then show ?case by (simp add: evict_noop)
next
  case (add_ref s oid)
  then show ?case
    using os_invD(1)[of s] by (auto simp: add_reference_inv os_within_budget_def add_reference_size)
next
  case (remove_ref s oid)
  then show ?case
    using remove_reference_size[OF os_invD(1), of s oid]
    by (auto simp: remove_reference_inv os_within_budget_def)
next
  case (spill s oid path)
  then show ?case
    using os_invD(1)[of s] by (auto simp: spill_mark_inv os_within_budget_def spill_mark_size)
next
  case (restore s oid data)
  then show ?case
    using os_invD(1)[of s] restore_store_size[of s oid data]
    by (auto simp: restore_store_inv os_within_budget_def)
qed

section \<open>Polling\<close>

lemma millis_10: "millis 10 = 10000000"
  by (simp add: millis_def)

lemma poll_clock: "poll_sleeps clock \<Longrightarrow> clock 0 + i * millis 10 \<le> clock i"
proof (induction i)
  case (Suc i)
  then have "clock i + millis 10 \<le> clock (Suc i)" by (simp add: poll_sleeps_def)
  with Suc show ?case by simp
qed simp

text \<open>A poll loop stops: the first poll at which the answer is ready or the deadline has passed.\<close>

lemma poll_first_stop:
  assumes "poll_sleeps clock" "start \<le> clock 0"
  obtains i where "i \<le> unat ms div 10 + 1" "ready i \<or> start + millis ms \<le> clock i"
    "\<And>j. j < i \<Longrightarrow> \<not> ready j \<and> clock j < start + millis ms"
proof -
  let ?stop = "\<lambda>i. ready i \<or> start + millis ms \<le> clock i"
  define i where "i = (LEAST i. ?stop i)"
  have "clock (start + millis ms) \<ge> start + millis ms"
    using poll_clock[OF assms(1), of "start + millis ms"] by (simp add: millis_10)
  then have stop: "?stop i" unfolding i_def by (intro LeastI[of ?stop "start + millis ms"]) simp
  have before: "\<not> ready j \<and> clock j < start + millis ms" if "j < i" for j
    using not_less_Least[of j ?stop] that by (auto simp: i_def not_le)
  have "i \<le> unat ms div 10 + 1"
  proof (cases i)
    case (Suc j)
    then have "clock j < start + millis ms" using before by simp
    with poll_clock[OF assms(1), of j] assms(2) have "j * 10 < unat ms"
      by (simp add: millis_def)
    then show ?thesis using Suc by simp
  qed simp
  with stop before show thesis using that by blast
qed

lemma get_loop_skip:
  "(\<And>j. j < i \<Longrightarrow> get_entry (stores j) oid = None \<and> clock j < deadline) \<Longrightarrow>
   get_loop stores clock oid ms deadline 0 = get_loop stores clock oid ms deadline i"
proof (induction i)
  case (Suc i)
  then have "get_loop stores clock oid ms deadline 0 = get_loop stores clock oid ms deadline i"
    and "get_entry (stores i) oid = None" "clock i < deadline"
    by simp_all
  then show ?case
    by (simp add: get_loop.simps[of stores clock oid ms deadline i] get_entry_def)
qed simp

lemma wait_loop_skip:
  "(\<And>j. j < i \<Longrightarrow> \<not> sint num \<le> sint (ready_count (ready_flags (stores j) oids)) \<and> clock j < deadline) \<Longrightarrow>
   wait_loop stores clock oids num deadline 0 = wait_loop stores clock oids num deadline i"
proof (induction i)
  case (Suc i)
  then have "wait_loop stores clock oids num deadline 0 = wait_loop stores clock oids num deadline i"
    and "\<not> sint num \<le> sint (ready_count (ready_flags (stores i) oids))" "clock i < deadline"
    by simp_all
  then show ?case
    by (simp add: wait_loop.simps[of stores clock oids num deadline i] Let_def)
qed simp

lemma os_get_at:
  assumes "\<And>j. j < i \<Longrightarrow> get_entry (stores j) oid = None \<and> clock j < start + millis ms"
    and "get_entry (stores i) oid \<noteq> None \<or> start + millis ms \<le> clock i"
  shows "os_get stores clock start oid ms =
    Some (case get_entry (stores i) oid of Some e \<Rightarrow> Inr (oe_data e) | None \<Rightarrow> Inl (get_timeout_error oid ms))"
proof -
  have "os_get stores clock start oid ms = get_loop stores clock oid ms (start + millis ms) i"
    unfolding os_get_def by (rule get_loop_skip) (use assms(1) in simp)
  with assms(2) show ?thesis
    by (subst (asm) get_loop.simps) (auto simp: get_entry_def split: option.splits)
qed

lemma os_wait_at:
  assumes "\<And>j. j < i \<Longrightarrow> \<not> sint num \<le> sint (ready_count (ready_flags (stores j) oids)) \<and> clock j < start + millis ms"
    and "sint num \<le> sint (ready_count (ready_flags (stores i) oids)) \<or> start + millis ms \<le> clock i"
  shows "os_wait stores clock start oids num ms = Some (Inr (ready_flags (stores i) oids))"
proof -
  have "os_wait stores clock start oids num ms = wait_loop stores clock oids num (start + millis ms) i"
    unfolding os_wait_def by (rule wait_loop_skip) (use assms(1) in blast)
  with assms(2) show ?thesis by (subst (asm) wait_loop.simps) (auto simp: Let_def)
qed

text \<open>The poll that answers: the first one that finds the object, or the first one after the deadline.\<close>

lemma os_get_polls:
  assumes "poll_sleeps clock" "start \<le> clock 0"
  obtains i where "\<And>j. j < i \<Longrightarrow> os_view (stores j) oid = None \<and> clock j < start + millis ms"
    "os_view (stores i) oid = None \<Longrightarrow> start + millis ms \<le> clock i"
    "os_get stores clock start oid ms =
       Some (case os_view (stores i) oid of Some data \<Rightarrow> Inr data | None \<Rightarrow> Inl (get_timeout_error oid ms))"
proof -
  have view: "os_view st oid = map_option oe_data (get_entry st oid)" for st by (simp add: os_view_def get_entry_def)
  obtain i where i: "get_entry (stores i) oid \<noteq> None \<or> start + millis ms \<le> clock i"
      "\<And>j. j < i \<Longrightarrow> \<not> get_entry (stores j) oid \<noteq> None \<and> clock j < start + millis ms"
    using poll_first_stop[OF assms, of ms "\<lambda>i. get_entry (stores i) oid \<noteq> None"] by blast
  then have "os_get stores clock start oid ms =
      Some (case get_entry (stores i) oid of Some e \<Rightarrow> Inr (oe_data e) | None \<Rightarrow> Inl (get_timeout_error oid ms))"
    by (intro os_get_at[where i = i]) auto
  with i that[of i] show thesis by (auto simp: view split: option.splits)
qed

text \<open>Polling a store nobody changes, and one in which nothing but the awaited bytes appears.\<close>

lemma os_get_still:
  assumes "poll_sleeps clock" "start \<le> clock 0"
  shows "os_get (\<lambda>_. st) clock start oid ms =
    Some (case os_view st oid of Some data \<Rightarrow> Inr data | None \<Rightarrow> Inl (get_timeout_error oid ms))"
  using os_get_polls[OF assms, where stores = "\<lambda>_. st"] by metis

lemma os_get_awaited:
  assumes "poll_sleeps clock" "start \<le> clock 0" "\<And>i. os_view (stores i) oid \<in> {None, awaited}"
  shows "os_get stores clock start oid ms = Some (Inl (get_timeout_error oid ms))
      \<or> (\<exists>data. awaited = Some data \<and> os_get stores clock start oid ms = Some (Inr data))"
    and "os_view (stores k) oid = Some data \<Longrightarrow> clock k \<le> start + millis ms \<Longrightarrow>
      os_get stores clock start oid ms = Some (Inr data)"
proof -
  obtain i where i: "\<And>j. j < i \<Longrightarrow> os_view (stores j) oid = None \<and> clock j < start + millis ms"
    "os_view (stores i) oid = None \<Longrightarrow> start + millis ms \<le> clock i"
    "os_get stores clock start oid ms =
       Some (case os_view (stores i) oid of Some data \<Rightarrow> Inr data | None \<Rightarrow> Inl (get_timeout_error oid ms))"
    using os_get_polls[OF assms(1,2)] by blast
  show "os_get stores clock start oid ms = Some (Inl (get_timeout_error oid ms))
      \<or> (\<exists>data. awaited = Some data \<and> os_get stores clock start oid ms = Some (Inr data))"
    using i(3) assms(3)[of i] by (auto split: option.splits)
  assume k: "os_view (stores k) oid = Some data" "clock k \<le> start + millis ms"
  have mono: "strict_mono clock"
    using assms(1) unfolding strict_mono_Suc_iff poll_sleeps_def by (metis less_add_same_cancel1 millis_10 order_less_le_trans zero_less_numeral)
  have "i \<le> k" using i(1)[of k] k(1) by (metis not_le option.distinct(1))
  then have "os_view (stores i) oid = awaited"
    using i(2) k assms(3)[of i] assms(3)[of k] strict_monoD[OF mono, of i k] by (cases "i = k") auto
  then show "os_get stores clock start oid ms = Some (Inr data)"
    using i(3) k(1) assms(3)[of k] by (metis empty_iff insert_iff option.simps(3,5))
qed

lemma os_wait_still:
  assumes "poll_sleeps clock" "start \<le> clock 0"
  shows "os_wait (\<lambda>_. st) clock start oids num ms = Some (Inr (map (\<lambda>oid. oid \<in> dom (os_view st)) oids))"
proof -
  let ?ready = "sint num \<le> sint (ready_count (ready_flags st oids))"
  obtain i where "?ready \<or> start + millis ms \<le> clock i"
      "\<And>j. j < i \<Longrightarrow> \<not> ?ready \<and> clock j < start + millis ms"
    using poll_first_stop[OF assms, of ms "\<lambda>_. ?ready"] by blast
  then have "os_wait (\<lambda>_. st) clock start oids num ms = Some (Inr (ready_flags st oids))"
    by (intro os_wait_at[where i = i]) auto
  then show ?thesis by (auto simp: ready_flags_def os_view_def)
qed

section \<open>Reference counts\<close>

lemma add_references_entry:
  "get_entry s oid = Some e \<Longrightarrow>
   get_entry ((add_reference oid ^^ n) s) oid = Some (e\<lparr>oe_ref_count := oe_ref_count e + word_of_nat n\<rparr>)"
proof (induction n)
  case (Suc n)
  then show ?case by (simp add: get_entry_def add_reference_def algebra_simps)
qed (simp add: get_entry_def)

lemma remove_references_entry:
  "get_entry s oid = Some e \<Longrightarrow> n < unat (oe_ref_count e) \<Longrightarrow>
   get_entry (((\<lambda>s. snd (remove_reference oid s)) ^^ n) s) oid
     = Some (e\<lparr>oe_ref_count := oe_ref_count e - word_of_nat n\<rparr>)"
proof (induction n)
  case (Suc n)
  let ?s = "((\<lambda>s. snd (remove_reference oid s)) ^^ n) s"
  let ?w = "oe_ref_count e - word_of_nat n"
  have n: "n < 4294967296" using Suc.prems(2) u32_bound[of "oe_ref_count e"] by linarith
  have "unat ?w = unat (oe_ref_count e) - n"
    using Suc.prems n
    by (subst unat_sub) (auto simp: word_le_nat_alt unat_of_nat take_bit_nat_eq_self)
  then have big: "\<not> ?w \<le> 1" using Suc.prems(2) by (simp add: word_le_nat_alt)
  have "hm_get (os_objects ?s) oid = Some (e\<lparr>oe_ref_count := ?w\<rparr>)"
    using Suc by (simp add: get_entry_def)
  from remove_reference_Some[OF this] big show ?case
    by (simp add: get_entry_def algebra_simps)
qed simp

section \<open>Properties\<close>

text \<open>
  C14. Refinement: the store implements a finite map from object identifiers to bytes. In any
  consistent store \<^verbatim>\<open>put\<close> fails exactly when there is a budget that the stored bytes and the
  new object exceed; a failed \<^verbatim>\<open>put\<close> changes nothing, a successful one updates the map at
  that identifier only, and consistency is kept.
\<close>

theorem put_refines_map_update:
  assumes "os_inv s"
  shows "os_inv (snd (os_put now oid data s))
    \<and> is_ok (fst (os_put now oid data s)) =
        (os_max_memory_bytes s = 0 \<or> total_size s + length data \<le> os_max_memory_bytes s)
    \<and> os_view (snd (os_put now oid data s)) =
        (if is_ok (fst (os_put now oid data s)) then (os_view s)(oid \<mapsto> data) else os_view s)"
  using assms os.view_put[OF assms, of now oid data] os.inv_put[OF assms]
  by (auto simp: os_put_inv_eq put_check_def)

theorem put_refines_map_update_witness:
  "os_view (snd (os_put 0 (from_slice [1]) [7, 8] (os_new 10))) (from_slice [1]) = Some [7, 8]"
proof -
  have "os_inv (os_new 10)" by (simp add: os_new_def os_inv_def)
  from put_refines_map_update[OF this, of 0 "from_slice [1]" "[7, 8]"] show ?thesis
    by (simp add: os_new_def total_size_def hm_values_def)
qed



text \<open>
  C22. \<^verbatim>\<open>get\<close> returns: whatever the other tasks do to the store, if each sleep lasts its 10 ms
  the loop stops after at most \<open>timeout / 10 + 1\<close> further polls, with the bytes of the object
  at the first poll that finds it, and with the timeout error only when no poll found
  it and the deadline has passed. The timeout is read as an unsigned number, so a
  negative one waits.
\<close>

theorem os_get_returns:
  assumes "poll_sleeps clock" "start \<le> clock 0"
  shows "\<exists>i \<le> unat timeout_ms div 10 + 1.
     (\<forall>j < i. get_entry (stores j) oid = None \<and> clock j < start + millis timeout_ms)
   \<and> (get_entry (stores i) oid = None \<longrightarrow> start + millis timeout_ms \<le> clock i)
   \<and> os_get stores clock start oid timeout_ms =
       Some (case get_entry (stores i) oid of
               Some e \<Rightarrow> Inr (oe_data e) | None \<Rightarrow> Inl (get_timeout_error oid timeout_ms))"
proof -
  define ready where "ready i = (get_entry (stores i) oid \<noteq> None)" for i
  obtain i where i: "i \<le> unat timeout_ms div 10 + 1" "ready i \<or> start + millis timeout_ms \<le> clock i"
      "\<And>j. j < i \<Longrightarrow> \<not> ready j \<and> clock j < start + millis timeout_ms"
    using poll_first_stop[OF assms, of timeout_ms ready] by blast
  have r: "os_get stores clock start oid timeout_ms = Some (case get_entry (stores i) oid of
               Some e \<Rightarrow> Inr (oe_data e) | None \<Rightarrow> Inl (get_timeout_error oid timeout_ms))"
    by (rule os_get_at) (use i in \<open>auto simp: ready_def\<close>)
  show ?thesis by (rule exI[of _ i], intro conjI) (use i r in \<open>auto simp: ready_def\<close>)
qed

theorem os_get_returns_witness:
  "os_get (\<lambda>_. put_insert 0 (from_slice [1]) [7] (os_new 0)) (\<lambda>i. i * 10000000) 0 (from_slice [1]) 100
     = Some (Inr [7])"
proof -
  have sleeps: "poll_sleeps (\<lambda>i. i * 10000000)" by (simp add: poll_sleeps_def millis_10)
  have e: "get_entry (put_insert 0 (from_slice [1]) [7] (os_new 0)) (from_slice [1])
      = Some \<lparr>oe_object_id = from_slice [1], oe_data = [7], oe_create_time = 0, oe_ref_count = 1,
              oe_is_spilled = False, oe_spill_url = None\<rparr>"
    by (simp add: get_entry_def put_insert_def os_new_def)
  let ?s = "put_insert 0 (from_slice [1]) [7] (os_new 0)"
  have r: "os_get (\<lambda>_. ?s) (\<lambda>i. i * 10000000) 0 (from_slice [1]) 100 =
       Some (case get_entry ?s (from_slice [1]) of
               Some e \<Rightarrow> Inr (oe_data e) | None \<Rightarrow> Inl (get_timeout_error (from_slice [1]) 100))"
    using os_get_returns[OF sleeps, of 0 100 "\<lambda>_. ?s" "from_slice [1]"] by blast
  show ?thesis unfolding r e by simp
qed



text \<open>
  C24. Reference counting: an object just put survives as many removals as references were
  added, with its count back at one, and the next removal evicts it.
\<close>

theorem reference_counting:
  assumes "os_inv s" "is_ok (fst (os_put now oid data s))" "n < 2 ^ 32 - 1"
  shows "let s1 = (add_reference oid ^^ n) (snd (os_put now oid data s));
             s2 = ((\<lambda>s. snd (remove_reference oid s)) ^^ n) s1
         in map_option oe_ref_count (get_entry s2 oid) = Some 1
          \<and> fst (remove_reference oid s2)
          \<and> get_entry (snd (remove_reference oid s2)) oid = None"
proof -
  let ?e = "\<lparr>oe_object_id = oid, oe_data = data, oe_create_time = now, oe_ref_count = 1,
             oe_is_spilled = False, oe_spill_url = None\<rparr>"
  have "snd (os_put now oid data s) = put_insert now oid data s"
    using assms(1,2) by (auto simp: os_put_inv_eq split: if_splits)
  then have e: "get_entry (snd (os_put now oid data s)) oid = Some ?e"
    by (simp add: put_insert_def get_entry_def)
  note e1 = add_references_entry[OF e, of n]
  have "n < unat ((1::u32) + word_of_nat n)"
    using assms(3) by (simp add: unat_word_ariths unat_of_nat take_bit_nat_eq_self)
  from remove_references_entry[OF e1, of n] this
  have e2: "get_entry (((\<lambda>s. snd (remove_reference oid s)) ^^ n)
        ((add_reference oid ^^ n) (snd (os_put now oid data s)))) oid = Some ?e"
    by simp
  show ?thesis
    using remove_reference_Some[OF e2[unfolded get_entry_def]] e2
    by (simp add: Let_def get_entry_def)
qed

theorem reference_counting_witness:
  "fst (remove_reference (from_slice [1]) (((\<lambda>s. snd (remove_reference (from_slice [1]) s)) ^^ 2)
     ((add_reference (from_slice [1]) ^^ 2) (snd (os_put 0 (from_slice [1]) [7] (os_new 0))))))"
proof -
  have "os_inv (os_new 0)" "is_ok (fst (os_put 0 (from_slice [1]) [7] (os_new 0)))"
    by (simp_all add: os_new_def os_inv_def os_put_def)
  from reference_counting[OF this, of 2] show ?thesis by (simp add: Let_def)
qed

end
