(* ===== verification/Object_Store_Conc.thy ===== *)
theory Object_Store_Conc
  imports Object_Store
begin

text \<open>
  The object store under interleaving. \<^verbatim>\<open>put\<close> releases the lock between its size check and its
  insertion, and \<^verbatim>\<open>spill_to_disk\<close> between reading the bytes and marking the entry; other tasks
  can run in between. A \<^verbatim>\<open>put\<close> call in progress is a \<open>put_call\<close> with a program counter, one
  value per lock section; \<open>put_schedule\<close> runs a list of calls in a given order of turns.

  Shown: a call that runs alone computes \<open>os_put\<close>; spilling and restoring is a round trip;
  and the two interferences the lock sections allow (an exceeded budget, a lost \<^verbatim>\<open>put\<close>).
\<close>

datatype put_pc = PutStart | PutEvict | PutRecheck | PutInsert | PutDone "unit RayResult"

record put_call =
  pc_now :: nat
  pc_object_id :: ObjectId
  pc_data :: bytes
  pc_at :: put_pc

definition put_begin :: "nat \<Rightarrow> ObjectId \<Rightarrow> bytes \<Rightarrow> put_call" where
  "put_begin now oid data = \<lparr>pc_now = now, pc_object_id = oid, pc_data = data, pc_at = PutStart\<rparr>"

definition put_step :: "put_call \<times> InMemoryObjectStore \<Rightarrow> put_call \<times> InMemoryObjectStore" where
  "put_step cs =
     (case cs of (c, s) \<Rightarrow>
      (case pc_at c of
         PutStart \<Rightarrow>
           (c\<lparr>pc_at := (if os_max_memory_bytes s > 0 \<and> put_check s (pc_data c)
                      then PutEvict else PutInsert)\<rparr>, s)
       | PutEvict \<Rightarrow> (c\<lparr>pc_at := PutRecheck\<rparr>, snd (evict_zero_ref_objects s))
       | PutRecheck \<Rightarrow>
           (c\<lparr>pc_at := (if put_check s (pc_data c) then PutDone (Inl (put_full_error s (pc_data c)))
                      else PutInsert)\<rparr>, s)
       | PutInsert \<Rightarrow>
           (c\<lparr>pc_at := PutDone (Inr ())\<rparr>, put_insert (pc_now c) (pc_object_id c) (pc_data c) s)
       | PutDone r \<Rightarrow> (c, s)))"

text \<open>One turn of the call with index \<open>i\<close>; turns of absent calls do nothing.\<close>

definition put_turn :: "nat \<Rightarrow> put_call list \<times> InMemoryObjectStore \<Rightarrow> put_call list \<times> InMemoryObjectStore" where
  "put_turn i cs =
     (case cs of (calls, s) \<Rightarrow>
        if i < length calls
        then (case put_step (calls ! i, s) of (c, s') \<Rightarrow> (calls[i := c], s'))
        else (calls, s))"

fun put_schedule ::
  "nat list \<Rightarrow> put_call list \<times> InMemoryObjectStore \<Rightarrow> put_call list \<times> InMemoryObjectStore" where
  "put_schedule [] cs = cs"
| "put_schedule (i # turns) cs = put_schedule turns (put_turn i cs)"

section \<open>Invariants under interleaving\<close>

lemma put_step_inv: "os_inv s \<Longrightarrow> os_inv (snd (put_step (c, s)))"
  by (auto simp: put_step_def evict_noop put_insert_inv split: put_pc.splits)

lemma put_schedule_inv: "os_inv (snd cs) \<Longrightarrow> os_inv (snd (put_schedule turns cs))"
proof (induction turns cs rule: put_schedule.induct)
  case (2 i turns cs)
  then show ?case
    using put_step_inv[of "snd cs" "fst cs ! i"]
    by (auto simp: put_turn_def split: prod.splits)
qed simp

text \<open>The four lock sections of \<^verbatim>\<open>put\<close>, run without interference, compute the composed operation.\<close>

lemma put_runs:
  "(put_step ^^ 4) (put_begin now oid data, s)
     = ((put_begin now oid data)\<lparr>pc_at := PutDone (fst (os_put now oid data s))\<rparr>,
        snd (os_put now oid data s))"
  by (simp add: eval_nat_numeral put_step_def put_begin_def os_put_def Let_def)

section \<open>File system\<close>

text \<open>The documented behaviour of \<^verbatim>\<open>tokio::fs\<close> the round trip relies on: what was written is read.\<close>

definition fs_write_then_read :: "'fs fs_ops \<Rightarrow> bool" where
  "fs_write_then_read fs \<longleftrightarrow>
     (\<forall>path data f f'. fs_write fs path data f = (Inr (), f') \<longrightarrow> fs_read fs path f' = Inr data)"

text \<open>A file system that is a map from paths to contents, to show the hypothesis can hold.\<close>

definition map_fs :: "(string \<rightharpoonup> bytes) fs_ops" where
  "map_fs = \<lparr>fs_create_dir_all = (\<lambda>_ f. (Inr (), f)),
             fs_write = (\<lambda>p d f. (Inr (), f(p \<mapsto> d))),
             fs_read = (\<lambda>p f. case f p of Some d \<Rightarrow> Inr d | None \<Rightarrow> Inl ''not found''),
             fs_remove_file = (\<lambda>p f. (Inr (), f(p := None)))\<rparr>"

lemma map_fs_law: "fs_write_then_read map_fs"
  by (auto simp: fs_write_then_read_def map_fs_def)

lemma spill_to_diskD:
  assumes "spill_to_disk fs oid dir (s, f) = (Inr (), s1, f1)"
  obtains e f0 where "get_entry s oid = Some e" "fs_write fs (spill_path dir oid) (oe_data e) f0 = (Inr (), f1)"
    "s1 = spill_mark oid (spill_path dir oid) s"
  using assms
  by (auto simp: spill_to_disk_def spill_read_def get_entry_def split: sum.splits prod.splits option.splits)

lemma restore_marked:
  assumes "get_entry s oid = Some e" "fs_read fs path f = Inr data"
  shows "restore_from_disk fs oid (spill_mark oid path s, f)
      = (Inr (), restore_store oid data (spill_mark oid path s), snd (fs_remove_file fs path f))"
  using assms
  by (simp add: restore_from_disk_def restore_path_def spill_mark_def get_entry_def)

lemma restore_marked_entry:
  "get_entry s oid = Some e \<Longrightarrow> get_entry (restore_store oid data (spill_mark oid path s)) oid
     = Some (e\<lparr>oe_data := data, oe_is_spilled := False, oe_spill_url := None\<rparr>)"
  by (simp add: restore_store_def spill_mark_def get_entry_def)

lemma restore_marked_view:
  "get_entry s oid = Some e \<Longrightarrow>
   os_view (restore_store oid data (spill_mark oid path s)) = (os_view s)(oid \<mapsto> data)"
  by (auto simp: restore_store_def spill_mark_def get_entry_def os_view_def fun_eq_iff)

section \<open>Properties\<close>

text \<open>
  Two concurrent \<^verbatim>\<open>put\<close> calls can both pass the size check and together exceed the
  budget: two six-byte objects are accepted by a store limited to ten bytes.
\<close>

lemma concurrent_puts_exceed_budget:
  "\<exists>calls s. put_schedule [0, 1, 0, 1]
       ([put_begin 0 (from_slice [1]) [1, 2, 3, 4, 5, 6], put_begin 0 (from_slice [2]) [1, 2, 3, 4, 5, 6]],
        os_new 10) = (calls, s)
     \<and> map pc_at calls = [PutDone (Inr ()), PutDone (Inr ())]
     \<and> os_max_memory_bytes s = 10 \<and> total_size s = 12"
  by (simp add: put_turn_def put_step_def put_begin_def put_check_def put_insert_def os_new_def
      total_size_def hm_values_def hm_insert_def)

text \<open>
  C25. Spill and restore is a round trip: if the spill succeeds and the file system returns
  what was written, the restore succeeds, every object reads as before, and the spill
  marks are gone. Spilling alone frees no memory: the store's total size is unchanged.
\<close>

theorem spill_restore_roundtrip:
  assumes "fs_write_then_read fs" "os_inv s"
    and "spill_to_disk fs oid dir (s, f) = (Inr (), s1, f1)"
  shows "total_size s1 = total_size s
    \<and> (\<exists>s2 f2. restore_from_disk fs oid (s1, f1) = (Inr (), s2, f2)
         \<and> os_view s2 = os_view s
         \<and> map_option oe_is_spilled (get_entry s2 oid) = Some False
         \<and> map_option oe_spill_url (get_entry s2 oid) = Some None)"
proof -
  obtain e f0 where e: "get_entry s oid = Some e"
    and w: "fs_write fs (spill_path dir oid) (oe_data e) f0 = (Inr (), f1)"
    and s1: "s1 = spill_mark oid (spill_path dir oid) s"
    using assms(3) by (rule spill_to_diskD)
  have "fs_read fs (spill_path dir oid) f1 = Inr (oe_data e)"
    using assms(1) w by (simp add: fs_write_then_read_def)
  note r = restore_marked[OF e this]
  have "(os_view s)(oid \<mapsto> oe_data e) = os_view s"
    using e by (auto simp: os_view_def get_entry_def fun_eq_iff)
  then show ?thesis
    using r restore_marked_entry[OF e, of "oe_data e"] restore_marked_view[OF e, of "oe_data e"]
      spill_mark_size[OF os_invD(1)[OF assms(2)]]
    by (simp add: s1)
qed

theorem spill_restore_roundtrip_witness:
  "\<exists>s2 f2. restore_from_disk map_fs (from_slice [1])
      (snd (spill_to_disk map_fs (from_slice [1]) ''/tmp/ray_spill''
        (put_insert 0 (from_slice [1]) [10, 20] (os_new 0), Map.empty))) = (Inr (), s2, f2)
    \<and> os_view s2 (from_slice [1]) = Some [10, 20]"
proof -
  let ?s = "put_insert 0 (from_slice [1]) [10, 20] (os_new 0)"
  have inv: "os_inv ?s" by (rule put_insert_inv) (simp add: os_new_def os_inv_def)
  have sp: "spill_to_disk map_fs (from_slice [1]) ''/tmp/ray_spill'' (?s, Map.empty)
      = (Inr (), snd (spill_to_disk map_fs (from_slice [1]) ''/tmp/ray_spill'' (?s, Map.empty)))"
    by (simp add: spill_to_disk_def spill_read_def map_fs_def put_insert_def)
  obtain s1 f1 where s1: "snd (spill_to_disk map_fs (from_slice [1]) ''/tmp/ray_spill'' (?s, Map.empty)) = (s1, f1)"
    by fastforce
  show ?thesis
    unfolding s1 using spill_restore_roundtrip[OF map_fs_law inv sp[unfolded s1]] by auto
qed

text \<open>
  C35. A \<^verbatim>\<open>put\<close> between the two lock sections of a spill is lost on restore: the entry marked
  as spilled holds the new bytes, the file holds the old ones, and the restore puts the old
  ones back.
\<close>

theorem put_during_spill_is_lost:
  assumes "fs_write_then_read fs" "os_inv s"
    and "spill_read oid s = Inr old" "fs_write fs path old f = (Inr (), f1)"
    and "os_put now oid new s = (Inr (), s1)"
  shows "os_view s1 oid = Some new
    \<and> (\<exists>s2 f2. restore_from_disk fs oid (spill_mark oid path s1, f1) = (Inr (), s2, f2)
         \<and> os_view s2 oid = Some old)"
proof -
  have v: "os_view s1 = (os_view s)(oid \<mapsto> new)" using assms(2,5) by (rule os.put_ok)
  then obtain e where e: "get_entry s1 oid = Some e" by (auto simp: os_view_def get_entry_def fun_eq_iff
      split: if_splits dest: spec[of _ oid])
  have "fs_read fs path f1 = Inr old" using assms(1,4) by (simp add: fs_write_then_read_def)
  from restore_marked[OF e this] restore_marked_view[OF e, of old] v show ?thesis by simp
qed

theorem put_during_spill_is_lost_witness:
  "\<exists>s2 f2. restore_from_disk map_fs (from_slice [1])
      (spill_mark (from_slice [1]) ''p'' (put_insert 1 (from_slice [1]) [9] (put_insert 0 (from_slice [1]) [5] (os_new 0))),
       [''p'' \<mapsto> [5]]) = (Inr (), s2, f2)
    \<and> os_view s2 (from_slice [1]) = Some [5]"
proof -
  let ?s = "put_insert 0 (from_slice [1]) [5] (os_new 0)"
  have inv: "os_inv ?s" by (rule put_insert_inv) (simp add: os_new_def os_inv_def)
  have rd: "spill_read (from_slice [1]) ?s = Inr [5]" by (simp add: spill_read_def put_insert_def)
  have wr: "fs_write map_fs ''p'' [5] Map.empty = (Inr (), [''p'' \<mapsto> [5]])" by (simp add: map_fs_def)
  have pt: "os_put 1 (from_slice [1]) [9] ?s = (Inr (), put_insert 1 (from_slice [1]) [9] ?s)"
    by (simp add: os_put_def put_insert_def os_new_def)
  show ?thesis using put_during_spill_is_lost[OF map_fs_law inv rd wr pt] by auto
qed

text \<open>
  Distinct objects spilled to the same directory use distinct files.
\<close>

lemma spill_paths_distinct: "spill_path dir a = spill_path dir b \<longleftrightarrow> a = b"
  by (auto simp: spill_path_def path_join_def as_bytes_inject dest!: hex_encode_inj split: if_splits)

end
