(* ===== verification/Worker_Pool.thy ===== *)
theory Worker_Pool
  imports Core_Id
begin

text \<open>
  \<^verbatim>\<open>crates/ray-raylet/src/worker.rs\<close>: the pool of workers. A handle is shared between the pool
  and the task that uses it (\<^verbatim>\<open>Arc<WorkerHandle>\<close>), so handles live in a heap and an \<^verbatim>\<open>Arc\<close> is
  an address of it; the pool's vector is a list of addresses.

  Every method is given as one function. \<^verbatim>\<open>get_worker\<close> and \<^verbatim>\<open>return_worker\<close> are also given as
  the atomic steps they consist of (an atomic load, an atomic store, a section under the write
  lock), because other tasks run between these: \<open>get_step\<close> and \<open>ret_step\<close> are what the
  scheduler's step relation interleaves. The number of tasks inside the read lock is part of
  the state, and the section under the write lock waits for it to be zero.

  The locale \<open>lease_pool\<close> is the contract of a pool that hands out each worker to one holder
  at a time; it is interpreted on the methods run without interference. Under interleaving
  only a part of the contract is left: \<open>Worker_Pool_Conc\<close>.
\<close>

definition WORKER_IDLE :: u8 where "WORKER_IDLE = 0"
definition WORKER_BUSY :: u8 where "WORKER_BUSY = 1"
definition WORKER_DEAD :: u8 where "WORKER_DEAD = 2"

lemma worker_status_distinct [simp]:
  "WORKER_IDLE \<noteq> WORKER_BUSY" "WORKER_BUSY \<noteq> WORKER_IDLE" "WORKER_IDLE \<noteq> WORKER_DEAD"
  "WORKER_DEAD \<noteq> WORKER_IDLE" "WORKER_BUSY \<noteq> WORKER_DEAD" "WORKER_DEAD \<noteq> WORKER_BUSY"
  by (simp_all add: WORKER_IDLE_def WORKER_BUSY_def WORKER_DEAD_def)

record WorkerHandle =
  wh_worker_id :: WorkerId
  wh_pid :: u32
  wh_status :: u8

type_synonym worker_ref = nat

record WorkerPool =
  wp_heap :: "WorkerHandle list"
  wp_workers :: "worker_ref list"
  wp_max_workers :: nat
  wp_readers :: nat

definition new_in_process :: "WorkerId \<Rightarrow> u32 \<Rightarrow> WorkerHandle" where
  "new_in_process wid pid = \<lparr>wh_worker_id = wid, wh_pid = pid, wh_status = WORKER_IDLE\<rparr>"

definition is_idle :: "WorkerHandle \<Rightarrow> bool" where
  "is_idle h \<longleftrightarrow> wh_status h = WORKER_IDLE"

definition is_busy :: "WorkerHandle \<Rightarrow> bool" where
  "is_busy h \<longleftrightarrow> wh_status h = WORKER_BUSY"

definition is_dead :: "WorkerHandle \<Rightarrow> bool" where
  "is_dead h \<longleftrightarrow> wh_status h = WORKER_DEAD"

definition store_status :: "u8 \<Rightarrow> worker_ref \<Rightarrow> WorkerPool \<Rightarrow> WorkerPool" where
  "store_status v a p = p\<lparr>wp_heap := (wp_heap p)[a := (wp_heap p ! a)\<lparr>wh_status := v\<rparr>]\<rparr>"

abbreviation mark_busy :: "worker_ref \<Rightarrow> WorkerPool \<Rightarrow> WorkerPool" where
  "mark_busy \<equiv> store_status WORKER_BUSY"

abbreviation mark_idle :: "worker_ref \<Rightarrow> WorkerPool \<Rightarrow> WorkerPool" where
  "mark_idle \<equiv> store_status WORKER_IDLE"

abbreviation mark_dead :: "worker_ref \<Rightarrow> WorkerPool \<Rightarrow> WorkerPool" where
  "mark_dead \<equiv> store_status WORKER_DEAD"

definition wp_new :: "nat \<Rightarrow> WorkerPool" where
  "wp_new n = \<lparr>wp_heap = [], wp_workers = [], wp_max_workers = n, wp_readers = 0\<rparr>"

definition find_idle :: "WorkerPool \<Rightarrow> worker_ref option" where
  "find_idle p = find (\<lambda>a. is_idle (wp_heap p ! a)) (wp_workers p)"

definition push_worker :: "WorkerId \<Rightarrow> u32 \<Rightarrow> WorkerPool \<Rightarrow> worker_ref \<times> WorkerPool" where
  "push_worker wid pid p =
     (let a = length (wp_heap p);
          p = mark_busy a (p\<lparr>wp_heap := wp_heap p @ [new_in_process wid pid]\<rparr>)
      in (a, p\<lparr>wp_workers := wp_workers p @ [a]\<rparr>))"

text \<open>The section of \<^verbatim>\<open>get_worker\<close> under the write lock: the second scan, then the spawn.\<close>

definition get_worker_write :: "WorkerId \<Rightarrow> u32 \<Rightarrow> WorkerPool \<Rightarrow> worker_ref option \<times> WorkerPool" where
  "get_worker_write wid pid p =
     (case find_idle p of
        Some a \<Rightarrow> (Some a, mark_busy a p)
      | None \<Rightarrow>
          if length (wp_workers p) < wp_max_workers p
          then (let (a, p') = push_worker wid pid p in (Some a, p'))
          else (None, p))"

definition get_worker :: "WorkerId \<Rightarrow> u32 \<Rightarrow> WorkerPool \<Rightarrow> worker_ref option \<times> WorkerPool" where
  "get_worker wid pid p =
     (case find_idle p of
        Some a \<Rightarrow> (Some a, mark_busy a p)
      | None \<Rightarrow> get_worker_write wid pid p)"

definition retain_live :: "WorkerPool \<Rightarrow> WorkerPool" where
  "retain_live p = p\<lparr>wp_workers := filter (\<lambda>a. \<not> is_dead (wp_heap p ! a)) (wp_workers p)\<rparr>"

definition return_worker :: "worker_ref \<Rightarrow> WorkerPool \<Rightarrow> WorkerPool" where
  "return_worker a p = (if is_dead (wp_heap p ! a) then retain_live p else mark_idle a p)"

definition kill_mark :: "WorkerId \<Rightarrow> WorkerPool \<Rightarrow> WorkerPool" where
  "kill_mark wid p =
     (case find (\<lambda>a. wh_worker_id (wp_heap p ! a) = wid) (wp_workers p) of
        Some a \<Rightarrow> mark_dead a p
      | None \<Rightarrow> p)"

definition kill_worker :: "WorkerId \<Rightarrow> WorkerPool \<Rightarrow> WorkerPool" where
  "kill_worker wid p = retain_live (kill_mark wid p)"

definition idle_count :: "WorkerPool \<Rightarrow> nat" where
  "idle_count p = length (filter (\<lambda>a. is_idle (wp_heap p ! a)) (wp_workers p))"

definition busy_count :: "WorkerPool \<Rightarrow> nat" where
  "busy_count p = length (filter (\<lambda>a. is_busy (wp_heap p ! a)) (wp_workers p))"

definition total_count :: "WorkerPool \<Rightarrow> nat" where
  "total_count p = length (wp_workers p)"

section \<open>The steps of the two methods a task uses\<close>

datatype get_pc =
    GetRead \<comment> \<open>waiting for the read lock\<close>
  | GetScan "worker_ref list" \<comment> \<open>in the first loop, these handles left\<close>
  | GetStore worker_ref \<comment> \<open>found idle, about to store busy\<close>
  | GetWrite \<comment> \<open>waiting for the write lock\<close>
  | GetDone "worker_ref option"

fun get_step :: "WorkerId \<Rightarrow> u32 \<Rightarrow> get_pc \<times> WorkerPool \<Rightarrow> get_pc \<times> WorkerPool" where
  "get_step wid pid (GetRead, p) =
     (GetScan (wp_workers p), p\<lparr>wp_readers := Suc (wp_readers p)\<rparr>)"
| "get_step wid pid (GetScan [], p) = (GetWrite, p\<lparr>wp_readers := wp_readers p - 1\<rparr>)"
| "get_step wid pid (GetScan (a # as), p) =
     ((if is_idle (wp_heap p ! a) then GetStore a else GetScan as), p)"
| "get_step wid pid (GetStore a, p) =
     (GetDone (Some a), (mark_busy a p)\<lparr>wp_readers := wp_readers p - 1\<rparr>)"
| "get_step wid pid (GetWrite, p) =
     (if wp_readers p > 0 then (GetWrite, p)
      else (let (w, p') = get_worker_write wid pid p in (GetDone w, p')))"
| "get_step wid pid (GetDone w, p) = (GetDone w, p)"

datatype ret_pc = RetCheck | RetStore | RetWrite | RetDone

fun ret_step :: "worker_ref \<Rightarrow> ret_pc \<times> WorkerPool \<Rightarrow> ret_pc \<times> WorkerPool" where
  "ret_step a (RetCheck, p) = ((if is_dead (wp_heap p ! a) then RetWrite else RetStore), p)"
| "ret_step a (RetStore, p) = (RetDone, mark_idle a p)"
| "ret_step a (RetWrite, p) = (if wp_readers p > 0 then (RetWrite, p) else (RetDone, retain_live p))"
| "ret_step a (RetDone, p) = (RetDone, p)"

text \<open>Several \<^verbatim>\<open>get_worker\<close> calls, advanced one step at a time in a given order.\<close>

definition get_turn :: "WorkerId \<Rightarrow> u32 \<Rightarrow> nat \<Rightarrow> get_pc list \<times> WorkerPool \<Rightarrow> get_pc list \<times> WorkerPool" where
  "get_turn wid pid i cp =
     (case cp of (cs, p) \<Rightarrow>
        if i < length cs then (let (c, p') = get_step wid pid (cs ! i, p) in (cs[i := c], p')) else (cs, p))"

section \<open>Invariants\<close>

text \<open>
  \<open>wp_inv\<close> holds under every interleaving; \<open>wp_quiet\<close>, that no dead handle is in the pool and
  no lock is held, holds between whole method calls.
\<close>

definition wp_inv :: "WorkerPool \<Rightarrow> bool" where
  "wp_inv p \<longleftrightarrow>
     length (wp_workers p) \<le> wp_max_workers p \<and> distinct (wp_workers p) \<and>
     list_all (\<lambda>a. a < length (wp_heap p)) (wp_workers p)"

definition wp_quiet :: "WorkerPool \<Rightarrow> bool" where
  "wp_quiet p \<longleftrightarrow>
     wp_inv p \<and> wp_readers p = 0 \<and>
     list_all (\<lambda>a. is_idle (wp_heap p ! a) \<or> is_busy (wp_heap p ! a)) (wp_workers p)"

definition wp_held :: "WorkerPool \<Rightarrow> worker_ref set" where
  "wp_held p = {a \<in> set (wp_workers p). is_busy (wp_heap p ! a)}"

lemma store_status_fields [simp]:
  "wp_workers (store_status v a p) = wp_workers p"
  "wp_max_workers (store_status v a p) = wp_max_workers p"
  "wp_readers (store_status v a p) = wp_readers p"
  "length (wp_heap (store_status v a p)) = length (wp_heap p)"
  by (simp_all add: store_status_def list_update_beyond)

lemma store_status_nth:
  "wp_heap (store_status v a p) ! b =
     (if b = a \<and> a < length (wp_heap p) then (wp_heap p ! a)\<lparr>wh_status := v\<rparr> else wp_heap p ! b)"
  by (cases "a < length (wp_heap p)"; cases "b = a") (simp_all add: store_status_def list_update_beyond)

lemmas status_defs = is_idle_def is_busy_def is_dead_def

lemma wp_inv_new: "wp_inv (wp_new n)"
  by (simp add: wp_inv_def wp_new_def)

lemma wp_inv_store [ray_inv]: "wp_inv p \<Longrightarrow> wp_inv (store_status v a p)"
  by (simp add: wp_inv_def)

lemma wp_inv_readers [ray_inv]: "wp_inv p \<Longrightarrow> wp_inv (p\<lparr>wp_readers := n\<rparr>)"
  by (simp add: wp_inv_def)

lemma wp_inv_retain [ray_inv]: "wp_inv p \<Longrightarrow> wp_inv (retain_live p)"
  by (auto simp: wp_inv_def retain_live_def list_all_iff intro: le_trans[OF length_filter_le])

lemma find_idle_Some: "find_idle p = Some a \<Longrightarrow> a \<in> set (wp_workers p) \<and> is_idle (wp_heap p ! a)"
  unfolding find_idle_def find_Some_iff by auto

lemma find_idle_None: "find_idle p = None \<longleftrightarrow> (\<forall>a\<in>set (wp_workers p). \<not> is_idle (wp_heap p ! a))"
  by (auto simp: find_idle_def find_None_iff)

lemma push_worker_eq:
  "push_worker wid pid p =
     (length (wp_heap p),
      p\<lparr>wp_heap := wp_heap p @ [\<lparr>wh_worker_id = wid, wh_pid = pid, wh_status = WORKER_BUSY\<rparr>],
        wp_workers := wp_workers p @ [length (wp_heap p)]\<rparr>)"
  by (simp add: push_worker_def Let_def store_status_def new_in_process_def)

lemma wp_inv_push:
  "wp_inv p \<Longrightarrow> length (wp_workers p) < wp_max_workers p \<Longrightarrow> wp_inv (snd (push_worker wid pid p))"
  by (auto simp: wp_inv_def push_worker_eq list_all_iff)

lemma wp_inv_get_write [ray_inv]: "wp_inv p \<Longrightarrow> wp_inv (snd (get_worker_write wid pid p))"
  using wp_inv_push[of p wid pid]
  by (auto simp: get_worker_write_def split: option.splits prod.splits intro: wp_inv_store)

lemma wp_inv_get_step [ray_inv]: "wp_inv p \<Longrightarrow> wp_inv (snd (get_step wid pid (c, p)))"
  using wp_inv_get_write[of p wid pid]
  by (cases "(wid, pid, (c, p))" rule: get_step.cases)
     (auto split: prod.splits intro: wp_inv_store wp_inv_readers)

lemma wp_inv_ret_step [ray_inv]: "wp_inv p \<Longrightarrow> wp_inv (snd (ret_step a (c, p)))"
  by (cases c) (auto intro: wp_inv_store wp_inv_retain)

lemma wp_inv_kill_mark [ray_inv]: "wp_inv p \<Longrightarrow> wp_inv (kill_mark wid p)"
  by (auto simp: kill_mark_def split: option.splits intro: wp_inv_store)

lemma wp_max_get_write [simp]: "wp_max_workers (snd (get_worker_write wid pid p)) = wp_max_workers p"
  by (auto simp: get_worker_write_def push_worker_eq split: option.splits)

lemma wp_max_get_step [simp]: "wp_max_workers (snd (get_step wid pid (c, p))) = wp_max_workers p"
  using wp_max_get_write[of wid pid p]
  by (cases "(wid, pid, (c, p))" rule: get_step.cases)
     (auto split: prod.splits simp del: wp_max_get_write)

lemma wp_max_kill_mark [simp]: "wp_max_workers (kill_mark wid p) = wp_max_workers p"
  by (simp add: kill_mark_def split: option.splits)

lemma wp_max_retain [simp]: "wp_max_workers (retain_live p) = wp_max_workers p"
  by (simp add: retain_live_def)

lemma wp_max_ret_step [simp]: "wp_max_workers (snd (ret_step a (c, p))) = wp_max_workers p"
  by (cases c) auto

section \<open>Whole calls: the lease contract\<close>

lemma wp_quietD:
  assumes "wp_quiet p"
  shows "wp_inv p" "wp_readers p = 0" "a \<in> set (wp_workers p) \<Longrightarrow> a < length (wp_heap p)"
    "a \<in> set (wp_workers p) \<Longrightarrow> is_idle (wp_heap p ! a) \<or> is_busy (wp_heap p ! a)"
  using assms by (auto simp: wp_quiet_def wp_inv_def list_all_iff)

lemma get_worker_cases:
  assumes "get_worker wid pid p = (w, p')"
  obtains (reuse) a where "find_idle p = Some a" "w = Some a" "p' = mark_busy a p"
    | (spawn) "find_idle p = None" "length (wp_workers p) < wp_max_workers p"
        "w = Some (length (wp_heap p))" "p' = snd (push_worker wid pid p)"
    | (none) "find_idle p = None" "wp_max_workers p \<le> length (wp_workers p)" "w = None" "p' = p"
  using assms
  by (auto simp: get_worker_def get_worker_write_def push_worker_eq split: option.splits if_splits)

lemma get_worker_quiet [ray_inv]: "wp_quiet p \<Longrightarrow> wp_quiet (snd (get_worker wid pid p))"
proof -
  assume q: "wp_quiet p"
  obtain w p' where g: "get_worker wid pid p = (w, p')" by force
  from g show ?thesis
  proof (cases rule: get_worker_cases)
    case (reuse a)
    then show ?thesis
      using q g find_idle_Some[of p a]
      by (auto simp: wp_quiet_def wp_inv_def list_all_iff store_status_nth status_defs)
  next
    case spawn
    then show ?thesis
      using q g wp_inv_push[of p wid pid]
      by (auto simp: wp_quiet_def push_worker_eq list_all_iff nth_append wp_inv_def status_defs)
  qed (use q g in auto)
qed

lemma return_worker_quiet [ray_inv]: "wp_quiet p \<Longrightarrow> wp_quiet (return_worker a p)"
  by (auto simp: return_worker_def wp_quiet_def wp_inv_def list_all_iff retain_live_def
      store_status_nth status_defs intro: le_trans[OF length_filter_le])

lemma kill_worker_quiet [ray_inv]: "wp_quiet p \<Longrightarrow> wp_quiet (kill_worker wid p)"
  by (auto simp: kill_worker_def kill_mark_def wp_quiet_def retain_live_def wp_inv_def list_all_iff
      store_status_nth status_defs find_Some_iff split: option.splits if_splits
      intro: le_trans[OF length_filter_le])

lemma wp_held_get:
  assumes "wp_quiet p" "get_worker wid pid p = (w, p')"
  shows "case w of
      Some a \<Rightarrow> a \<notin> wp_held p \<and> wp_held p' = insert a (wp_held p)
    | None \<Rightarrow> p' = p \<and> card (wp_held p) = wp_max_workers p"
  using assms(2)
proof (cases rule: get_worker_cases)
  case (reuse a)
  then show ?thesis
    using find_idle_Some[of p a] wp_quietD(3)[OF assms(1), of a]
    by (auto simp: wp_held_def store_status_nth status_defs)
next
  case spawn
  have "length (wp_heap p) \<notin> set (wp_workers p)" using wp_quietD(3)[OF assms(1)] by blast
  with spawn show ?thesis
    using wp_quietD(3)[OF assms(1)]
    by (auto simp: wp_held_def push_worker_eq nth_append is_busy_def)
next
  case none
  have "wp_held p = set (wp_workers p)"
    using none(1) wp_quietD(4)[OF assms(1)] by (auto simp: wp_held_def find_idle_None)
  moreover have "distinct (wp_workers p)" "length (wp_workers p) \<le> wp_max_workers p"
    using wp_quietD(1)[OF assms(1)] by (simp_all add: wp_inv_def)
  ultimately show ?thesis using none by (simp add: distinct_card)
qed

lemma wp_held_card: "wp_quiet p \<Longrightarrow> finite (wp_held p) \<and> card (wp_held p) \<le> wp_max_workers p"
proof -
  assume "wp_quiet p"
  then have "length (wp_workers p) \<le> wp_max_workers p" by (simp add: wp_quiet_def wp_inv_def)
  moreover have "card (wp_held p) \<le> length (wp_workers p)"
    by (rule le_trans[OF card_mono card_length]) (auto simp: wp_held_def)
  ultimately show ?thesis by (auto simp: wp_held_def)
qed

lemma wp_held_return:
  "wp_quiet p \<Longrightarrow> a \<in> wp_held p \<Longrightarrow> wp_held (return_worker a p) = wp_held p - {a}"
  using wp_quietD(3)[of p a]
  by (auto simp: wp_held_def return_worker_def status_defs store_status_nth)

lemma wp_max_get_worker [simp]: "wp_max_workers (snd (get_worker wid pid p)) = wp_max_workers p"
  by (auto simp: get_worker_def split: option.splits)

lemma wp_max_return [simp]: "wp_max_workers (return_worker a p) = wp_max_workers p"
  by (simp add: return_worker_def)

fun lease_all :: "('a \<Rightarrow> 'p \<Rightarrow> 'w option \<times> 'p) \<Rightarrow> 'a list \<Rightarrow> 'p \<Rightarrow> 'w option list \<times> 'p" where
  "lease_all get [] p = ([], p)"
| "lease_all get (a # as) p =
     (let (w, p) = get a p; (ws, p) = lease_all get as p in (w # ws, p))"

locale lease_pool =
  fixes inv :: "'p \<Rightarrow> bool"
    and held :: "'p \<Rightarrow> 'w set"
    and cap :: "'p \<Rightarrow> nat"
    and get :: "'a \<Rightarrow> 'p \<Rightarrow> 'w option \<times> 'p"
    and ret :: "'w \<Rightarrow> 'p \<Rightarrow> 'p"
  assumes inv_get: "inv p \<Longrightarrow> inv (snd (get a p))"
    and inv_ret: "inv p \<Longrightarrow> inv (ret w p)"
    and held_bound: "inv p \<Longrightarrow> finite (held p) \<and> card (held p) \<le> cap p"
    and cap_get: "cap (snd (get a p)) = cap p"
    and get_spec: "inv p \<Longrightarrow> get a p = (r, p') \<Longrightarrow>
      (case r of Some w \<Rightarrow> w \<notin> held p \<and> held p' = insert w (held p)
       | None \<Rightarrow> p' = p \<and> card (held p) = cap p)"
    and held_ret: "inv p \<Longrightarrow> w \<in> held p \<Longrightarrow> held (ret w p) = held p - {w}"
begin

lemma lease_all_distinct:
  "inv p \<Longrightarrow> card (held p) + length as \<le> cap p \<Longrightarrow>
     \<exists>ws p'. lease_all get as p = (map Some ws, p') \<and> inv p' \<and> cap p' = cap p \<and> distinct ws \<and>
       length ws = length as \<and> set ws \<inter> held p = {} \<and> held p' = held p \<union> set ws"
proof (induction "as" arbitrary: p)
  case (Cons a as)
  obtain r p1 where g: "get a p = (r, p1)" by force
  obtain w where w: "r = Some w"
    using get_spec[OF Cons.prems(1) g] Cons.prems(2) by (cases r) auto
  have p1: "w \<notin> held p" "held p1 = insert w (held p)" "inv p1" "cap p1 = cap p"
    using get_spec[OF Cons.prems(1) g] w inv_get[OF Cons.prems(1), of a] cap_get[of a p] g by auto
  have "card (held p1) + length as \<le> cap p1"
    using p1 Cons.prems held_bound[OF Cons.prems(1)] by simp
  from Cons.IH[OF p1(3) this] obtain ws p' where
    "lease_all get as p1 = (map Some ws, p')" "inv p'" "cap p' = cap p1" "distinct ws"
    "length ws = length as" "set ws \<inter> held p1 = {}" "held p' = held p1 \<union> set ws" by blast
  then show ?case using p1 w g by (intro exI[of _ "w # ws"] exI[of _ p']) auto
qed auto

lemma lease_exhausted: "inv p \<Longrightarrow> card (held p) = cap p \<Longrightarrow> get a p = (None, p)"
proof -
  assume i: "inv p" and c: "card (held p) = cap p"
  obtain r p1 where g: "get a p = (r, p1)" by force
  have "r = None"
  proof (cases r)
    case (Some w)
    then have h: "w \<notin> held p" "held p1 = insert w (held p)" using get_spec[OF i g] by auto
    have "inv p1" "cap p1 = cap p" using inv_get[OF i, of a] cap_get[of a p] g by auto
    with held_bound[of p1] held_bound[OF i] h c show ?thesis by simp
  qed
  with get_spec[OF i g] g show ?thesis by auto
qed

lemma return_all: "inv p \<Longrightarrow> set ws \<subseteq> held p \<Longrightarrow> distinct ws \<Longrightarrow>
     inv (fold ret ws p) \<and> held (fold ret ws p) = held p - set ws"
proof (induction ws arbitrary: p)
  case (Cons w ws)
  then have "inv (ret w p)" "held (ret w p) = held p - {w}" by (auto simp: inv_ret held_ret)
  with Cons.IH[of "ret w p"] Cons.prems show ?case by auto
qed simp

end

interpretation wp: lease_pool wp_quiet wp_held wp_max_workers "\<lambda>(wid, pid). get_worker wid pid" return_worker
  by unfold_locales
     (auto simp: wp_held_card wp_held_return wp_held_get split: prod.splits
       intro: get_worker_quiet return_worker_quiet)

lemma busy_count_held: "distinct (wp_workers p) \<Longrightarrow> busy_count p = card (wp_held p)"
  by (simp add: busy_count_def wp_held_def distinct_length_filter Int_def conj_commute)

lemma wp_quiet_distinct: "wp_quiet p \<Longrightarrow> distinct (wp_workers p)"
  by (simp add: wp_quiet_def wp_inv_def)

lemma idle_busy_total: "wp_quiet p \<Longrightarrow> idle_count p + busy_count p = total_count p"
proof -
  assume "wp_quiet p"
  then have "\<forall>a\<in>set (wp_workers p). is_idle (wp_heap p ! a) \<longleftrightarrow> \<not> is_busy (wp_heap p ! a)"
    by (auto simp: wp_quiet_def list_all_iff status_defs)
  then have "filter (\<lambda>a. is_idle (wp_heap p ! a)) (wp_workers p) =
      filter (\<lambda>a. \<not> is_busy (wp_heap p ! a)) (wp_workers p)"
    by (intro filter_cong) auto
  then show ?thesis
    using sum_length_filter_compl[of "\<lambda>a. is_busy (wp_heap p ! a)" "wp_workers p"]
    by (simp add: idle_count_def busy_count_def total_count_def)
qed

section \<open>Interleaved steps\<close>

inductive wp_step :: "WorkerPool \<Rightarrow> WorkerPool \<Rightarrow> bool" where
  get: "wp_step p (snd (get_step wid pid (c, p)))"
| ret: "wp_step p (snd (ret_step a (c, p)))"
| mark: "wp_step p (kill_mark wid p)"
| sweep: "wp_step p (retain_live p)"

inductive_cases wp_stepE: "wp_step p p'"

definition never_again :: "worker_ref \<Rightarrow> WorkerPool \<Rightarrow> bool" where
  "never_again a p \<longleftrightarrow> a < length (wp_heap p) \<and> a \<notin> set (wp_workers p)"

lemma wp_step_inv: "wp_step p p' \<Longrightarrow> wp_inv p \<Longrightarrow> wp_inv p' \<and> wp_max_workers p' = wp_max_workers p"
  by (erule wp_stepE)
     (auto intro: wp_inv_get_step wp_inv_ret_step wp_inv_kill_mark wp_inv_retain)

lemma wp_steps_inv:
  "wp_step\<^sup>*\<^sup>* p p' \<Longrightarrow> wp_inv p \<Longrightarrow> wp_inv p' \<and> wp_max_workers p' = wp_max_workers p"
  by (induction rule: rtranclp_induct) (auto dest: wp_step_inv)

lemma never_again_get_write: "never_again a p \<Longrightarrow> never_again a (snd (get_worker_write wid pid p))"
  by (auto simp: never_again_def get_worker_write_def push_worker_eq split: option.splits)

lemma never_again_step: "wp_step p p' \<Longrightarrow> never_again a p \<Longrightarrow> never_again a p'"
proof (erule wp_stepE)
  fix wid pid c assume "never_again a p" "p' = snd (get_step wid pid (c, p))"
  then show "never_again a p'"
    using never_again_get_write[of a p wid pid]
    by (cases "(wid, pid, (c, p))" rule: get_step.cases) (auto simp: never_again_def split: prod.splits)
next
  fix b c assume "never_again a p" "p' = snd (ret_step b (c, p))"
  then show "never_again a p'" by (cases c) (auto simp: never_again_def retain_live_def)
qed (auto simp: never_again_def kill_mark_def retain_live_def split: option.splits)

lemma never_again_steps: "wp_step\<^sup>*\<^sup>* p p' \<Longrightarrow> never_again a p \<Longrightarrow> never_again a p'"
  by (induction rule: rtranclp_induct) (auto intro: never_again_step)

lemma never_again_get:
  assumes "never_again a p" shows "fst (get_worker wid pid p) \<noteq> Some a"
proof -
  obtain w p' where g: "get_worker wid pid p = (w, p')" by force
  from g show ?thesis
    using assms find_idle_Some[of p a] by (cases rule: get_worker_cases) (auto simp: never_again_def g)
qed

lemma kill_worker_removes:
  assumes "wp_quiet p" "distinct (map (\<lambda>b. wh_worker_id (wp_heap p ! b)) (wp_workers p))"
    and "a \<in> set (wp_workers p)"
  shows "wp_workers (kill_worker (wh_worker_id (wp_heap p ! a)) p) = filter (\<lambda>b. b \<noteq> a) (wp_workers p)"
    and "is_dead (wp_heap (kill_worker (wh_worker_id (wp_heap p ! a)) p) ! a)"
    and "length (wp_heap (kill_worker (wh_worker_id (wp_heap p ! a)) p)) = length (wp_heap p)"
proof -
  let ?id = "\<lambda>b. wh_worker_id (wp_heap p ! b)"
  obtain b where b: "find (\<lambda>b. ?id b = ?id a) (wp_workers p) = Some b"
    using assms(3) by (cases "find (\<lambda>b. ?id b = ?id a) (wp_workers p)") (auto simp: find_None_iff)
  then have "b \<in> set (wp_workers p)" "?id b = ?id a" by (auto simp: find_Some_iff)
  then have "b = a" using assms(2,3) by (auto simp: distinct_map inj_on_def)
  with b have km: "kill_mark (?id a) p = mark_dead a p" by (simp add: kill_mark_def)
  have a: "a < length (wp_heap p)" using wp_quietD(3)[OF assms(1,3)] .
  show "wp_workers (kill_worker (?id a) p) = filter (\<lambda>b. b \<noteq> a) (wp_workers p)"
    using wp_quietD(4)[OF assms(1)] a
    by (force simp: kill_worker_def km retain_live_def store_status_nth status_defs intro!: filter_cong)
  show "is_dead (wp_heap (kill_worker (?id a) p) ! a)"
    and "length (wp_heap (kill_worker (?id a) p)) = length (wp_heap p)"
    using a by (simp_all add: kill_worker_def km retain_live_def store_status_nth status_defs)
qed

lemma get_done_stays: "(get_step wid pid ^^ n) (GetDone w, p) = (GetDone w, p)"
  by (induction n) auto

lemma get_scan_runs:
  "wp_readers p = 0 \<Longrightarrow>
   (get_step wid pid ^^ (length as + 2)) (GetScan as, p\<lparr>wp_readers := Suc 0\<rparr>) =
     (case find (\<lambda>a. is_idle (wp_heap p ! a)) as of
        Some a \<Rightarrow> (GetDone (Some a), mark_busy a p)
      | None \<Rightarrow> map_prod GetDone id (get_worker_write wid pid p))"
proof (induction "as")
  case Nil
  then have "p\<lparr>wp_readers := 0\<rparr> = p" by simp
  then have "get_worker_write wid pid (p\<lparr>wp_readers := 0\<rparr>) = get_worker_write wid pid p" by (rule arg_cong)
  then show ?case by (simp add: numeral_2_eq_2 map_prod_def split: prod.splits)
next
  case (Cons a as)
  have "(mark_busy a (p\<lparr>wp_readers := Suc 0\<rparr>))\<lparr>wp_readers := 0\<rparr> = mark_busy a p"
    using Cons.prems by (cases p) (simp add: store_status_def)
  then show ?case using Cons by (simp add: funpow_swap1 get_done_stays)
qed

text \<open>
  Without interference the atomic steps of \<^verbatim>\<open>get_worker\<close> compute the whole method, in at most
  three steps more than there are workers.
\<close>

lemma get_runs:
  assumes "wp_readers p = 0"
  shows "(get_step wid pid ^^ (length (wp_workers p) + 3)) (GetRead, p) =
    map_prod GetDone id (get_worker wid pid p)"
proof -
  have "(get_step wid pid ^^ (length (wp_workers p) + 3)) (GetRead, p) =
      (get_step wid pid ^^ (length (wp_workers p) + 2)) (get_step wid pid (GetRead, p))"
    by (simp add: funpow_swap1 numeral_3_eq_3 numeral_2_eq_2)
  also have "\<dots> = map_prod GetDone id (get_worker wid pid p)"
    using get_scan_runs[OF assms, of "wp_workers p" wid pid] assms
    by (simp add: get_worker_def find_idle_def split: option.splits)
  finally show ?thesis .
qed

section \<open>Properties\<close>

text \<open>
  C15. Leases: from a pool with no busy worker, as many calls of \<^verbatim>\<open>get_worker\<close> as the capacity
  allows all succeed, on pairwise distinct workers; the next call returns \<^verbatim>\<open>None\<close> and changes
  nothing; and when all of them are returned, every worker is idle again.
\<close>

theorem worker_leases:
  assumes "wp_quiet p" "wp_held p = {}" "length reqs = wp_max_workers p"
  shows "\<exists>ws p'. lease_all (\<lambda>(wid, pid). get_worker wid pid) reqs p = (map Some ws, p') \<and>
    distinct ws \<and> busy_count p' = wp_max_workers p \<and> idle_count p' = 0 \<and>
    get_worker wid pid p' = (None, p') \<and>
    busy_count (fold return_worker ws p') = 0 \<and>
    idle_count (fold return_worker ws p') = total_count (fold return_worker ws p')"
proof -
  have "card (wp_held p) + length reqs \<le> wp_max_workers p" using assms(2,3) by simp
  from wp.lease_all_distinct[OF assms(1) this] obtain ws p' where
    l: "lease_all (\<lambda>(wid, pid). get_worker wid pid) reqs p = (map Some ws, p')" "wp_quiet p'"
      "wp_max_workers p' = wp_max_workers p" "distinct ws" "length ws = length reqs"
      "wp_held p' = set ws"
    using assms(2) by auto
  have card: "card (wp_held p') = wp_max_workers p'"
    using l assms(3) by (simp add: distinct_card)
  have p': "busy_count p' = wp_max_workers p" "distinct (wp_workers p')"
    using busy_count_held[OF wp_quiet_distinct[OF l(2)]] card l(2,3) by (simp_all add: wp_quiet_distinct)
  have "idle_count p' = 0"
    using idle_busy_total[OF l(2)] p' wp_quietD(1)[OF l(2)] l(3) by (simp add: wp_inv_def total_count_def)
  moreover have "get_worker wid pid p' = (None, p')"
    using wp.lease_exhausted[OF l(2) card, of "(wid, pid)"] by simp
  moreover have r: "wp_quiet (fold return_worker ws p')" "wp_held (fold return_worker ws p') = {}"
    using wp.return_all[OF l(2) _ l(4)] l(6) by simp_all
  moreover have "busy_count (fold return_worker ws p') = 0"
    using busy_count_held[OF wp_quiet_distinct[OF r(1)]] r(2) by simp
  ultimately show ?thesis using l p' idle_busy_total[OF r(1)] by auto
qed

theorem worker_leases_witness:
  "wp_quiet (wp_new 1) \<and> wp_held (wp_new 1) = {} \<and>
   (\<exists>ws p'. lease_all (\<lambda>(wid, pid). get_worker wid pid) [(id_default, 7)] (wp_new 1) = (map Some ws, p') \<and>
     distinct ws \<and> busy_count p' = 1 \<and> get_worker id_default 7 p' = (None, p'))"
proof -
  have "wp_quiet (wp_new 1)" "wp_held (wp_new 1) = {}"
    by (simp_all add: wp_quiet_def wp_inv_def wp_new_def wp_held_def)
  moreover have "length [(id_default :: WorkerId, 7 :: u32)] = wp_max_workers (wp_new 1)"
    by (simp add: wp_new_def)
  moreover have "wp_max_workers (wp_new 1) = 1" by (simp add: wp_new_def)
  ultimately show ?thesis
    using worker_leases[of "wp_new 1" "[(id_default, 7)]" id_default 7] by metis
qed

text \<open>
  Capacity: however the atomic steps of concurrent \<^verbatim>\<open>get_worker\<close>, \<^verbatim>\<open>return_worker\<close> and
  \<^verbatim>\<open>kill_worker\<close> calls interleave, the pool never holds more than \<^verbatim>\<open>max_workers\<close> handles, and
  never the same handle twice.
\<close>

lemma worker_pool_capacity:
  assumes "wp_step\<^sup>*\<^sup>* (wp_new n) p"
  shows "total_count p \<le> n \<and> distinct (wp_workers p) \<and> set (wp_workers p) \<subseteq> {..<length (wp_heap p)}"
  using wp_steps_inv[OF assms wp_inv_new]
  by (auto simp: wp_inv_def total_count_def list_all_iff wp_new_def)

text \<open>
  A killed worker is gone for good: the kill removes exactly that handle from the pool and
  leaves it dead, a task that still holds it and returns it changes nothing, and no later
  interleaving of calls puts the handle back or hands it out.
\<close>

lemma killed_worker_gone:
  assumes "wp_quiet p" "distinct (map (\<lambda>b. wh_worker_id (wp_heap p ! b)) (wp_workers p))"
    and "a \<in> set (wp_workers p)"
  defines "p1 \<equiv> kill_worker (wh_worker_id (wp_heap p ! a)) p"
  shows "wp_workers p1 = filter (\<lambda>b. b \<noteq> a) (wp_workers p) \<and> return_worker a p1 = p1 \<and>
    (\<forall>p2 wid pid. wp_step\<^sup>*\<^sup>* p1 p2 \<longrightarrow>
      a \<notin> set (wp_workers p2) \<and> fst (get_worker wid pid p2) \<noteq> Some a)"
proof -
  note k = kill_worker_removes[OF assms(1-3), folded p1_def]
  have "wp_quiet p1" unfolding p1_def by (rule kill_worker_quiet[OF assms(1)])
  then have "\<forall>b\<in>set (wp_workers p1). \<not> is_dead (wp_heap p1 ! b)"
    by (auto simp: wp_quiet_def list_all_iff status_defs)
  then have "return_worker a p1 = p1" using k(2) by (simp add: return_worker_def retain_live_def)
  moreover have "never_again a p1" using k wp_quietD(3)[OF assms(1,3)] by (simp add: never_again_def)
  then have "a \<notin> set (wp_workers p2) \<and> fst (get_worker wid pid p2) \<noteq> Some a"
    if "wp_step\<^sup>*\<^sup>* p1 p2" for p2 wid pid
    using never_again_steps[OF that] never_again_get by (auto simp: never_again_def)
  ultimately show ?thesis using k(1) by blast
qed

end
