(* ===== verification/Executor.thy ===== *)
theory Executor
  imports Core_Types
begin

text \<open>
  \<^verbatim>\<open>crates/ray-raylet/src/executor.rs\<close>: how a task's function is found and run. A registered
  closure returns a result or panics; the text of a panic (tokio's \<^verbatim>\<open>JoinError\<close>) comes from
  outside the repository and is carried by the closure's outcome. The trait object
  \<^verbatim>\<open>Arc<dyn TaskExecutor>\<close> is the sum of the two executors of the repository.
\<close>

datatype outcome = Returns "bytes RayResult" | Panics string

type_synonym TaskFn = "bytes \<Rightarrow> outcome"

record FunctionRegistryExecutor =
  fr_fns :: "(string, TaskFn) hash_map"

definition fr_new :: FunctionRegistryExecutor where
  "fr_new = \<lparr>fr_fns = []\<rparr>"

definition register_fn :: "string \<Rightarrow> TaskFn \<Rightarrow> FunctionRegistryExecutor \<Rightarrow> FunctionRegistryExecutor" where
  "register_fn name f ex = ex\<lparr>fr_fns := hm_insert name f (fr_fns ex)\<rparr>"

definition unregister_fn :: "string \<Rightarrow> FunctionRegistryExecutor \<Rightarrow> FunctionRegistryExecutor" where
  "unregister_fn name ex = ex\<lparr>fr_fns := hm_remove name (fr_fns ex)\<rparr>"

definition has_fn :: "string \<Rightarrow> FunctionRegistryExecutor \<Rightarrow> bool" where
  "has_fn name ex = hm_contains (fr_fns ex) name"

definition no_function_error :: "string \<Rightarrow> RayError" where
  "no_function_error name = TaskFailed [Lit ''No function registered for '', Lit [CHR 0x27], Lit name, Lit [CHR 0x27]]"

definition spawn_blocking :: "TaskFn \<Rightarrow> bytes \<Rightarrow> bytes RayResult" where
  "spawn_blocking f payload =
     (case f payload of
        Panics e \<Rightarrow> Inl (TaskFailed [Lit ''Task panicked: '', Lit e])
      | Returns r \<Rightarrow> r)"

definition registry_execute :: "FunctionRegistryExecutor \<Rightarrow> TaskSpec \<Rightarrow> bytes RayResult" where
  "registry_execute ex task_spec =
     (case hm_get (fr_fns ex) (ts_function_name task_spec) of
        None \<Rightarrow> Inl (no_function_error (ts_function_name task_spec))
      | Some f \<Rightarrow> spawn_blocking f (ts_function_payload task_spec))"

definition local_execute :: "TaskSpec \<Rightarrow> bytes RayResult" where
  "local_execute task_spec = Inr (ts_function_payload task_spec)"

datatype TaskExecutor = Registry FunctionRegistryExecutor | LocalExecutor

fun execute :: "TaskExecutor \<Rightarrow> TaskSpec \<Rightarrow> bytes RayResult" where
  "execute (Registry ex) task_spec = registry_execute ex task_spec"
| "execute LocalExecutor task_spec = local_execute task_spec"

section \<open>The registry of functions\<close>

definition fr_ok :: "FunctionRegistryExecutor \<Rightarrow> bool" where
  "fr_ok ex \<longleftrightarrow> hm_ok (fr_fns ex)"

lemma fr_ok_new [simp]: "fr_ok fr_new"
  by (simp add: fr_ok_def fr_new_def)

interpretation fr: registry_with_removal fr_ok
  "\<lambda>ex name. map_option (Pair name) (hm_get (fr_fns ex) name)"
  "\<lambda>(name, f). register_fn name f" fr_fns fst unregister_fn
proof (unfold_locales, goal_cases)
  case (4 s v)
  then show ?case using hm_mem_iff[of "fr_fns s" "fst v" "snd v"] by (cases v) (auto simp: fr_ok_def)
qed (auto simp: fr_ok_def register_fn_def unregister_fn_def hm_ok_def[symmetric])

lemma registry_execute_lookup:
  "registry_execute ex spec =
     (case map_option (Pair (ts_function_name spec)) (hm_get (fr_fns ex) (ts_function_name spec)) of
        None \<Rightarrow> Inl (no_function_error (ts_function_name spec))
      | Some (_, f) \<Rightarrow> spawn_blocking f (ts_function_payload spec))"
  by (simp add: registry_execute_def split: option.splits)

text \<open>
  Executing a task runs the function last registered under its name, whatever was
  registered before or under other names; a name never registered, or unregistered since,
  fails with \<^verbatim>\<open>TaskFailed\<close> and calls nothing; a panic inside the function is a \<^verbatim>\<open>TaskFailed\<close>
  result of this task only.
\<close>

lemma execute_last_registered:
  "let ex = fold (\<lambda>(name, f). register_fn name f) fs fr_new; name = ts_function_name spec
   in execute (Registry ex) spec =
        (case find (\<lambda>v. fst v = name) (rev fs) of
           None \<Rightarrow> Inl (no_function_error name)
         | Some (_, f) \<Rightarrow>
             (case f (ts_function_payload spec) of
                Returns r \<Rightarrow> r
              | Panics e \<Rightarrow> Inl (TaskFailed [Lit ''Task panicked: '', Lit e])))
      \<and> execute (Registry (unregister_fn name ex)) spec = Inl (no_function_error name)"
proof -
  let ?ex = "fold (\<lambda>(name, f). register_fn name f) fs fr_new"
  have ok: "fr_ok ?ex" by (rule fr.inv_puts) simp
  have new: "hm_get (fr_fns fr_new) n = None" for n by (simp add: fr_new_def)
  show ?thesis
    using fr.lookup_puts[where vs = fs and k = "ts_function_name spec", OF fr_ok_new]
      fr.lookup_del[OF ok, of "ts_function_name spec" "ts_function_name spec"]
    by (auto simp: Let_def registry_execute_lookup new spawn_blocking_def
        split: option.splits outcome.splits)
qed

end
