(* ===== verification/Local_Scheduler.thy ===== *)
theory Local_Scheduler
  imports Resource_Manager Object_Store_Conc Worker_Pool Executor
begin

text \<open>
  \<^verbatim>\<open>crates/ray-raylet/src/scheduler.rs\<close>: the scheduler of a node. One event loop receives
  commands from a channel and owns the task statuses and the pending queue; every dispatched
  task is a background task of its own. The loop and the background tasks share the resource
  manager, the object store and the worker pool.

  The system state holds the loop's locals, the channel and the shared objects. An atomic step
  is one command with its single \<^verbatim>\<open>try_allocate\<close>, one iteration of the drain loop, or one
  atomic step of a background task (a step of \<^verbatim>\<open>get_worker\<close>, the execution, a lock section of
  \<^verbatim>\<open>put\<close>, a step of \<^verbatim>\<open>return_worker\<close>, the release). \<open>sys_step\<close> interleaves them in any order
  with sends of clients and with other users of the store. \<open>loop_iteration\<close> and \<open>run_task\<close> are
  the same code run without interference.
\<close>

datatype SchedulerCommand =
    SubmitTask TaskSpec
  | CancelTask TaskId
  | GetStatus TaskId nat \<comment> \<open>the number names the one-shot reply channel\<close>

datatype dispatch_pc =
    DGet get_pc
  | DExecute "worker_ref option"
  | DPut "worker_ref option" put_call
  | DReturn worker_ref ret_pc
  | DRelease
  | DDone

record dispatch =
  d_spec :: TaskSpec
  d_pc :: dispatch_pc

datatype loop_pc =
    LoopRecv
  | LoopDrain "TaskSpec list" "TaskSpec list" \<comment> \<open>left to visit, \<^verbatim>\<open>still_pending\<close>\<close>
  | LoopExited

record System =
  sy_statuses :: "(TaskId, TaskStatus) hash_map"
  sy_pending :: "TaskSpec list"
  sy_loop :: loop_pc
  sy_channel :: "SchedulerCommand list"
  sy_senders_dropped :: bool
  sy_replies :: "(nat \<times> TaskStatus RayResult) list"
  sy_tasks :: "dispatch list"
  sy_rm :: ResourceManager
  sy_executor :: TaskExecutor
  sy_store :: InMemoryObjectStore
  sy_pool :: WorkerPool

definition scheduler_new :: "ResourceManager \<Rightarrow> TaskExecutor \<Rightarrow> InMemoryObjectStore \<Rightarrow> WorkerPool \<Rightarrow> System" where
  "scheduler_new rm ex store pool =
     \<lparr>sy_statuses = [], sy_pending = [], sy_loop = LoopRecv, sy_channel = [],
      sy_senders_dropped = False, sy_replies = [], sy_tasks = [], sy_rm = rm, sy_executor = ex,
      sy_store = store, sy_pool = pool\<rparr>"

section \<open>The event loop\<close>

definition dispatch_task :: "TaskSpec \<Rightarrow> System \<Rightarrow> System" where
  "dispatch_task spec s = s\<lparr>sy_tasks := sy_tasks s @ [\<lparr>d_spec = spec, d_pc = DGet GetRead\<rparr>]\<rparr>"

definition set_status :: "TaskId \<Rightarrow> TaskStatus \<Rightarrow> System \<Rightarrow> System" where
  "set_status tid st s = s\<lparr>sy_statuses := hm_insert tid st (sy_statuses s)\<rparr>"

text \<open>The shared pattern of the loop: \<^verbatim>\<open>try_allocate(..).unwrap_or(false)\<close>, then run or not.\<close>

definition try_start :: "TaskSpec \<Rightarrow> System \<Rightarrow> bool \<times> System" where
  "try_start spec s =
     (let (r, rm) = try_allocate (ts_required_resources spec) (sy_rm s);
          s = s\<lparr>sy_rm := rm\<rparr>
      in if unwrap_or r False
         then (True, dispatch_task spec (set_status (ts_task_id spec) TS_Running s))
         else (False, s))"

definition submit_command :: "TaskSpec \<Rightarrow> System \<Rightarrow> System" where
  "submit_command spec s =
     (let (started, s) = try_start spec s
      in if started then s
         else (set_status (ts_task_id spec) TS_Pending s)\<lparr>sy_pending := sy_pending s @ [spec]\<rparr>)"

definition cancel_command :: "TaskId \<Rightarrow> System \<Rightarrow> System" where
  "cancel_command tid s =
     s\<lparr>sy_statuses := hm_modify tid (\<lambda>_. TS_Cancelled) (sy_statuses s),
       sy_pending := filter (\<lambda>spec. ts_task_id spec \<noteq> tid) (sy_pending s)\<rparr>"

definition task_not_found :: "TaskId \<Rightarrow> RayError" where
  "task_not_found tid = TaskNotFound [Lit (id_debug ''TaskId'' tid)]"

definition status_command :: "TaskId \<Rightarrow> nat \<Rightarrow> System \<Rightarrow> System" where
  "status_command tid ch s =
     (let status = (case hm_get (sy_statuses s) tid of
                      Some st \<Rightarrow> Inr st | None \<Rightarrow> Inl (task_not_found tid))
      in s\<lparr>sy_replies := sy_replies s @ [(ch, status)]\<rparr>)"

fun handle_command :: "SchedulerCommand \<Rightarrow> System \<Rightarrow> System" where
  "handle_command (SubmitTask spec) s = submit_command spec s"
| "handle_command (CancelTask tid) s = cancel_command tid s"
| "handle_command (GetStatus tid ch) s = status_command tid ch s"

definition begin_drain :: "System \<Rightarrow> System" where
  "begin_drain s = s\<lparr>sy_loop := LoopDrain (sy_pending s) [], sy_pending := []\<rparr>"

definition loop_step :: "System \<Rightarrow> System" where
  "loop_step s =
     (case sy_loop s of
        LoopRecv \<Rightarrow>
          (case sy_channel s of
             cmd # rest \<Rightarrow> begin_drain (handle_command cmd (s\<lparr>sy_channel := rest\<rparr>))
           | [] \<Rightarrow> if sy_senders_dropped s then s\<lparr>sy_loop := LoopExited\<rparr> else s)
      | LoopDrain (spec # rest) still \<Rightarrow>
          (let (started, s) = try_start spec s
           in s\<lparr>sy_loop := LoopDrain rest (if started then still else still @ [spec])\<rparr>)
      | LoopDrain [] still \<Rightarrow> s\<lparr>sy_pending := still, sy_loop := LoopRecv\<rparr>
      | LoopExited \<Rightarrow> s)"

text \<open>The drain loop and a whole iteration, run without interference.\<close>

fun drain :: "TaskSpec list \<Rightarrow> System \<Rightarrow> TaskSpec list \<times> System" where
  "drain [] s = ([], s)"
| "drain (spec # rest) s =
     (let (started, s) = try_start spec s; (still, s) = drain rest s
      in (if started then still else spec # still, s))"

definition loop_iteration :: "SchedulerCommand \<Rightarrow> System \<Rightarrow> System" where
  "loop_iteration cmd s =
     (let s = handle_command cmd s; (still, s) = drain (sy_pending s) (s\<lparr>sy_pending := []\<rparr>)
      in s\<lparr>sy_pending := still\<rparr>)"

section \<open>A background task\<close>

definition finish_with :: "worker_ref option \<Rightarrow> dispatch_pc" where
  "finish_with w = (case w of Some a \<Rightarrow> DReturn a RetCheck | None \<Rightarrow> DRelease)"

definition after_execute :: "nat \<Rightarrow> TaskSpec \<Rightarrow> worker_ref option \<Rightarrow> bytes RayResult \<Rightarrow> dispatch_pc" where
  "after_execute now spec w result =
     (case result of
        Inr data \<Rightarrow>
          (case ts_return_ids spec of
             return_id # _ \<Rightarrow> DPut w (put_begin now return_id data)
           | [] \<Rightarrow> finish_with w)
      | Inl e \<Rightarrow> finish_with w)"

definition advance_task :: "WorkerId \<Rightarrow> u32 \<Rightarrow> nat \<Rightarrow> TaskSpec \<Rightarrow> dispatch_pc \<Rightarrow> System \<Rightarrow> dispatch_pc \<times> System" where
  "advance_task wid pid now spec pc s =
     (case pc of
        DGet (GetDone w) \<Rightarrow> (DExecute w, s)
      | DGet c \<Rightarrow> (let (c, pool) = get_step wid pid (c, sy_pool s) in (DGet c, s\<lparr>sy_pool := pool\<rparr>))
      | DExecute w \<Rightarrow> (after_execute now spec w (execute (sy_executor s) spec), s)
      | DPut w call \<Rightarrow>
          (case pc_at call of
             PutDone r \<Rightarrow> (finish_with w, s)
           | _ \<Rightarrow> (let (call, store) = put_step (call, sy_store s) in (DPut w call, s\<lparr>sy_store := store\<rparr>)))
      | DReturn a RetDone \<Rightarrow> (DRelease, s)
      | DReturn a c \<Rightarrow> (let (c, pool) = ret_step a (c, sy_pool s) in (DReturn a c, s\<lparr>sy_pool := pool\<rparr>))
      | DRelease \<Rightarrow> (DDone, s\<lparr>sy_rm := rm_release (ts_required_resources spec) (sy_rm s)\<rparr>)
      | DDone \<Rightarrow> (DDone, s))"

definition task_step :: "WorkerId \<Rightarrow> u32 \<Rightarrow> nat \<Rightarrow> nat \<Rightarrow> System \<Rightarrow> System" where
  "task_step wid pid now i s =
     (if i < length (sy_tasks s)
      then (let d = sy_tasks s ! i; (pc, s) = advance_task wid pid now (d_spec d) (d_pc d) s
            in s\<lparr>sy_tasks := (sy_tasks s)[i := d\<lparr>d_pc := pc\<rparr>]\<rparr>)
      else s)"

text \<open>The whole background task, run without interference, on the shared objects.\<close>

definition run_task ::
  "WorkerId \<Rightarrow> u32 \<Rightarrow> nat \<Rightarrow> TaskExecutor \<Rightarrow> TaskSpec \<Rightarrow> ResourceManager \<times> InMemoryObjectStore \<times> WorkerPool
     \<Rightarrow> ResourceManager \<times> InMemoryObjectStore \<times> WorkerPool" where
  "run_task wid pid now ex spec sh =
     (case sh of (rm, store, pool) \<Rightarrow>
       let (worker, pool) = get_worker wid pid pool;
           store = (case execute ex spec of
               Inr data \<Rightarrow> (case ts_return_ids spec of
                   return_id # _ \<Rightarrow> snd (os_put now return_id data store) | [] \<Rightarrow> store)
             | Inl e \<Rightarrow> store);
           pool = (case worker of Some w \<Rightarrow> return_worker w pool | None \<Rightarrow> pool);
           rm = rm_release (ts_required_resources spec) rm
       in (rm, store, pool))"

section \<open>The Scheduler trait: the client side of the channel\<close>

definition channel_closed :: RayError where
  "channel_closed = Internal [Lit ''Scheduler channel closed'']"

text \<open>A send returns at once, or fails when the receiver is gone, or (\<open>None\<close>) waits for room.\<close>

definition send_command :: "SchedulerCommand \<Rightarrow> System \<Rightarrow> unit RayResult option \<times> System" where
  "send_command cmd s =
     (if sy_loop s = LoopExited then (Some (Inl channel_closed), s)
      else if length (sy_channel s) < 4096
      then (Some (Inr ()), s\<lparr>sy_channel := sy_channel s @ [cmd]\<rparr>)
      else (None, s))"

definition submit_task :: "TaskSpec \<Rightarrow> System \<Rightarrow> unit RayResult option \<times> System" where
  "submit_task spec = send_command (SubmitTask spec)"

definition cancel_task :: "TaskId \<Rightarrow> System \<Rightarrow> unit RayResult option \<times> System" where
  "cancel_task tid = send_command (CancelTask tid)"

definition get_task_status_send :: "TaskId \<Rightarrow> nat \<Rightarrow> System \<Rightarrow> unit RayResult option \<times> System" where
  "get_task_status_send tid ch = send_command (GetStatus tid ch)"

text \<open>Polling the reply: \<open>None\<close> while it is awaited.\<close>

definition get_task_status_reply :: "nat \<Rightarrow> System \<Rightarrow> TaskStatus RayResult option" where
  "get_task_status_reply ch s =
     (case map_of (sy_replies s) ch of
        Some r \<Rightarrow> Some r
      | None \<Rightarrow>
          if sy_loop s = LoopExited then Some (Inl (Internal [Lit ''Scheduler reply channel dropped'']))
          else None)"

section \<open>Interleaving\<close>

inductive sys_step :: "(TaskSpec \<Rightarrow> bool) \<Rightarrow> System \<Rightarrow> System \<Rightarrow> bool" for submits where
  send: "(\<And>spec. cmd = SubmitTask spec \<Longrightarrow> submits spec) \<Longrightarrow> sys_step submits s (snd (send_command cmd s))"
| drop_senders: "sys_step submits s (s\<lparr>sy_senders_dropped := True\<rparr>)"
| loop: "sys_step submits s (loop_step s)"
| task: "sys_step submits s (task_step wid pid now i s)"
| store: "os_inv store \<Longrightarrow> sys_step submits s (s\<lparr>sy_store := store\<rparr>)"
| register: "sys_step submits s (s\<lparr>sy_executor := ex\<rparr>)"

inductive_cases sys_stepE: "sys_step submits s s'"

section \<open>What is where\<close>

text \<open>The task specifications that wait: in the queue, in the drain loop, or in the channel.\<close>

definition submitted :: "SchedulerCommand list \<Rightarrow> TaskSpec list" where
  "submitted cmds = List.map_filter (\<lambda>c. case c of SubmitTask spec \<Rightarrow> Some spec | _ \<Rightarrow> None) cmds"

definition waiting :: "System \<Rightarrow> TaskSpec list" where
  "waiting s =
     sy_pending s @ (case sy_loop s of LoopDrain rest still \<Rightarrow> rest @ still | _ \<Rightarrow> []) @
     submitted (sy_channel s)"

definition live_tasks :: "System \<Rightarrow> dispatch list" where
  "live_tasks s = filter (\<lambda>d. d_pc d \<noteq> DDone) (sy_tasks s)"

definition held_requests :: "System \<Rightarrow> Resources multiset" where
  "held_requests s = mset (map (\<lambda>d. ts_required_resources (d_spec d)) (live_tasks s))"

lemma submitted_simps [simp]:
  "submitted [] = []"
  "submitted (SubmitTask spec # cmds) = spec # submitted cmds"
  "submitted (CancelTask tid # cmds) = submitted cmds"
  "submitted (GetStatus tid ch # cmds) = submitted cmds"
  "submitted (cmds @ cmds') = submitted cmds @ submitted cmds'"
  by (simp_all add: submitted_def List.map_filter_def)

lemma try_start_cases:
  obtains (started) "can_satisfy (rm_available (sy_rm s)) (ts_required_resources spec)"
      "rm_granted (ts_required_resources spec) (sy_rm s) = Some (sy_rm (snd (try_start spec s)))"
      "try_start spec s = (True, dispatch_task spec (set_status (ts_task_id spec) TS_Running
         (s\<lparr>sy_rm := sy_rm (snd (try_start spec s))\<rparr>)))"
    | (refused) "\<not> can_satisfy (rm_available (sy_rm s)) (ts_required_resources spec)"
      "try_start spec s = (False, s)"
  by (cases "can_satisfy (rm_available (sy_rm s)) (ts_required_resources spec)")
     (auto simp: try_start_def try_allocate_def Let_def rm_granted_eq dispatch_task_def set_status_def)

lemma try_start_frame [simp]:
  "sy_pending (snd (try_start spec s)) = sy_pending s"
  "sy_loop (snd (try_start spec s)) = sy_loop s"
  "sy_channel (snd (try_start spec s)) = sy_channel s"
  "sy_pool (snd (try_start spec s)) = sy_pool s"
  "sy_store (snd (try_start spec s)) = sy_store s"
  "sy_executor (snd (try_start spec s)) = sy_executor s"
  by (simp_all add: try_start_def Let_def dispatch_task_def set_status_def split: prod.splits)

lemma handle_command_frame [simp]:
  "sy_loop (handle_command cmd s) = sy_loop s"
  "sy_channel (handle_command cmd s) = sy_channel s"
  "sy_pool (handle_command cmd s) = sy_pool s"
  "sy_store (handle_command cmd s) = sy_store s"
  "sy_executor (handle_command cmd s) = sy_executor s"
  by (cases cmd;
      simp add: submit_command_def cancel_command_def status_command_def set_status_def Let_def split_beta)+

lemma handle_command_pending:
  "set (sy_pending (handle_command cmd s)) \<subseteq> set (sy_pending s) \<union> set (submitted [cmd])"
  by (cases cmd)
     (auto simp: submit_command_def cancel_command_def status_command_def set_status_def Let_def split_beta)

lemma loop_step_waiting: "set (waiting (loop_step s)) \<subseteq> set (waiting s)"
proof (cases "sy_loop s")
  case LoopRecv
  show ?thesis
  proof (cases "sy_channel s")
    case (Cons cmd rest)
    then have "set (submitted (sy_channel s)) = set (submitted [cmd]) \<union> set (submitted rest)"
      using submitted_simps(5)[of "[cmd]" rest] by simp
    with Cons LoopRecv handle_command_pending[of cmd "s\<lparr>sy_channel := rest\<rparr>"] show ?thesis
      by (auto simp: waiting_def loop_step_def begin_drain_def)
  qed (use LoopRecv in \<open>auto simp: waiting_def loop_step_def\<close>)
next
  case (LoopDrain todo still)
  then show ?thesis by (cases todo) (auto simp: waiting_def loop_step_def Let_def split_beta)
qed (simp add: loop_step_def)

lemma advance_task_cases:
  obtains (release) "pc = DRelease" "advance_task wid pid now spec pc s =
        (DDone, s\<lparr>sy_rm := rm_release (ts_required_resources spec) (sy_rm s)\<rparr>)"
    | (finished) "pc = DDone" "advance_task wid pid now spec pc s = (DDone, s)"
    | (working) "pc \<noteq> DDone" "fst (advance_task wid pid now spec pc s) \<noteq> DDone"
        "sy_rm (snd (advance_task wid pid now spec pc s)) = sy_rm s"
proof (cases pc)
  case (DGet c)
  then show thesis using working by (cases c) (auto simp: advance_task_def Let_def split_beta)
next
  case (DPut w c)
  then show thesis
    using working
    by (cases "pc_at c") (auto simp: advance_task_def Let_def split_beta finish_with_def split: option.splits)
next
  case (DReturn a c)
  then show thesis using working by (cases c) (auto simp: advance_task_def Let_def split_beta)
next
  case (DExecute w)
  then show thesis
    using working
    by (auto simp: advance_task_def after_execute_def finish_with_def split: sum.splits list.splits option.splits)
next
  case DRelease
  then show thesis by (intro release) (simp_all add: advance_task_def)
next
  case DDone
  then show thesis by (intro finished) (simp_all add: advance_task_def)
qed

lemma advance_task_frame [simp]:
  "sy_statuses (snd (advance_task wid pid now spec pc s)) = sy_statuses s"
  "sy_pending (snd (advance_task wid pid now spec pc s)) = sy_pending s"
  "sy_loop (snd (advance_task wid pid now spec pc s)) = sy_loop s"
  "sy_channel (snd (advance_task wid pid now spec pc s)) = sy_channel s"
  "sy_tasks (snd (advance_task wid pid now spec pc s)) = sy_tasks s"
  "sy_executor (snd (advance_task wid pid now spec pc s)) = sy_executor s"
  by (auto simp: advance_task_def Let_def split_beta
      split: dispatch_pc.splits get_pc.splits put_pc.splits ret_pc.splits)

lemma task_step_eq:
  "i < length (sy_tasks s) \<Longrightarrow>
   task_step wid pid now i s =
     (snd (advance_task wid pid now (d_spec (sy_tasks s ! i)) (d_pc (sy_tasks s ! i)) s))
       \<lparr>sy_tasks := (sy_tasks s)[i := (sy_tasks s ! i)
          \<lparr>d_pc := fst (advance_task wid pid now (d_spec (sy_tasks s ! i)) (d_pc (sy_tasks s ! i)) s)\<rparr>]\<rparr>"
  by (simp add: task_step_def Let_def split_beta)

lemma task_step_out: "\<not> i < length (sy_tasks s) \<Longrightarrow> task_step wid pid now i s = s"
  by (simp add: task_step_def)

lemma task_step_frame [simp]:
  "sy_statuses (task_step wid pid now i s) = sy_statuses s"
  "sy_pending (task_step wid pid now i s) = sy_pending s"
  "sy_loop (task_step wid pid now i s) = sy_loop s"
  "sy_channel (task_step wid pid now i s) = sy_channel s"
  "sy_executor (task_step wid pid now i s) = sy_executor s"
  by (cases "i < length (sy_tasks s)"; simp add: task_step_eq task_step_out)+

lemma task_step_specs [simp]: "map d_spec (sy_tasks (task_step wid pid now i s)) = map d_spec (sy_tasks s)"
  by (cases "i < length (sy_tasks s)")
     (auto simp: task_step_eq task_step_out list_eq_iff_nth_eq nth_list_update)

lemma task_step_waiting [simp]: "waiting (task_step wid pid now i s) = waiting s"
  by (simp add: waiting_def)

section \<open>Resource accounting of the whole system\<close>

text \<open>What is available, what the unfinished tasks hold and what others have leased add up to the total.\<close>

definition sys_accounts :: "nat \<Rightarrow> Resources multiset \<Rightarrow> System \<Rightarrow> bool" where
  "sys_accounts g leased s \<longleftrightarrow>
     rm_accounts g (sy_rm s) (held_requests s + leased) \<and>
     (\<forall>spec\<in>set (waiting s). res_grid g (ts_required_resources spec))"

lemma held_requests_dispatch [simp]:
  "held_requests (dispatch_task spec s) = add_mset (ts_required_resources spec) (held_requests s)"
  by (simp add: held_requests_def live_tasks_def dispatch_task_def)

lemma held_requests_cong: "sy_tasks s = sy_tasks s' \<Longrightarrow> held_requests s = held_requests s'"
  by (simp add: held_requests_def live_tasks_def)

lemma try_start_accounts:
  assumes "rm_accounts g (sy_rm s) (held_requests s + leased)" "res_grid g (ts_required_resources spec)"
  shows "rm_accounts g (sy_rm (snd (try_start spec s))) (held_requests (snd (try_start spec s)) + leased)"
proof (cases rule: try_start_cases[of s spec])
  case started
  have "held_requests (snd (try_start spec s)) = add_mset (ts_required_resources spec) (held_requests s)"
    by (subst started(3)) (simp add: held_requests_def live_tasks_def dispatch_task_def set_status_def)
  then show ?thesis using rm.accounts_grant[OF assms started(2)] by simp
qed (use assms in simp)

lemma handle_command_accounts:
  assumes "rm_accounts g (sy_rm s) (held_requests s + leased)"
    and "\<And>spec. cmd = SubmitTask spec \<Longrightarrow> res_grid g (ts_required_resources spec)"
  shows "rm_accounts g (sy_rm (handle_command cmd s)) (held_requests (handle_command cmd s) + leased)"
proof (cases cmd)
  case (SubmitTask spec)
  with try_start_accounts[OF assms(1), of spec] assms(2) show ?thesis
    by (simp add: submit_command_def Let_def split_beta set_status_def held_requests_def live_tasks_def)
qed (use assms(1) in \<open>simp_all add: cancel_command_def status_command_def held_requests_def live_tasks_def\<close>)

lemma loop_step_accounts: "sys_accounts g leased s \<Longrightarrow> sys_accounts g leased (loop_step s)"
proof -
  assume acc: "sys_accounts g leased s"
  then have rm: "rm_accounts g (sy_rm s) (held_requests s + leased)" by (simp add: sys_accounts_def)
  have "rm_accounts g (sy_rm (loop_step s)) (held_requests (loop_step s) + leased)"
  proof (cases "sy_loop s")
    case LoopRecv
    show ?thesis
    proof (cases "sy_channel s")
      case (Cons cmd rest)
      have "res_grid g (ts_required_resources spec)" if "cmd = SubmitTask spec" for spec
        using acc that Cons by (simp add: sys_accounts_def waiting_def)
      then have "rm_accounts g (sy_rm (handle_command cmd (s\<lparr>sy_channel := rest\<rparr>)))
          (held_requests (handle_command cmd (s\<lparr>sy_channel := rest\<rparr>)) + leased)"
        using rm by (intro handle_command_accounts) (simp_all add: held_requests_def live_tasks_def)
      then show ?thesis
        using LoopRecv Cons by (simp add: loop_step_def begin_drain_def held_requests_def live_tasks_def)
    qed (use rm LoopRecv in \<open>simp add: loop_step_def held_requests_def live_tasks_def\<close>)
  next
    case (LoopDrain todo still)
    show ?thesis
    proof (cases todo)
      case (Cons spec rest)
      then have "res_grid g (ts_required_resources spec)"
        using acc LoopDrain by (simp add: sys_accounts_def waiting_def)
      from try_start_accounts[OF rm this] show ?thesis
        using LoopDrain Cons
        by (simp add: loop_step_def Let_def split_beta held_requests_def live_tasks_def)
    qed (use rm LoopDrain in \<open>simp add: loop_step_def held_requests_def live_tasks_def\<close>)
  qed (use rm in \<open>simp add: loop_step_def\<close>)
  with acc loop_step_waiting[of s] show ?thesis by (auto simp: sys_accounts_def)
qed

lemma task_step_accounts: "sys_accounts g leased s \<Longrightarrow> sys_accounts g leased (task_step wid pid now i s)"
proof (cases "i < length (sy_tasks s)")
  case True
  assume acc: "sys_accounts g leased s"
  let ?d = "sy_tasks s ! i"
  let ?f = "\<lambda>d. ts_required_resources (d_spec d)"
  obtain rest where rest:
    "mset (map ?f (filter (\<lambda>d. d_pc d \<noteq> DDone) (sy_tasks s))) =
       (if d_pc ?d \<noteq> DDone then {#?f ?d#} else {#}) + rest"
    "\<And>y. mset (map ?f (filter (\<lambda>d. d_pc d \<noteq> DDone) ((sy_tasks s)[i := y]))) =
       (if d_pc y \<noteq> DDone then {#?f y#} else {#}) + rest"
    using mset_map_filter_update[OF True, of ?f "\<lambda>d. d_pc d \<noteq> DDone"] by blast
  have rm: "rm_accounts g (sy_rm s) ((if d_pc ?d \<noteq> DDone then {#?f ?d#} else {#}) + (rest + leased))"
    using acc rest(1) by (simp add: sys_accounts_def held_requests_def live_tasks_def add.assoc)
  let ?a = "advance_task wid pid now (d_spec ?d) (d_pc ?d) s"
  have held: "held_requests (task_step wid pid now i s) = (if fst ?a \<noteq> DDone then {#?f ?d#} else {#}) + rest"
    using rest(2)[of "?d\<lparr>d_pc := fst ?a\<rparr>"]
    by (simp add: held_requests_def live_tasks_def task_step_eq[OF True])
  have "rm_accounts g (sy_rm (task_step wid pid now i s)) (held_requests (task_step wid pid now i s) + leased)"
    using rm
  proof (cases rule: advance_task_cases[of "d_pc ?d" wid pid now "d_spec ?d" s])
    case release
    with rm rm.accounts_release_add[of g "sy_rm s" "?f ?d" "rest + leased"] show ?thesis
      by (simp add: held) (simp add: task_step_eq[OF True])
  qed (simp add: held, simp add: task_step_eq[OF True])+
  with acc show ?thesis by (simp add: sys_accounts_def)
qed (simp add: task_step_out)

lemma sys_step_accounts:
  assumes "sys_step (\<lambda>spec. res_grid g (ts_required_resources spec)) s s'" "sys_accounts g leased s"
  shows "sys_accounts g leased s'"
  using assms(1)
proof (cases rule: sys_step.cases)
  case (send cmd)
  then show ?thesis
    using assms(2)
    by (cases cmd) (auto simp: send_command_def sys_accounts_def waiting_def held_requests_def live_tasks_def)
qed (use assms(2) loop_step_accounts task_step_accounts in
      \<open>auto simp: sys_accounts_def waiting_def held_requests_def live_tasks_def\<close>)

lemma sys_steps_accounts:
  "(sys_step (\<lambda>spec. res_grid g (ts_required_resources spec)))\<^sup>*\<^sup>* s s' \<Longrightarrow> sys_accounts g leased s \<Longrightarrow> sys_accounts g leased s'"
  by (induction rule: rtranclp_induct) (auto intro: sys_step_accounts)

lemma sys_accounts_new: "res_grid g tot \<Longrightarrow> sys_accounts g {#} (scheduler_new (rm_new tot) ex store pool)"
  by (simp add: sys_accounts_def scheduler_new_def waiting_def held_requests_def live_tasks_def rm_accounts_new)

lemma sys_step_rm_total:
  "sys_step P s s' \<Longrightarrow> rm_total (sy_rm s') = rm_total (sy_rm s)"
proof (induction rule: sys_step.induct)
  case (send cmd s)
  show ?case by (simp add: send_command_def)
next
  case (loop s)
  have t: "rm_total (sy_rm (snd (try_start spec s))) = rm_total (sy_rm s)" for spec s
    by (simp add: try_start_def try_allocate_def Let_def dispatch_task_def set_status_def)
  then have "rm_total (sy_rm (handle_command cmd s)) = rm_total (sy_rm s)" for cmd s
    by (cases cmd) (simp_all add: submit_command_def cancel_command_def status_command_def
        Let_def split_beta set_status_def)
  with t show ?case
    by (auto simp: loop_step_def begin_drain_def Let_def split_beta split: loop_pc.splits list.splits)
next
  case (task s wid pid now i)
  show ?case
  proof (cases "i < length (sy_tasks s)")
    case True
    then show ?thesis
      by (cases rule: advance_task_cases[of "d_pc (sy_tasks s ! i)" wid pid now "d_spec (sy_tasks s ! i)" s])
         (simp_all add: task_step_eq)
  qed (simp add: task_step_out)
qed simp_all

lemma sys_steps_rm_total: "(sys_step P)\<^sup>*\<^sup>* s s' \<Longrightarrow> rm_total (sy_rm s') = rm_total (sy_rm s)"
  by (induction rule: rtranclp_induct) (auto dest: sys_step_rm_total)

lemma sys_accounts_idle:
  assumes "sys_accounts g {#} s" "live_tasks s = []"
  shows "res_get (rm_available (sy_rm s)) n = res_get (rm_total (sy_rm s)) n"
proof -
  have "rm_accounts g (sy_rm s) {#}" using assms by (simp add: sys_accounts_def held_requests_def)
  then show ?thesis
    using res_grid_get(1)[of g "rm_available (sy_rm s)" n] res_grid_get(1)[of g "rm_total (sy_rm s)" n]
    by (simp add: rm_accounts_def)
qed

section \<open>The drain loop\<close>

lemma try_start_amounts:
  assumes "res_amounts (rm_available (sy_rm s))" "res_amounts (ts_required_resources spec)"
  shows "res_amounts (rm_available (sy_rm (snd (try_start spec s))))"
    "f64_le (res_get (rm_available (sy_rm (snd (try_start spec s)))) n) (res_get (rm_available (sy_rm s)) n)"
proof -
  have refl: "f64_le x x" if "f64_amount x" for x using that by (cases x) auto
  have "sy_rm (snd (try_start spec s)) = snd (try_allocate (ts_required_resources spec) (sy_rm s))"
    by (simp add: try_start_def Let_def split_beta dispatch_task_def set_status_def)
  then show "res_amounts (rm_available (sy_rm (snd (try_start spec s))))"
    "f64_le (res_get (rm_available (sy_rm (snd (try_start spec s)))) n) (res_get (rm_available (sy_rm s)) n)"
    using assms res_amounts_subtract[OF assms] res_subtract_le[OF assms] refl res_amounts_get[OF assms(1)]
    by (auto simp: try_allocate_def)
qed

lemma drain_ConsE:
  assumes "drain (spec # q) s = (still, s')"
  obtains b s1 st where "try_start spec s = (b, s1)" "drain q s1 = (st, s')"
    "still = (if b then st else spec # st)"
  using assms by (auto simp: Let_def split: prod.splits)

lemma drain_spec:
  assumes "res_amounts (rm_available (sy_rm s))" "\<forall>spec\<in>set q. res_amounts (ts_required_resources spec)"
    and "drain q s = (still, s')"
  shows "res_amounts (rm_available (sy_rm s'))
    \<and> (\<forall>n. f64_le (res_get (rm_available (sy_rm s')) n) (res_get (rm_available (sy_rm s)) n))
    \<and> (\<forall>spec\<in>set still. \<not> can_satisfy (rm_available (sy_rm s')) (ts_required_resources spec))"
  using assms
proof (induction q arbitrary: s still s')
  case Nil
  have "f64_le x x" if "f64_amount x" for x using that by (cases x) auto
  with Nil show ?case by (auto dest: res_amounts_get)
next
  case (Cons spec q)
  obtain b s1 st where b: "try_start spec s = (b, s1)"
    and st: "drain q s1 = (st, s')" "still = (if b then st else spec # st)"
    using drain_ConsE[OF Cons.prems(3)] .
  have amt: "res_amounts (ts_required_resources spec)" using Cons.prems(2) by simp
  note t = try_start_amounts[OF Cons.prems(1) amt, unfolded b snd_conv]
  have ih: "res_amounts (rm_available (sy_rm s'))"
    "\<And>n. f64_le (res_get (rm_available (sy_rm s')) n) (res_get (rm_available (sy_rm s1)) n)"
    "\<And>spec. spec \<in> set st \<Longrightarrow> \<not> can_satisfy (rm_available (sy_rm s')) (ts_required_resources spec)"
    using Cons.IH[OF t(1) _ st(1)] Cons.prems(2) by auto
  have "\<not> can_satisfy (rm_available (sy_rm s')) (ts_required_resources spec)" if "\<not> b"
  proof
    assume cs: "can_satisfy (rm_available (sy_rm s')) (ts_required_resources spec)"
    have "can_satisfy (rm_available (sy_rm s1)) (ts_required_resources spec)"
      by (rule can_satisfy_mono[OF res_amounts_hm_ok[OF amt] ih(2) cs]) (use amt in \<open>force dest: res_amountsD\<close>)
    with that b show False by (cases rule: try_start_cases[of s spec]) auto
  qed
  with ih st(2) f64_le_trans[OF ih(2) t(2)] show ?case by auto
qed

lemma drain_subseq: "drain q s = (still, s') \<Longrightarrow> subseq still q"
proof (induction q arbitrary: s still s')
  case (Cons spec q)
  from drain_ConsE[OF Cons.prems] Cons.IH show ?case by (metis list_emb_Cons subseq_Cons2)
qed simp

lemma try_start_tasks:
  "map d_spec (sy_tasks (snd (try_start spec s))) =
     map d_spec (sy_tasks s) @ (if fst (try_start spec s) then [spec] else [])"
  by (simp add: try_start_def Let_def split_beta dispatch_task_def set_status_def)

lemma drain_partition:
  "drain q s = (still, s') \<Longrightarrow>
   mset still + mset (map d_spec (sy_tasks s')) = mset q + mset (map d_spec (sy_tasks s))"
proof (induction q arbitrary: s still s')
  case (Cons spec q)
  obtain b s1 st where b: "try_start spec s = (b, s1)"
    and st: "drain q s1 = (st, s')" "still = (if b then st else spec # st)"
    using drain_ConsE[OF Cons.prems] .
  show ?case
    using Cons.IH[OF st(1)] st(2) try_start_tasks[of spec s] b
    by (auto simp del: mset_map)
qed simp

section \<open>Statuses and cancellation\<close>

lemma try_start_statuses:
  "hm_get (sy_statuses (snd (try_start spec s))) =
     (if fst (try_start spec s) then (hm_get (sy_statuses s))(ts_task_id spec \<mapsto> TS_Running)
      else hm_get (sy_statuses s))"
  by (simp add: try_start_def Let_def split_beta dispatch_task_def set_status_def)

lemma handle_command_statuses:
  "hm_get (sy_statuses (handle_command cmd s)) =
     (case cmd of
        SubmitTask spec \<Rightarrow> (hm_get (sy_statuses s))(ts_task_id spec \<mapsto>
          (if fst (try_start spec s) then TS_Running else TS_Pending))
      | CancelTask tid \<Rightarrow> (hm_get (sy_statuses s))(tid := map_option (\<lambda>_. TS_Cancelled) (hm_get (sy_statuses s) tid))
      | GetStatus _ _ \<Rightarrow> hm_get (sy_statuses s))"
  by (cases cmd) (auto simp: submit_command_def cancel_command_def status_command_def set_status_def Let_def
      split_beta try_start_statuses fun_eq_iff)

lemma loop_step_statuses:
  "hm_get (sy_statuses (loop_step s)) =
     (case sy_loop s of
        LoopRecv \<Rightarrow> (case sy_channel s of
            cmd # rest \<Rightarrow> hm_get (sy_statuses (handle_command cmd (s\<lparr>sy_channel := rest\<rparr>)))
          | [] \<Rightarrow> hm_get (sy_statuses s))
      | LoopDrain (spec # rest) still \<Rightarrow> hm_get (sy_statuses (snd (try_start spec s)))
      | _ \<Rightarrow> hm_get (sy_statuses s))"
  by (auto simp: loop_step_def begin_drain_def Let_def split_beta split: loop_pc.splits list.splits)

definition runs_of :: "TaskId \<Rightarrow> System \<Rightarrow> TaskSpec list" where
  "runs_of tid s = filter (\<lambda>spec. ts_task_id spec = tid) (map d_spec (sy_tasks s))"

definition cancelled :: "TaskId \<Rightarrow> TaskSpec list \<Rightarrow> System \<Rightarrow> bool" where
  "cancelled tid runs s \<longleftrightarrow>
     hm_get (sy_statuses s) tid = Some TS_Cancelled \<and> runs_of tid s = runs \<and>
     (\<forall>spec\<in>set (waiting s). ts_task_id spec \<noteq> tid)"

lemma runs_of_try_start: "ts_task_id spec \<noteq> tid \<Longrightarrow> runs_of tid (snd (try_start spec s)) = runs_of tid s"
  by (simp add: runs_of_def try_start_tasks)

lemma runs_of_handle_command:
  "(\<And>spec. cmd = SubmitTask spec \<Longrightarrow> ts_task_id spec \<noteq> tid) \<Longrightarrow>
   runs_of tid (handle_command cmd s) = runs_of tid s"
proof (cases cmd)
  case (SubmitTask spec)
  assume "\<And>spec. cmd = SubmitTask spec \<Longrightarrow> ts_task_id spec \<noteq> tid"
  then have "runs_of tid (snd (try_start spec s)) = runs_of tid s" using SubmitTask runs_of_try_start by blast
  then show ?thesis
    using SubmitTask by (simp add: submit_command_def Let_def split_beta runs_of_def set_status_def)
qed (simp_all add: cancel_command_def status_command_def runs_of_def)

text \<open>The identifiers in the queue of the event loop, also while it visits the queue.\<close>

definition queued_ids :: "System \<Rightarrow> TaskId set" where
  "queued_ids s = ts_task_id ` set (case sy_loop s of LoopDrain rest still \<Rightarrow> rest @ still | _ \<Rightarrow> sy_pending s)"

definition status_sound :: "TaskId \<Rightarrow> System \<Rightarrow> bool" where
  "status_sound tid s =
     (case hm_get (sy_statuses s) tid of
        None \<Rightarrow> tid \<notin> queued_ids s \<and> runs_of tid s = []
      | Some TS_Pending \<Rightarrow> tid \<in> queued_ids s
      | Some TS_Running \<Rightarrow> runs_of tid s \<noteq> []
      | Some TS_Cancelled \<Rightarrow> tid \<notin> queued_ids s
      | Some _ \<Rightarrow> False)"

lemma status_sound_cong:
  "sy_statuses s' = sy_statuses s \<Longrightarrow> queued_ids s' = queued_ids s \<Longrightarrow> runs_of tid s' = runs_of tid s \<Longrightarrow>
   status_sound tid s' = status_sound tid s"
  unfolding status_sound_def by presburger

lemma status_sound_frame:
  "sy_statuses s' = sy_statuses s \<Longrightarrow> sy_loop s' = sy_loop s \<Longrightarrow> sy_pending s' = sy_pending s \<Longrightarrow>
   map d_spec (sy_tasks s') = map d_spec (sy_tasks s) \<Longrightarrow> status_sound tid s' = status_sound tid s"
  by (rule status_sound_cong) (simp_all add: queued_ids_def runs_of_def split: loop_pc.split)

lemma runs_of_started: "runs_of tid (snd (try_start spec s)) =
    runs_of tid s @ (if fst (try_start spec s) \<and> ts_task_id spec = tid then [spec] else [])"
  by (simp add: runs_of_def try_start_tasks)

lemma handle_command_sound:
  assumes "status_sound tid s" "sy_loop s = LoopRecv"
  shows "status_sound tid (begin_drain (handle_command cmd s))"
proof (cases cmd)
  case (SubmitTask spec)
  have "queued_ids (begin_drain (submit_command spec s)) =
      queued_ids s \<union> (if fst (try_start spec s) then {} else {ts_task_id spec})"
    using assms(2) by (auto simp: queued_ids_def begin_drain_def submit_command_def set_status_def Let_def split_beta)
  moreover have "runs_of tid (begin_drain (submit_command spec s)) = runs_of tid (snd (try_start spec s))"
    by (simp add: begin_drain_def submit_command_def set_status_def runs_of_def Let_def split_beta)
  moreover have "hm_get (sy_statuses (begin_drain (submit_command spec s))) =
      (hm_get (sy_statuses s))(ts_task_id spec \<mapsto> (if fst (try_start spec s) then TS_Running else TS_Pending))"
    using handle_command_statuses[of "SubmitTask spec" s] by (simp add: begin_drain_def)
  ultimately show ?thesis
    using assms(1) SubmitTask
    by (auto simp: status_sound_def runs_of_started split: option.splits TaskStatus.splits if_splits)
next
  case (CancelTask t)
  then show ?thesis using assms
    by (auto simp: status_sound_def queued_ids_def begin_drain_def cancel_command_def runs_of_def
        split: option.splits TaskStatus.splits)
next
  case (GetStatus t ch)
  then show ?thesis using assms
    by (auto simp: status_sound_def queued_ids_def begin_drain_def status_command_def runs_of_def
        split: option.splits TaskStatus.splits)
qed

lemma loop_step_sound: "status_sound tid s \<Longrightarrow> status_sound tid (loop_step s)"
proof -
  assume sound: "status_sound tid s"
  show ?thesis
  proof (cases "sy_loop s")
    case LoopRecv
    have "status_sound tid (s\<lparr>sy_channel := rest\<rparr>)" for rest
      using sound status_sound_frame[of "s\<lparr>sy_channel := rest\<rparr>" s tid] by simp
    moreover have "status_sound tid (s\<lparr>sy_loop := LoopExited\<rparr>)"
      using sound LoopRecv status_sound_cong[of "s\<lparr>sy_loop := LoopExited\<rparr>" s tid] by (simp add: queued_ids_def runs_of_def)
    ultimately show ?thesis
      using handle_command_sound LoopRecv sound by (auto simp: loop_step_def split: list.split)
  next
    case (LoopDrain todo still)
    show ?thesis
    proof (cases todo)
      case Nil
      then show ?thesis using sound LoopDrain status_sound_cong[of "loop_step s" s tid]
        by (simp add: loop_step_def queued_ids_def runs_of_def image_Un Un_commute)
    next
      case (Cons spec rest)
      let ?started = "fst (try_start spec s)"
      have "tid \<in> queued_ids s \<longleftrightarrow> tid = ts_task_id spec \<or> tid \<in> queued_ids (loop_step s)"
        "\<not> ?started \<Longrightarrow> queued_ids (loop_step s) = queued_ids s"
        "runs_of tid (loop_step s) = runs_of tid (snd (try_start spec s))"
        "hm_get (sy_statuses (loop_step s)) = hm_get (sy_statuses (snd (try_start spec s)))"
        using LoopDrain Cons by (auto simp: loop_step_def queued_ids_def runs_of_def Let_def split_beta)
      then show ?thesis using sound
        by (auto simp: status_sound_def runs_of_started try_start_statuses split: option.splits TaskStatus.splits if_splits)
    qed
  qed (use sound in \<open>simp add: loop_step_def\<close>)
qed

lemma sys_step_sound: "sys_step P s s' \<Longrightarrow> status_sound tid s \<Longrightarrow> status_sound tid s'"
proof -
  assume sound: "status_sound tid s" and "sys_step P s s'"
  from this(2) show ?thesis
  proof cases
    case (send cmd)
    then show ?thesis using sound status_sound_frame[of s' s tid] by (simp add: send_command_def split: if_splits)
  next
    case loop
    then show ?thesis using sound loop_step_sound by simp
  qed (use sound status_sound_frame[of s' s tid] in simp_all)
qed

lemma sys_steps_sound: "(sys_step P)\<^sup>*\<^sup>* s s' \<Longrightarrow> status_sound tid s \<Longrightarrow> status_sound tid s'"
  by (induction rule: rtranclp_induct) (auto intro: sys_step_sound)

lemma loop_step_cancelled: "cancelled tid runs s \<Longrightarrow> cancelled tid runs (loop_step s)"
proof -
  assume c: "cancelled tid runs s"
  have w: "\<forall>spec\<in>set (waiting (loop_step s)). ts_task_id spec \<noteq> tid"
    using c loop_step_waiting[of s] by (auto simp: cancelled_def)
  have "hm_get (sy_statuses (loop_step s)) tid = Some TS_Cancelled \<and> runs_of tid (loop_step s) = runs"
  proof (cases "sy_loop s")
    case LoopRecv
    show ?thesis
    proof (cases "sy_channel s")
      case (Cons cmd rest)
      have sub: "ts_task_id spec \<noteq> tid" if "cmd = SubmitTask spec" for spec
        using c that Cons by (simp add: cancelled_def waiting_def)
      then have "runs_of tid (handle_command cmd (s\<lparr>sy_channel := rest\<rparr>)) = runs"
        using runs_of_handle_command[of cmd tid] c by (simp add: cancelled_def runs_of_def)
      moreover have "hm_get (sy_statuses (handle_command cmd (s\<lparr>sy_channel := rest\<rparr>))) tid = Some TS_Cancelled"
        using c sub unfolding handle_command_statuses by (cases cmd) (auto simp: cancelled_def)
      ultimately show ?thesis
        using Cons LoopRecv by (simp add: loop_step_def begin_drain_def runs_of_def)
    qed (use c LoopRecv in \<open>simp add: loop_step_def cancelled_def runs_of_def\<close>)
  next
    case (LoopDrain todo still)
    show ?thesis
    proof (cases todo)
      case (Cons spec rest)
      then have "ts_task_id spec \<noteq> tid" using c LoopDrain by (simp add: cancelled_def waiting_def)
      then show ?thesis
        using c LoopDrain Cons runs_of_try_start[of spec tid s]
        by (simp add: loop_step_def Let_def split_beta cancelled_def runs_of_def try_start_statuses)
    qed (use c LoopDrain in \<open>simp add: loop_step_def cancelled_def runs_of_def\<close>)
  qed (use c in \<open>simp add: loop_step_def cancelled_def\<close>)
  with w show ?thesis by (simp add: cancelled_def)
qed

lemma sys_step_cancelled:
  assumes "sys_step (\<lambda>spec. ts_task_id spec \<noteq> tid) s s'" "cancelled tid runs s"
  shows "cancelled tid runs s'"
  using assms(1)
proof (cases rule: sys_step.cases)
  case (send cmd)
  then show ?thesis
    using assms(2) by (cases cmd) (auto simp: send_command_def cancelled_def waiting_def runs_of_def)
next
  case loop
  with assms(2) loop_step_cancelled show ?thesis by simp
qed (use assms(2) in \<open>simp_all add: cancelled_def waiting_def runs_of_def\<close>)

lemma sys_steps_cancelled:
  "(sys_step (\<lambda>spec. ts_task_id spec \<noteq> tid))\<^sup>*\<^sup>* s s' \<Longrightarrow> cancelled tid runs s \<Longrightarrow> cancelled tid runs s'"
  by (induction rule: rtranclp_induct) (auto intro: sys_step_cancelled)

lemma loop_iteration_eq:
  assumes "drain (sy_pending (handle_command cmd s)) ((handle_command cmd s)\<lparr>sy_pending := []\<rparr>) = (still, s1)"
  shows "loop_iteration cmd s = s1\<lparr>sy_pending := still\<rparr>"
  using assms by (simp add: loop_iteration_def Let_def del: handle_command.simps)

lemma handle_command_amounts:
  assumes "res_amounts (rm_available (sy_rm s))"
    and "\<forall>spec\<in>set (submitted [cmd]). res_amounts (ts_required_resources spec)"
  shows "res_amounts (rm_available (sy_rm (handle_command cmd s)))"
  using assms try_start_amounts(1)[of s]
  by (cases cmd) (auto simp: submit_command_def cancel_command_def status_command_def Let_def split_beta set_status_def)

text \<open>The queue a command leaves, before the drain.\<close>

definition keeps :: "SchedulerCommand \<Rightarrow> TaskSpec \<Rightarrow> bool" where
  "keeps cmd = (\<lambda>spec. case cmd of CancelTask tid \<Rightarrow> ts_task_id spec \<noteq> tid | _ \<Rightarrow> True)"

lemma handle_command_partition:
  "mset (sy_pending (handle_command cmd s)) + mset (map d_spec (sy_tasks (handle_command cmd s))) =
     mset (filter (keeps cmd) (sy_pending s) @ submitted [cmd]) + mset (map d_spec (sy_tasks s))"
  "subseq (sy_pending (handle_command cmd s)) (filter (keeps cmd) (sy_pending s) @ submitted [cmd])"
proof -
  have "mset (sy_pending (submit_command spec s)) + mset (map d_spec (sy_tasks (submit_command spec s))) =
      add_mset spec (mset (sy_pending s) + mset (map d_spec (sy_tasks s)))" for spec
    using try_start_tasks[of spec s]
    by (auto simp: submit_command_def Let_def split_beta set_status_def simp del: mset_map)
  then show "mset (sy_pending (handle_command cmd s)) + mset (map d_spec (sy_tasks (handle_command cmd s))) =
     mset (filter (keeps cmd) (sy_pending s) @ submitted [cmd]) + mset (map d_spec (sy_tasks s))"
    by (cases cmd) (simp_all add: cancel_command_def status_command_def keeps_def)
  show "subseq (sy_pending (handle_command cmd s)) (filter (keeps cmd) (sy_pending s) @ submitted [cmd])"
    by (cases cmd) (auto simp: cancel_command_def status_command_def submit_command_def keeps_def Let_def
        split_beta set_status_def)
qed

section \<open>Properties\<close>

definition cpu_system :: "nat \<Rightarrow> System" where
  "cpu_system cpus =
     scheduler_new (rm_new (res_set resources_new ''CPU'' (f64_of_nat cpus))) LocalExecutor (os_new 0) (wp_new 2)"

text \<open>
  C1. Conservation: however the event loop, the background tasks and the clients interleave,
  what is available plus what the unfinished tasks were granted is the node's total, for every
  resource (on requests that are multiples of a common granule); so when no task is
  unfinished, everything is available again.
\<close>

theorem scheduler_conserves_resources:
  assumes "res_grid g tot"
    and "(sys_step (\<lambda>spec. res_grid g (ts_required_resources spec)))\<^sup>*\<^sup>*
           (scheduler_new (rm_new tot) ex store pool) s"
  shows "res_units (rm_available (sy_rm s)) n + held_units (held_requests s) n = res_units tot n
    \<and> (live_tasks s = [] \<longrightarrow> res_get (rm_available (sy_rm s)) n = res_get tot n)"
proof -
  have acc: "sys_accounts g {#} s" by (rule sys_steps_accounts[OF assms(2) sys_accounts_new[OF assms(1)]])
  have tot: "rm_total (sy_rm s) = tot"
    using sys_steps_rm_total[OF assms(2)] by (simp add: scheduler_new_def rm_new_def)
  then show ?thesis
    using acc sys_accounts_idle[OF acc, of n] by (auto simp: sys_accounts_def rm_accounts_def)
qed

theorem scheduler_conserves_resources_witness:
  "let s = loop_step (snd (send_command (SubmitTask (cpu_task 1 1 [])) (cpu_system 4)));
       req = res_set resources_new ''CPU'' (f64_of_nat 1)
   in held_requests s = {#req#} \<and>
      res_units (rm_available (sy_rm s)) ''CPU'' + res_units req ''CPU'' =
        res_units (res_set resources_new ''CPU'' (f64_of_nat 4)) ''CPU''"
proof -
  let ?P = "\<lambda>spec. res_grid 1074 (ts_required_resources spec)"
  let ?s1 = "snd (send_command (SubmitTask (cpu_task 1 1 [])) (cpu_system 4))"
  have "sys_step ?P (cpu_system 4) ?s1" by (rule sys_step.send) (simp add: cpu_task_def)
  then have "(sys_step ?P)\<^sup>*\<^sup>* (cpu_system 4) (loop_step ?s1)"
    by (meson converse_rtranclp_into_rtranclp r_into_rtranclp sys_step.loop)
  from scheduler_conserves_resources[OF _ this[unfolded cpu_system_def], of "''CPU''"]
  have "res_units (rm_available (sy_rm (loop_step ?s1))) ''CPU'' + held_units (held_requests (loop_step ?s1)) ''CPU''
      = res_units (res_set resources_new ''CPU'' (f64_of_nat 4)) ''CPU''" by (simp add: cpu_system_def)
  moreover have "held_requests (loop_step ?s1) = {#res_set resources_new ''CPU'' (f64_of_nat 1)#}"
    by (simp add: loop_step_def send_command_def cpu_system_def scheduler_new_def begin_drain_def
        submit_command_def try_start_def try_allocate_def rm_new_def cpu_task_def f64_of_nat_cmp
        dispatch_task_def set_status_def held_requests_def live_tasks_def)
  ultimately show ?thesis by (simp add: held_units_def)
qed

text \<open>
  C18. An iteration of the event loop starts all it can: afterwards no pending task fits the
  available resources; the tasks that stay pending keep their order of arrival; and no task is
  lost or started twice: the pending and the dispatched tasks together are the old ones plus
  the submitted one, less what the command cancelled.
\<close>

theorem iteration_starts_all_it_can:
  assumes "res_amounts (rm_available (sy_rm s))"
    and "\<forall>spec\<in>set (sy_pending s @ submitted [cmd]). res_amounts (ts_required_resources spec)"
  defines "s' \<equiv> loop_iteration cmd s" and "queue \<equiv> filter (keeps cmd) (sy_pending s) @ submitted [cmd]"
  shows "(\<forall>spec\<in>set (sy_pending s'). \<not> can_satisfy (rm_available (sy_rm s')) (ts_required_resources spec))
    \<and> subseq (sy_pending s') queue
    \<and> mset (sy_pending s') + mset (map d_spec (sy_tasks s')) = mset queue + mset (map d_spec (sy_tasks s))"
proof -
  let ?h = "handle_command cmd s"
  obtain still s1 where d: "drain (sy_pending ?h) (?h\<lparr>sy_pending := []\<rparr>) = (still, s1)" by force
  note s' = loop_iteration_eq[OF d, folded s'_def]
  have "res_amounts (rm_available (sy_rm (?h\<lparr>sy_pending := []\<rparr>)))"
    using handle_command_amounts[OF assms(1)] assms(2) by simp
  moreover have "\<forall>spec\<in>set (sy_pending ?h). res_amounts (ts_required_resources spec)"
    using handle_command_pending[of cmd s] assms(2) by auto
  ultimately have "\<forall>spec\<in>set still. \<not> can_satisfy (rm_available (sy_rm s1)) (ts_required_resources spec)"
    using drain_spec[OF _ _ d] by blast
  moreover have "subseq still queue"
    using drain_subseq[OF d] handle_command_partition(2)[of cmd s] unfolding queue_def
    by (rule subseq_order.order_trans)
  moreover have "mset still + mset (map d_spec (sy_tasks s1)) = mset queue + mset (map d_spec (sy_tasks s))"
    using drain_partition[OF d] handle_command_partition(1)[of cmd s] unfolding queue_def by simp
  ultimately show ?thesis by (simp add: s')
qed

theorem iteration_starts_all_it_can_witness:
  "sy_pending (loop_iteration (SubmitTask (cpu_task 1 5 [])) (cpu_system 4)) = [cpu_task 1 5 []]
   \<and> \<not> can_satisfy (rm_available (sy_rm (loop_iteration (SubmitTask (cpu_task 1 5 [])) (cpu_system 4))))
       (ts_required_resources (cpu_task 1 5 []))"
proof -
  let ?s = "loop_iteration (SubmitTask (cpu_task 1 5 [])) (cpu_system 4)"
  have "res_amounts (rm_available (sy_rm (cpu_system 4)))"
    "res_amounts (ts_required_resources (cpu_task 1 5 []))"
    by (simp_all add: cpu_system_def scheduler_new_def rm_new_def cpu_task_def res_gridD(1)[where g = 1074])
  then have "\<forall>spec\<in>set (sy_pending ?s). \<not> can_satisfy (rm_available (sy_rm ?s)) (ts_required_resources spec)"
    using iteration_starts_all_it_can[of "cpu_system 4" "SubmitTask (cpu_task 1 5 [])"]
    by (simp add: cpu_system_def scheduler_new_def del: handle_command.simps)
  moreover have "sy_pending ?s = [cpu_task 1 5 []]"
    by (simp add: loop_iteration_def submit_command_def try_start_def try_allocate_def cpu_system_def
        scheduler_new_def rm_new_def cpu_task_def f64_of_nat_cmp set_status_def)
  ultimately show ?thesis by simp
qed

text \<open>
  C33. What the status of a task says, in every reachable state: an identifier without a status is not in the queue and
  no task with it was ever started; a pending one is in the queue; a running one was started; a cancelled one is not in the
  queue. No other status is ever recorded: the event loop does not learn that a task finished or
  failed, so a task that has ended is reported as running for ever.
\<close>

theorem task_status_meaning:
  assumes "(sys_step P)\<^sup>*\<^sup>* (scheduler_new rm ex store pool) s"
  shows "case hm_get (sy_statuses s) tid of
      None \<Rightarrow> tid \<notin> queued_ids s \<and> runs_of tid s = []
    | Some TS_Pending \<Rightarrow> tid \<in> queued_ids s
    | Some TS_Running \<Rightarrow> runs_of tid s \<noteq> []
    | Some TS_Cancelled \<Rightarrow> tid \<notin> queued_ids s
    | Some _ \<Rightarrow> False"
proof -
  have "status_sound tid (scheduler_new rm ex store pool)"
    by (simp add: status_sound_def scheduler_new_def queued_ids_def runs_of_def)
  from sys_steps_sound[OF assms this] show ?thesis by (simp add: status_sound_def)
qed

theorem task_status_meaning_witness:
  "let s = loop_step (snd (send_command (SubmitTask (cpu_task 1 1 [])) (cpu_system 4)));
       tid = ts_task_id (cpu_task 1 1 [])
   in hm_get (sy_statuses s) tid = Some TS_Running \<and> runs_of tid s \<noteq> []"
proof -
  let ?s1 = "snd (send_command (SubmitTask (cpu_task 1 1 [])) (cpu_system 4))" and ?tid = "ts_task_id (cpu_task 1 1 [])"
  have "sys_step (\<lambda>_. True) (cpu_system 4) ?s1" by (rule sys_step.send) simp
  then have "(sys_step (\<lambda>_. True))\<^sup>*\<^sup>* (cpu_system 4) (loop_step ?s1)"
    by (meson converse_rtranclp_into_rtranclp r_into_rtranclp sys_step.loop)
  note main = task_status_meaning[OF this[unfolded cpu_system_def], of ?tid, folded cpu_system_def]
  have "hm_get (sy_statuses (loop_step ?s1)) ?tid = Some TS_Running"
    by (simp add: loop_step_def send_command_def cpu_system_def scheduler_new_def begin_drain_def
        submit_command_def try_start_def try_allocate_def rm_new_def cpu_task_def f64_of_nat_cmp
        dispatch_task_def set_status_def)
  with main show ?thesis unfolding Let_def by simp
qed

text \<open>
  C19. Cancellation of a task the loop knows: once the loop has handled it, and as long as no
  client submits the same identifier again, the status stays cancelled, the task is nowhere in
  the queue, and it is not dispatched any more, whatever is released and interleaved.
\<close>

theorem cancelled_task_stays_cancelled:
  assumes "sy_loop s = LoopRecv" "sy_channel s = CancelTask tid # rest"
    and "hm_get (sy_statuses s) tid \<noteq> None"
    and "\<forall>spec\<in>set (submitted rest). ts_task_id spec \<noteq> tid"
    and "(sys_step (\<lambda>spec. ts_task_id spec \<noteq> tid))\<^sup>*\<^sup>* (loop_step s) s'"
  shows "hm_get (sy_statuses s') tid = Some TS_Cancelled \<and> runs_of tid s' = runs_of tid s
    \<and> (\<forall>spec\<in>set (waiting s'). ts_task_id spec \<noteq> tid)"
proof -
  have "cancelled tid (runs_of tid s) (loop_step s)"
    using assms(1-4)
    by (auto simp: cancelled_def loop_step_def begin_drain_def cancel_command_def waiting_def runs_of_def)
  from sys_steps_cancelled[OF assms(5) this] show ?thesis by (simp add: cancelled_def)
qed

theorem cancelled_task_stays_cancelled_witness:
  "let s = (cpu_system 1)\<lparr>sy_statuses := [(id_default, TS_Pending)], sy_channel := [CancelTask id_default]\<rparr>
   in hm_get (sy_statuses (loop_step (loop_step s))) id_default = Some TS_Cancelled"
proof -
  let ?s = "(cpu_system 1)\<lparr>sy_statuses := [(id_default, TS_Pending)], sy_channel := [CancelTask id_default]\<rparr>"
  have loop: "sy_loop ?s = LoopRecv" by (simp add: cpu_system_def scheduler_new_def)
  have ch: "sy_channel ?s = CancelTask id_default # []" by simp
  have st: "hm_get (sy_statuses ?s) id_default \<noteq> None" by (simp add: hm_get_def)
  have "(sys_step (\<lambda>spec. ts_task_id spec \<noteq> id_default))\<^sup>*\<^sup>* (loop_step ?s) (loop_step (loop_step ?s))"
    by (rule r_into_rtranclp) (rule sys_step.loop)
  moreover have "\<forall>spec\<in>set (submitted []). ts_task_id spec \<noteq> id_default" by simp
  ultimately show ?thesis
    unfolding Let_def using cancelled_task_stays_cancelled[OF loop ch st] by blast
qed

end
