(* ===== verification/Scheduler_Runs.thy ===== *)
theory Scheduler_Runs
  imports Local_Scheduler
begin

text \<open>
  Runs of the local scheduler. The first part shows that the atomic steps of a background task,
  taken without interference, compute the whole task (\<open>run_task\<close>), and follows a task from
  its submission to its result. The second part is about any interleaving: a task in progress
  is never stuck, and each of its steps makes a bound on the work left smaller, which is computed
  from the program counters.
\<close>

section \<open>One task, alone\<close>

definition set_pc :: "nat \<Rightarrow> dispatch_pc \<Rightarrow> System \<Rightarrow> System" where
  "set_pc i pc s = s\<lparr>sy_tasks := (sy_tasks s)[i := (sy_tasks s ! i)\<lparr>d_pc := pc\<rparr>]\<rparr>"

definition shared :: "System \<Rightarrow> ResourceManager \<times> InMemoryObjectStore \<times> WorkerPool" where
  "shared s = (sy_rm s, sy_store s, sy_pool s)"

definition with_shared :: "System \<Rightarrow> ResourceManager \<times> InMemoryObjectStore \<times> WorkerPool \<Rightarrow> System" where
  "with_shared s sh = (case sh of (rm, store, pool) \<Rightarrow> s\<lparr>sy_rm := rm, sy_store := store, sy_pool := pool\<rparr>)"

lemma advance_task_set_pc:
  "advance_task wid pid now spec pc (set_pc i pc' s) =
     map_prod id (set_pc i pc') (advance_task wid pid now spec pc s)"
  by (auto simp: advance_task_def set_pc_def Let_def split_beta
      split: dispatch_pc.splits get_pc.splits put_pc.splits ret_pc.splits)

lemma set_pc_set_pc [simp]: "i < length (sy_tasks s) \<Longrightarrow> set_pc i pc (set_pc i pc' s) = set_pc i pc s"
  by (simp add: set_pc_def)

lemma task_step_set_pc:
  assumes "i < length (sy_tasks s)" "spec = d_spec (sy_tasks s ! i)"
  shows "task_step wid pid now i (set_pc i pc s) =
    (case advance_task wid pid now spec pc s of (pc', s') \<Rightarrow> set_pc i pc' s')"
proof -
  obtain pc' s' where a: "advance_task wid pid now spec pc s = (pc', s')" by force
  have t: "sy_tasks s' = sy_tasks s" using advance_task_frame(5)[of wid pid now spec pc s] a by simp
  have "task_step wid pid now i (set_pc i pc s) = set_pc i pc' (set_pc i pc s')"
    using assms a t advance_task_set_pc[of wid pid now spec pc i pc s]
    by (simp add: task_step_def Let_def set_pc_def)
  with a t assms(1) show ?thesis by simp
qed

text \<open>Reaching a configuration by steps of one background task.\<close>

definition runs_to :: "WorkerId \<Rightarrow> u32 \<Rightarrow> nat \<Rightarrow> nat \<Rightarrow> System \<Rightarrow> System \<Rightarrow> bool" where
  "runs_to wid pid now i s s' \<longleftrightarrow> (\<exists>k. (task_step wid pid now i ^^ k) s = s')"

lemma runs_to_refl: "runs_to wid pid now i s s"
  unfolding runs_to_def by (rule exI[of _ 0]) simp

lemma runs_to_step:
  "runs_to wid pid now i (task_step wid pid now i s) s' \<Longrightarrow> runs_to wid pid now i s s'"
  unfolding runs_to_def by (metis funpow_Suc_right comp_apply)

lemma runs_to_trans:
  "runs_to wid pid now i s s1 \<Longrightarrow> runs_to wid pid now i s1 s2 \<Longrightarrow> runs_to wid pid now i s s2"
  unfolding runs_to_def by (metis funpow_add comp_apply)

lemma runs_to_advance:
  assumes "i < length (sy_tasks s)"
    and "advance_task wid pid now (d_spec (sy_tasks s ! i)) pc s = (pc', s1)"
    and "runs_to wid pid now i (set_pc i pc' s1) s'"
  shows "runs_to wid pid now i (set_pc i pc s) s'"
  by (rule runs_to_step) (use assms task_step_set_pc[OF assms(1) refl] in simp)

lemma pool_update_id: "sy_pool s = p \<Longrightarrow> s\<lparr>sy_pool := p\<rparr> = s"
  by (cases s) simp

lemma store_update_id: "sy_store s = st \<Longrightarrow> s\<lparr>sy_store := st\<rparr> = s"
  by (cases s) simp

lemma runs_get:
  assumes "i < length (sy_tasks s)" "(get_step wid pid ^^ n) (c, sy_pool s) = (GetDone w, p)"
  shows "runs_to wid pid now i (set_pc i (DGet c) s) (set_pc i (DGet (GetDone w)) (s\<lparr>sy_pool := p\<rparr>))"
  using assms
proof (induction n arbitrary: c s)
  case 0
  then show ?case by (simp add: runs_to_refl pool_update_id)
next
  case (Suc n)
  show ?case
  proof (cases "\<exists>w'. c = GetDone w'")
    case True
    with Suc.prems(2) have "c = GetDone w" "p = sy_pool s" using get_done_stays[of "Suc n" wid pid] by (auto simp del: funpow.simps)
    then show ?thesis by (simp add: runs_to_refl pool_update_id)
  next
    case False
    obtain c1 p1 where g: "get_step wid pid (c, sy_pool s) = (c1, p1)" by force
    have "advance_task wid pid now spec (DGet c) s = (DGet c1, s\<lparr>sy_pool := p1\<rparr>)" for spec
      using False g by (cases c) (auto simp: advance_task_def)
    moreover have "(get_step wid pid ^^ n) (c1, sy_pool (s\<lparr>sy_pool := p1\<rparr>)) = (GetDone w, p)"
      using Suc.prems(2) g by (simp add: funpow_swap1)
    ultimately show ?thesis
      using Suc.IH[of "s\<lparr>sy_pool := p1\<rparr>" c1] Suc.prems(1) runs_to_advance by force
  qed
qed

lemma runs_put:
  assumes "i < length (sy_tasks s)" "(put_step ^^ n) (c, sy_store s) = (c', st)" "pc_at c' = PutDone r"
  shows "\<exists>c''. pc_at c'' = PutDone r \<and>
    runs_to wid pid now i (set_pc i (DPut w c) s) (set_pc i (DPut w c'') (s\<lparr>sy_store := st\<rparr>))"
  using assms
proof (induction n arbitrary: c s)
  case 0
  then have "runs_to wid pid now i (set_pc i (DPut w c) s) (set_pc i (DPut w c') (s\<lparr>sy_store := st\<rparr>))"
    by (simp add: runs_to_refl store_update_id)
  with 0 show ?case by blast
next
  case (Suc n)
  obtain c1 p1 where g: "put_step (c, sy_store s) = (c1, p1)" by force
  have n: "(put_step ^^ n) (c1, p1) = (c', st)" using Suc.prems(2) g by (simp add: funpow_swap1)
  show ?case
  proof (cases "\<exists>r'. pc_at c = PutDone r'")
    case True
    then have same: "c1 = c" "p1 = sy_store s" using g by (auto simp: put_step_def)
    show ?thesis using Suc.IH[OF Suc.prems(1)] n Suc.prems(3) same by simp
  next
    case False
    have "advance_task wid pid now spec (DPut w c) s = (DPut w c1, s\<lparr>sy_store := p1\<rparr>)" for spec
      using False g by (cases "pc_at c") (auto simp: advance_task_def)
    moreover obtain c'' where "pc_at c'' = PutDone r"
      "runs_to wid pid now i (set_pc i (DPut w c1) (s\<lparr>sy_store := p1\<rparr>)) (set_pc i (DPut w c'') (s\<lparr>sy_store := st\<rparr>))"
      using Suc.IH[of "s\<lparr>sy_store := p1\<rparr>" c1] n Suc.prems(1,3) by auto
    ultimately show ?thesis using runs_to_advance[OF Suc.prems(1)] by blast
  qed
qed

lemma runs_return:
  assumes "i < length (sy_tasks s)" "wp_readers (sy_pool s) = 0"
  shows "runs_to wid pid now i (set_pc i (DReturn a RetCheck) s)
    (set_pc i DRelease (s\<lparr>sy_pool := return_worker a (sy_pool s)\<rparr>))"
proof -
  let ?s = "s\<lparr>sy_pool := return_worker a (sy_pool s)\<rparr>"
  let ?mid = "if is_dead (wp_heap (sy_pool s) ! a) then RetWrite else RetStore"
  have adv: "advance_task wid pid now spec (DReturn a RetCheck) s = (DReturn a ?mid, s)"
    "advance_task wid pid now spec (DReturn a ?mid) s = (DReturn a RetDone, ?s)"
    "advance_task wid pid now spec (DReturn a RetDone) ?s = (DRelease, ?s)" for spec
    using assms(2) by (auto simp: advance_task_def return_worker_def pool_update_id)
  have "runs_to wid pid now i (set_pc i (DReturn a RetDone) ?s) (set_pc i DRelease ?s)"
    by (rule runs_to_advance[OF _ adv(3) runs_to_refl]) (simp add: assms(1))
  then have "runs_to wid pid now i (set_pc i (DReturn a ?mid) s) (set_pc i DRelease ?s)"
    by (rule runs_to_advance[OF assms(1) adv(2)])
  then show ?thesis by (rule runs_to_advance[OF assms(1) adv(1)])
qed

lemma readers_get_write [simp]: "wp_readers (snd (get_worker_write wid pid p)) = wp_readers p"
  by (auto simp: get_worker_write_def push_worker_eq split: option.splits)

lemma readers_get_worker [simp]: "wp_readers (snd (get_worker wid pid p)) = wp_readers p"
  by (auto simp: get_worker_def split: option.splits)

lemma runs_finish:
  assumes "i < length (sy_tasks s)" "wp_readers (sy_pool s) = 0"
  shows "runs_to wid pid now i (set_pc i (finish_with w) s)
    (set_pc i DDone (s\<lparr>sy_pool := (case w of Some a \<Rightarrow> return_worker a (sy_pool s) | None \<Rightarrow> sy_pool s),
       sy_rm := rm_release (ts_required_resources (d_spec (sy_tasks s ! i))) (sy_rm s)\<rparr>))"
proof -
  let ?s = "s\<lparr>sy_pool := (case w of Some a \<Rightarrow> return_worker a (sy_pool s) | None \<Rightarrow> sy_pool s)\<rparr>"
  have "runs_to wid pid now i (set_pc i (finish_with w) s) (set_pc i DRelease ?s)"
    using runs_return[OF assms] by (cases w) (simp_all add: finish_with_def runs_to_refl pool_update_id)
  moreover have "runs_to wid pid now i (set_pc i DRelease ?s)
      (set_pc i DDone (?s\<lparr>sy_rm := rm_release (ts_required_resources (d_spec (sy_tasks s ! i))) (sy_rm s)\<rparr>))"
    by (rule runs_to_advance[OF _ _ runs_to_refl]) (use assms(1) in \<open>simp_all add: advance_task_def\<close>)
  ultimately show ?thesis by (auto intro: runs_to_trans)
qed

lemma runs_execute:
  assumes "i < length (sy_tasks s)" "wp_readers (sy_pool s) = 0" "spec = d_spec (sy_tasks s ! i)"
  shows "runs_to wid pid now i (set_pc i (DExecute w) s)
    (set_pc i DDone (s\<lparr>sy_store := (case execute (sy_executor s) spec of
            Inr data \<Rightarrow> (case ts_return_ids spec of
                return_id # _ \<Rightarrow> snd (os_put now return_id data (sy_store s)) | [] \<Rightarrow> sy_store s)
          | Inl e \<Rightarrow> sy_store s),
       sy_pool := (case w of Some a \<Rightarrow> return_worker a (sy_pool s) | None \<Rightarrow> sy_pool s),
       sy_rm := rm_release (ts_required_resources spec) (sy_rm s)\<rparr>))"
proof -
  have step: "runs_to wid pid now i (set_pc i (DExecute w) s) s'"
    if "runs_to wid pid now i (set_pc i (after_execute now spec w (execute (sy_executor s) spec)) s) s'" for s'
    by (rule runs_to_advance[OF assms(1) _ that]) (simp add: advance_task_def assms(3))
  note fin = runs_finish[OF assms(1,2), of wid pid now w, folded assms(3)]
  show ?thesis
  proof (cases "\<exists>data rid rs. execute (sy_executor s) spec = Inr data \<and> ts_return_ids spec = rid # rs")
    case True
    then obtain data rid rs where x: "execute (sy_executor s) spec = Inr data" "ts_return_ids spec = rid # rs" by blast
    let ?s = "s\<lparr>sy_store := snd (os_put now rid data (sy_store s))\<rparr>"
    obtain c where c: "pc_at c = PutDone (fst (os_put now rid data (sy_store s)))"
      "runs_to wid pid now i (set_pc i (DPut w (put_begin now rid data)) s) (set_pc i (DPut w c) ?s)"
      using runs_put[OF assms(1) put_runs] by force
    have put_done: "runs_to wid pid now i (set_pc i (DPut w c) ?s) (set_pc i (finish_with w) ?s)"
      by (rule runs_to_advance[OF _ _ runs_to_refl]) (use assms(1) c(1) in \<open>simp_all add: advance_task_def\<close>)
    have "i < length (sy_tasks ?s)" "wp_readers (sy_pool ?s) = 0" using assms by simp_all
    from runs_to_trans[OF c(2) runs_to_trans[OF put_done runs_finish[OF this, of wid pid now w]]] show ?thesis
      by (intro step) (simp add: after_execute_def x assms(3)[symmetric] cong: option.case_cong)
  next
    case False
    then have "after_execute now spec w (execute (sy_executor s) spec) = finish_with w"
      by (auto simp: after_execute_def split: sum.split list.split)
    moreover have "s\<lparr>sy_store := (case execute (sy_executor s) spec of
            Inr data \<Rightarrow> (case ts_return_ids spec of
                return_id # _ \<Rightarrow> snd (os_put now return_id data (sy_store s)) | [] \<Rightarrow> sy_store s)
          | Inl e \<Rightarrow> sy_store s)\<rparr> = s"
      using False by (intro store_update_id) (auto split: sum.split list.split)
    ultimately show ?thesis using fin by (intro step) simp
  qed
qed

lemma runs_task:
  assumes "i < length (sy_tasks s)" "wp_readers (sy_pool s) = 0"
  shows "runs_to wid pid now i (set_pc i (DGet GetRead) s)
    (set_pc i DDone (with_shared s (run_task wid pid now (sy_executor s) (d_spec (sy_tasks s ! i)) (shared s))))"
proof -
  obtain w p where g: "get_worker wid pid (sy_pool s) = (w, p)" by force
  let ?s = "s\<lparr>sy_pool := p\<rparr>"
  have "wp_readers p = 0" using assms(2) readers_get_worker[of wid pid "sy_pool s"] g by simp
  then have "runs_to wid pid now i (set_pc i (DExecute w) ?s)
      (set_pc i DDone (with_shared s (run_task wid pid now (sy_executor s) (d_spec (sy_tasks s ! i)) (shared s))))"
    using runs_execute[of i ?s _ wid pid now w] assms(1) g
    by (cases s) (simp add: run_task_def shared_def with_shared_def Let_def
        cong: option.case_cong sum.case_cong list.case_cong)
  moreover have "runs_to wid pid now i (set_pc i (DGet (GetDone w)) ?s) (set_pc i (DExecute w) ?s)"
    by (rule runs_to_advance[OF _ _ runs_to_refl]) (use assms(1) in \<open>simp_all add: advance_task_def\<close>)
  moreover have "runs_to wid pid now i (set_pc i (DGet GetRead) s) (set_pc i (DGet (GetDone w)) ?s)"
    using get_runs[OF assms(2), of wid pid] g by (intro runs_get[OF assms(1)]) simp
  ultimately show ?thesis by (blast intro: runs_to_trans)
qed

lemma run_task_pool_held:
  assumes "wp_quiet p" "run_task wid pid now ex spec (rm, st, p) = (rm', st', p')"
  shows "wp_held p' = wp_held p"
proof -
  obtain w p1 where g: "get_worker wid pid p = (w, p1)" by force
  have q: "wp_quiet p1" using get_worker_quiet[OF assms(1), of wid pid] g by simp
  show ?thesis
    using wp_held_get[OF assms(1) g] wp_held_return[OF q] assms(2) g
    by (cases w) (auto simp: run_task_def Let_def)
qed

lemma loop_step_submit:
  assumes "sy_loop s = LoopRecv" "sy_channel s = SubmitTask spec # rest"
    and "can_satisfy (rm_available (sy_rm s)) (ts_required_resources spec)"
  shows "loop_step s = s\<lparr>sy_channel := rest, sy_statuses := hm_insert (ts_task_id spec) TS_Running (sy_statuses s),
     sy_rm := snd (try_allocate (ts_required_resources spec) (sy_rm s)),
     sy_tasks := sy_tasks s @ [\<lparr>d_spec = spec, d_pc = DGet GetRead\<rparr>],
     sy_loop := LoopDrain (sy_pending s) [], sy_pending := []\<rparr>"
  using assms
  by (cases s) (simp add: loop_step_def begin_drain_def submit_command_def try_start_def try_allocate_def
      dispatch_task_def set_status_def Let_def)

lemma loop_step_queue:
  assumes "sy_loop s = LoopRecv" "sy_channel s = SubmitTask spec # rest"
    and "\<not> can_satisfy (rm_available (sy_rm s)) (ts_required_resources spec)"
  shows "loop_step s = s\<lparr>sy_channel := rest, sy_statuses := hm_insert (ts_task_id spec) TS_Pending (sy_statuses s),
     sy_loop := LoopDrain (sy_pending s @ [spec]) [], sy_pending := []\<rparr>"
  using assms
  by (cases s) (simp add: loop_step_def begin_drain_def submit_command_def try_start_def try_allocate_def
      set_status_def Let_def)

lemma set_pc_id: "i < length (sy_tasks s) \<Longrightarrow> d_pc (sy_tasks s ! i) = pc \<Longrightarrow> set_pc i pc s = s"
  by (cases s; cases "sy_tasks s ! i") (simp add: set_pc_def list_update_same_conv)

text \<open>What the run of a task stores: its result under the first return identifier, if it fits.\<close>

definition result_view :: "bytes RayResult \<Rightarrow> TaskSpec \<Rightarrow> InMemoryObjectStore \<Rightarrow> ObjectId \<rightharpoonup> bytes" where
  "result_view result spec store =
     (case (result, ts_return_ids spec) of
        (Inr data, return_id # _) \<Rightarrow>
          if os_max_memory_bytes store = 0 \<or> total_size store + length data \<le> os_max_memory_bytes store
          then (os_view store)(return_id \<mapsto> data) else os_view store
      | _ \<Rightarrow> os_view store)"

lemma run_task_store:
  assumes "os_inv st" "run_task wid pid now ex spec (rm, st, p) = (rm', st', p')"
  shows "os_view st' = result_view (execute ex spec) spec st"
  using assms
  by (auto simp: run_task_def Let_def result_view_def os_put_inv_eq put_check_def
      split: prod.splits sum.splits list.splits if_splits)

lemma submitted_task_runs:
  assumes "sy_loop s = LoopRecv" "sy_channel s = SubmitTask spec # rest"
    and "can_satisfy (rm_available (sy_rm s)) (ts_required_resources spec)"
    and "rm_accounts g (sy_rm s) held" "res_grid g (ts_required_resources spec)"
    and "os_inv (sy_store s)" "wp_quiet (sy_pool s)"
  shows "\<exists>k. let i = length (sy_tasks s); s1 = loop_step s; s2 = (task_step wid pid now i ^^ k) s1
    in hm_get (sy_statuses s1) (ts_task_id spec) = Some TS_Running
     \<and> d_spec (sy_tasks s1 ! i) = spec \<and> d_pc (sy_tasks s2 ! i) = DDone
     \<and> os_view (sy_store s2) = result_view (execute (sy_executor s) spec) spec (sy_store s)
     \<and> (\<forall>n. res_get (rm_available (sy_rm s2)) n = res_get (rm_available (sy_rm s)) n)
     \<and> wp_held (sy_pool s2) = wp_held (sy_pool s)"
proof -
  let ?i = "length (sy_tasks s)" and ?s1 = "loop_step s"
  note s1 = loop_step_submit[OF assms(1-3)]
  have i: "?i < length (sy_tasks ?s1)" and spec: "d_spec (sy_tasks ?s1 ! ?i) = spec" by (simp_all add: s1)
  have id: "set_pc ?i (DGet GetRead) ?s1 = ?s1" by (rule set_pc_id) (simp_all add: s1)
  obtain rm' st' p' where r: "run_task wid pid now (sy_executor s) spec (shared ?s1) = (rm', st', p')"
    by (metis prod_cases3)
  have rd: "wp_readers (sy_pool ?s1) = 0" using wp_quietD(2)[OF assms(7)] by (simp add: s1)
  have "runs_to wid pid now ?i ?s1 (set_pc ?i DDone (with_shared ?s1 (rm', st', p')))"
    using runs_task[OF i rd, of wid pid now] id r spec by (simp add: s1)
  then obtain k where k: "(task_step wid pid now ?i ^^ k) ?s1 = set_pc ?i DDone (with_shared ?s1 (rm', st', p'))"
    by (auto simp: runs_to_def)
  have sh: "run_task wid pid now (sy_executor s) spec
      (snd (try_allocate (ts_required_resources spec) (sy_rm s)), sy_store s, sy_pool s) = (rm', st', p')"
    using r by (simp add: shared_def s1)
  have "rm' = rm_release (ts_required_resources spec) (snd (try_allocate (ts_required_resources spec) (sy_rm s)))"
    using sh by (auto simp: run_task_def Let_def split: prod.splits)
  then have "res_get (rm_available rm') n = res_get (rm_available (sy_rm s)) n" for n
    using subtract_add_get[of g "rm_available (sy_rm s)" "ts_required_resources spec" n] assms(3-5)
    by (simp add: rm_accounts_def rm_release_def try_allocate_def)
  moreover have "os_view st' = result_view (execute (sy_executor s) spec) spec (sy_store s)"
    using run_task_store[OF assms(6) sh] .
  moreover have "wp_held p' = wp_held (sy_pool s)" using run_task_pool_held[OF assms(7) sh] .
  ultimately show ?thesis
    by (intro exI[of _ k]) (simp add: Let_def k, simp add: set_pc_def with_shared_def s1)
qed

section \<open>Properties of a single task\<close>

text \<open>
  From submission to result: a task whose resources are available is dispatched by the
  iteration that receives it; its background task then runs to its end in finitely many of its
  own steps; the object store then holds its result under the first return identifier (if it
  succeeded and fits), every resource is as available as before the submission, and no worker
  stays busy with it.
\<close>

lemma submit_runs_to_result:
  assumes "sy_loop s = LoopRecv" "sy_channel s = SubmitTask spec # rest"
    and "can_satisfy (rm_available (sy_rm s)) (ts_required_resources spec)"
    and "rm_accounts g (sy_rm s) held" "res_grid g (ts_required_resources spec)"
    and "os_inv (sy_store s)" "wp_quiet (sy_pool s)"
  shows "\<exists>k. let i = length (sy_tasks s); s1 = loop_step s; s2 = (task_step wid pid now i ^^ k) s1
    in hm_get (sy_statuses s1) (ts_task_id spec) = Some TS_Running
     \<and> d_spec (sy_tasks s1 ! i) = spec \<and> d_pc (sy_tasks s2 ! i) = DDone
     \<and> os_view (sy_store s2) = result_view (execute (sy_executor s) spec) spec (sy_store s)
     \<and> (\<forall>n. res_get (rm_available (sy_rm s2)) n = res_get (rm_available (sy_rm s)) n)
     \<and> wp_held (sy_pool s2) = wp_held (sy_pool s)"
  by (rule submitted_task_runs[OF assms])

section \<open>A queue that is not woken\<close>

lemma loop_step_drain_refused:
  assumes "sy_loop s = LoopDrain (spec # rest) still"
    and "\<not> can_satisfy (rm_available (sy_rm s)) (ts_required_resources spec)"
  shows "loop_step s = s\<lparr>sy_loop := LoopDrain rest (still @ [spec])\<rparr>"
  using assms by (simp add: loop_step_def try_start_def try_allocate_def)

lemma loop_step_drain_end:
  "sy_loop s = LoopDrain [] still \<Longrightarrow> loop_step s = s\<lparr>sy_pending := still, sy_loop := LoopRecv\<rparr>"
  by (simp add: loop_step_def)

lemma runs_to_sys_steps:
  assumes "runs_to wid pid now i s s'" shows "(sys_step P)\<^sup>*\<^sup>* s s'"
proof -
  obtain k where "(task_step wid pid now i ^^ k) s = s'" using assms by (auto simp: runs_to_def)
  moreover have "(sys_step P)\<^sup>*\<^sup>* s ((task_step wid pid now i ^^ k) s)"
    by (induction k) (auto intro: rtranclp.rtrancl_into_rtrancl sys_step.task)
  ultimately show ?thesis by simp
qed

lemma funpow_5: "(f ^^ 5) x = f (f (f (f (f x))))"
  by (simp add: eval_nat_numeral)

lemma cpu_exhausted:
  "\<not> can_satisfy (res_subtract (res_set resources_new ''CPU'' (f64_of_nat 1)) (res_set resources_new ''CPU'' (f64_of_nat 1)))
     (res_set resources_new ''CPU'' (f64_of_nat 1))"
proof -
  let ?r = "res_set resources_new ''CPU'' (f64_of_nat 1)"
  have g: "res_grid 1074 ?r" by simp
  have cs: "can_satisfy ?r ?r" by (simp add: f64_of_nat_cmp)
  have "res_units (res_subtract ?r ?r) ''CPU'' = 0" using res_units_subtract[OF g g cs, of "''CPU''"] by simp
  moreover have "0 < res_units ?r ''CPU''" by (simp add: res_units_def f64_of_nat_Fin)
  ultimately show ?thesis
    using can_satisfy_grid[OF res_grid_subtract[OF g g cs] g] by (metis not_le)
qed

lemma can_satisfy_cong:
  assumes "\<And>n. res_get r n = res_get r' n" shows "can_satisfy r req = can_satisfy r' req"
  by (simp add: can_satisfy_def can_satisfy_loop_iff assms)

lemma task_step_done:
  "(\<And>d. d \<in> set (sy_tasks s) \<Longrightarrow> d_pc d = DDone) \<Longrightarrow> task_step wid pid now i s = s"
  using set_pc_id[of i s DDone] task_step_out[of i s wid pid now]
  by (cases "i < length (sy_tasks s)") (auto simp: task_step_def advance_task_def set_pc_def)

text \<open>On one CPU, after two one-CPU tasks were submitted: the first is about to run, the second is queued.\<close>

lemma blocked_queue:
  "\<exists>s. (sys_step (\<lambda>spec. res_grid 1074 (ts_required_resources spec)))\<^sup>*\<^sup>* (cpu_system 1) s
     \<and> sy_channel s = [] \<and> sy_pending s = [cpu_task 2 1 []] \<and> sy_loop s = LoopRecv
     \<and> sy_tasks s = [\<lparr>d_spec = cpu_task 1 1 [], d_pc = DGet GetRead\<rparr>] \<and> \<not> sy_senders_dropped s
     \<and> wp_readers (sy_pool s) = 0 \<and> \<not> can_satisfy (rm_available (sy_rm s)) (ts_required_resources (cpu_task 2 1 []))"
proof -
  let ?P = "\<lambda>spec. res_grid 1074 (ts_required_resources spec)"
  let ?r = "res_set resources_new ''CPU'' (f64_of_nat 1)"
  let ?a = "cpu_task 1 1 []" and ?b = "cpu_task 2 1 []"
  have req: "ts_required_resources ?a = ?r" "ts_required_resources ?b = ?r" by (simp_all add: cpu_task_def)
  have fit: "can_satisfy ?r ?r" by (simp add: f64_of_nat_cmp)
  let ?s0 = "cpu_system 1"
  let ?s1 = "snd (send_command (SubmitTask ?b) (snd (send_command (SubmitTask ?a) ?s0)))"
  have s1: "?s1 = ?s0\<lparr>sy_channel := [SubmitTask ?a, SubmitTask ?b]\<rparr>"
    by (simp add: send_command_def cpu_system_def scheduler_new_def)
  have "sys_step ?P ?s0 (snd (send_command (SubmitTask ?a) ?s0))"
    "sys_step ?P (snd (send_command (SubmitTask ?a) ?s0)) ?s1"
    by (rule sys_step.send; simp add: cpu_task_def)+
  then have r1: "(sys_step ?P)\<^sup>*\<^sup>* ?s0 ?s1" by (meson converse_rtranclp_into_rtranclp r_into_rtranclp)
  have steps: "(sys_step ?P)\<^sup>*\<^sup>* s ((loop_step ^^ n) s)" for s n
    by (induction n) (auto intro: rtranclp.rtrancl_into_rtrancl sys_step.loop)
  have run: "(loop_step ^^ 5) ?s1 = ?s1\<lparr>sy_channel := [], sy_pending := [?b], sy_loop := LoopRecv,
      sy_statuses := hm_insert (ts_task_id ?b) TS_Pending (hm_insert (ts_task_id ?a) TS_Running []),
      sy_rm := (rm_new ?r)\<lparr>rm_available := res_subtract ?r ?r\<rparr>,
      sy_tasks := [\<lparr>d_spec = ?a, d_pc = DGet GetRead\<rparr>]\<rparr>"
    unfolding s1 funpow_5 using fit cpu_exhausted
    by (simp add: loop_step_submit loop_step_queue loop_step_drain_refused loop_step_drain_end
        req cpu_system_def scheduler_new_def rm_new_def try_allocate_def del: One_nat_def can_satisfy_single)
  have "(sys_step ?P)\<^sup>*\<^sup>* ?s0 ((loop_step ^^ 5) ?s1)" using r1 steps[of ?s1 5] by (rule rtranclp_trans)
  moreover obtain s2 where "(loop_step ^^ 5) ?s1 = s2" "sy_channel s2 = []" "sy_pending s2 = [?b]"
    "sy_loop s2 = LoopRecv" "sy_tasks s2 = [\<lparr>d_spec = ?a, d_pc = DGet GetRead\<rparr>]" "\<not> sy_senders_dropped s2"
    "wp_readers (sy_pool s2) = 0" "rm_available (sy_rm s2) = res_subtract ?r ?r"
    unfolding run by (simp add: send_command_def cpu_system_def scheduler_new_def wp_new_def)
  ultimately show ?thesis using cpu_exhausted req(2) by metis
qed

lemma starved_queue:
  "\<exists>s. (sys_step (\<lambda>spec. res_grid 1074 (ts_required_resources spec)))\<^sup>*\<^sup>* (cpu_system 1) s
     \<and> sy_pending s = [cpu_task 2 1 []] \<and> live_tasks s = [] \<and> \<not> sy_senders_dropped s
     \<and> can_satisfy (rm_available (sy_rm s)) (ts_required_resources (cpu_task 2 1 []))
     \<and> loop_step s = s \<and> (\<forall>wid pid now i. task_step wid pid now i s = s)"
proof -
  let ?P = "\<lambda>spec. res_grid 1074 (ts_required_resources spec)"
  let ?r = "res_set resources_new ''CPU'' (f64_of_nat 1)" and ?s0 = "cpu_system 1"
  let ?a = "cpu_task 1 1 []" and ?b = "cpu_task 2 1 []"
  have req: "ts_required_resources ?b = ?r" and fit: "can_satisfy ?r ?r" by (simp_all add: cpu_task_def f64_of_nat_cmp)
  obtain s2 where s2: "(sys_step ?P)\<^sup>*\<^sup>* ?s0 s2" "sy_channel s2 = []" "sy_pending s2 = [?b]"
    "sy_loop s2 = LoopRecv" "sy_tasks s2 = [\<lparr>d_spec = ?a, d_pc = DGet GetRead\<rparr>]" "\<not> sy_senders_dropped s2"
    "wp_readers (sy_pool s2) = 0"
    using blocked_queue by blast
  obtain s3 sh where s3: "s3 = set_pc 0 DDone (with_shared s2 sh)" "runs_to id_default 7 0 0 s2 s3"
    using runs_task[of 0 s2 id_default 7 0] set_pc_id[of 0 s2 "DGet GetRead"] s2(5,7) by simp
  have reach: "(sys_step ?P)\<^sup>*\<^sup>* ?s0 s3" using s2(1) runs_to_sys_steps[OF s3(2), of ?P] by (rule rtranclp_trans)
  have s3_fields: "sy_pending s3 = [?b]" "sy_loop s3 = LoopRecv" "sy_channel s3 = []"
    "\<not> sy_senders_dropped s3" "sy_tasks s3 = [\<lparr>d_spec = ?a, d_pc = DDone\<rparr>]"
    using s2 by (simp_all add: s3(1) set_pc_def with_shared_def split: prod.splits)
  have live: "live_tasks s3 = []" by (simp add: live_tasks_def s3_fields)
  have "sys_accounts 1074 {#} ?s0" unfolding cpu_system_def by (rule sys_accounts_new) simp
  note idle = sys_accounts_idle[OF sys_steps_accounts[OF reach this] live]
  have "rm_total (sy_rm s3) = ?r"
    using sys_steps_rm_total[OF reach] by (simp add: cpu_system_def scheduler_new_def rm_new_def)
  then have "can_satisfy (rm_available (sy_rm s3)) ?r" using can_satisfy_cong[OF idle, of ?r] fit by metis
  moreover have "loop_step s3 = s3" by (simp add: loop_step_def s3_fields)
  moreover have "task_step wid pid now i s3 = s3" for wid pid now i
    by (rule task_step_done) (simp add: s3_fields)
  ultimately show ?thesis using reach live s3_fields(1,4) req by metis
qed

section \<open>No background task is ever stuck\<close>

text \<open>
  \<open>remaining m pc\<close> bounds the steps a task has left, on a pool of at most \<open>m\<close> workers. A step
  either leaves the state as it is, when it waits for the write lock, or makes the sum smaller.
\<close>

definition reading :: "dispatch_pc \<Rightarrow> bool" where
  "reading pc = (case pc of DGet (GetScan _) \<Rightarrow> True | DGet (GetStore _) \<Rightarrow> True | _ \<Rightarrow> False)"

definition remaining :: "nat \<Rightarrow> dispatch_pc \<Rightarrow> nat" where
  "remaining m pc =
     (case pc of
        DGet GetRead \<Rightarrow> 14 + m
      | DGet (GetScan ws) \<Rightarrow> 13 + length ws
      | DGet (GetStore _) \<Rightarrow> 12
      | DGet GetWrite \<Rightarrow> 12
      | DGet (GetDone _) \<Rightarrow> 11
      | DExecute _ \<Rightarrow> 10
      | DPut _ c \<Rightarrow> (case pc_at c of PutStart \<Rightarrow> 9 | PutEvict \<Rightarrow> 8 | PutRecheck \<Rightarrow> 7 | PutInsert \<Rightarrow> 6 | PutDone _ \<Rightarrow> 5)
      | DReturn _ RetCheck \<Rightarrow> 4
      | DReturn _ RetDone \<Rightarrow> 2
      | DReturn _ _ \<Rightarrow> 3
      | DRelease \<Rightarrow> 1
      | DDone \<Rightarrow> 0)"

definition work_left :: "System \<Rightarrow> nat" where
  "work_left s = sum_list (map (\<lambda>d. remaining (wp_max_workers (sy_pool s)) (d_pc d)) (sy_tasks s))"

definition locks_ok :: "System \<Rightarrow> bool" where
  "locks_ok s \<longleftrightarrow>
     wp_inv (sy_pool s) \<and> os_inv (sy_store s) \<and>
     wp_readers (sy_pool s) = length (filter (\<lambda>d. reading (d_pc d)) (sy_tasks s))"

definition blocked :: "dispatch_pc \<Rightarrow> System \<Rightarrow> bool" where
  "blocked pc s \<longleftrightarrow> pc = DDone \<or>
     (0 < wp_readers (sy_pool s) \<and> (pc = DGet GetWrite \<or> (\<exists>a. pc = DReturn a RetWrite)))"

lemma remaining_finish: "remaining m (finish_with w) \<le> 4" "\<not> reading (finish_with w)"
  by (auto simp: finish_with_def remaining_def reading_def split: option.splits)

lemma get_step_work:
  assumes "wp_inv p" "get_step wid pid (c, p) = (c', p')" "\<not> (\<exists>w. c = GetDone w)"
    and "\<not> (c = GetWrite \<and> 0 < wp_readers p)"
    and "reading (DGet c) \<Longrightarrow> 0 < wp_readers p"
  shows "remaining (wp_max_workers p) (DGet c') < remaining (wp_max_workers p) (DGet c)"
    and "wp_readers p' + of_bool (reading (DGet c)) = wp_readers p + of_bool (reading (DGet c'))"
proof -
  have "length (wp_workers p) \<le> wp_max_workers p" using assms(1) by (simp add: wp_inv_def)
  with assms show "remaining (wp_max_workers p) (DGet c') < remaining (wp_max_workers p) (DGet c)"
    by (cases "(wid, pid, (c, p))" rule: get_step.cases) (auto simp: remaining_def split: prod.splits)
  have "wp_readers (snd (get_worker_write wid pid p)) = wp_readers p" by simp
  with assms show "wp_readers p' + of_bool (reading (DGet c)) = wp_readers p + of_bool (reading (DGet c'))"
    by (cases "(wid, pid, (c, p))" rule: get_step.cases)
       (auto simp: reading_def split: prod.splits simp del: readers_get_write)
qed

lemma ret_step_work:
  assumes "ret_step a (c, p) = (c', p')" "c \<noteq> RetDone" "\<not> (c = RetWrite \<and> 0 < wp_readers p)"
  shows "remaining m (DReturn a c') < remaining m (DReturn a c)" "wp_readers p' = wp_readers p"
  using assms by (cases c; auto simp: remaining_def retain_live_def)+

lemma put_step_work:
  "put_step (c, st) = (c', st') \<Longrightarrow> \<not> (\<exists>r. pc_at c = PutDone r) \<Longrightarrow>
   remaining m (DPut w c') < remaining m (DPut w c)"
  by (cases "pc_at c") (auto simp: put_step_def remaining_def)

lemma blocked_no_step: "blocked pc s \<Longrightarrow> advance_task wid pid now spec pc s = (pc, s)"
  by (auto simp: blocked_def advance_task_def pool_update_id)

lemma after_execute_work: "remaining m (after_execute now spec w r) < 10" "\<not> reading (after_execute now spec w r)"
proof -
  have "remaining m (finish_with w) < 10" using remaining_finish(1)[of m w] by simp
  then show "remaining m (after_execute now spec w r) < 10"
    by (auto simp: after_execute_def remaining_def put_begin_def split: sum.splits list.splits)
  show "\<not> reading (after_execute now spec w r)"
    using remaining_finish(2)[of w] by (auto simp: after_execute_def reading_def split: sum.splits list.splits)
qed

text \<open>A step that is not blocked leaves less to do, and keeps count of the readers of the pool.\<close>

definition task_progress :: "dispatch_pc \<Rightarrow> System \<Rightarrow> dispatch_pc \<times> System \<Rightarrow> bool" where
  "task_progress pc s r \<longleftrightarrow>
     remaining (wp_max_workers (sy_pool s)) (fst r) < remaining (wp_max_workers (sy_pool s)) pc \<and>
     wp_readers (sy_pool (snd r)) + of_bool (reading pc) = wp_readers (sy_pool s) + of_bool (reading (fst r)) \<and>
     wp_inv (sy_pool (snd r)) \<and> os_inv (sy_store (snd r)) \<and> wp_max_workers (sy_pool (snd r)) = wp_max_workers (sy_pool s)"

lemma advance_get_work:
  assumes "wp_inv (sy_pool s)" "os_inv (sy_store s)" "reading (DGet c) \<Longrightarrow> 0 < wp_readers (sy_pool s)" "\<not> blocked (DGet c) s"
  shows "task_progress (DGet c) s (advance_task wid pid now spec (DGet c) s)"
proof (cases "\<exists>w. c = GetDone w")
  case True
  with assms show ?thesis by (auto simp: task_progress_def advance_task_def remaining_def reading_def)
next
  case False
  obtain c' p' where g: "get_step wid pid (c, sy_pool s) = (c', p')" by force
  with False have "advance_task wid pid now spec (DGet c) s = (DGet c', s\<lparr>sy_pool := p'\<rparr>)"
    by (cases c; auto simp: advance_task_def)
  moreover have "wp_inv p'" "wp_max_workers p' = wp_max_workers (sy_pool s)"
    using wp_inv_get_step[OF assms(1), of wid pid c] wp_max_get_step[of wid pid c "sy_pool s"] g by simp_all
  moreover have "\<not> (c = GetWrite \<and> 0 < wp_readers (sy_pool s))" using assms(4) by (auto simp: blocked_def)
  note get_step_work[OF assms(1) g False this assms(3)]
  ultimately show ?thesis using assms(2) by (simp add: task_progress_def)
qed

lemma advance_put_work:
  assumes "wp_inv (sy_pool s)" "os_inv (sy_store s)"
  shows "task_progress (DPut w c) s (advance_task wid pid now spec (DPut w c) s)"
proof (cases "\<exists>r. pc_at c = PutDone r")
  case True
  have "remaining (wp_max_workers (sy_pool s)) (finish_with w) < 5"
    using remaining_finish(1)[of "wp_max_workers (sy_pool s)" w] by simp
  with True assms remaining_finish(2)[of w] show ?thesis
    by (auto simp: task_progress_def advance_task_def remaining_def[of _ "DPut w c"] reading_def[of "DPut w c"])
next
  case False
  obtain c' st' where g: "put_step (c, sy_store s) = (c', st')" by force
  have "advance_task wid pid now spec (DPut w c) s = (DPut w c', s\<lparr>sy_store := st'\<rparr>)"
    using False g by (cases "pc_at c") (auto simp: advance_task_def)
  moreover have "os_inv st'" using put_step_inv[OF assms(2), of c] g by simp
  ultimately show ?thesis using assms(1) put_step_work[OF g False] by (simp add: task_progress_def reading_def)
qed

lemma advance_return_work:
  assumes "wp_inv (sy_pool s)" "os_inv (sy_store s)" "\<not> blocked (DReturn a c) s"
  shows "task_progress (DReturn a c) s (advance_task wid pid now spec (DReturn a c) s)"
proof (cases "c = RetDone")
  case True
  with assms show ?thesis by (auto simp: task_progress_def advance_task_def remaining_def reading_def)
next
  case False
  obtain c' p' where g: "ret_step a (c, sy_pool s) = (c', p')" by force
  with False have "advance_task wid pid now spec (DReturn a c) s = (DReturn a c', s\<lparr>sy_pool := p'\<rparr>)"
    by (cases c; auto simp: advance_task_def)
  moreover have "wp_inv p'" "wp_max_workers p' = wp_max_workers (sy_pool s)"
    using wp_inv_ret_step[OF assms(1), of a c] wp_max_ret_step[of a c "sy_pool s"] g by simp_all
  moreover have "\<not> (c = RetWrite \<and> 0 < wp_readers (sy_pool s))" using assms(3) by (auto simp: blocked_def)
  note ret_step_work[OF g False this]
  ultimately show ?thesis using assms(2) by (simp add: task_progress_def reading_def)
qed

lemma advance_task_progress:
  assumes "wp_inv (sy_pool s)" "os_inv (sy_store s)" "reading pc \<Longrightarrow> 0 < wp_readers (sy_pool s)" "\<not> blocked pc s"
  shows "task_progress pc s (advance_task wid pid now spec pc s)"
proof (cases pc)
  case (DExecute w)
  with assms after_execute_work show ?thesis
    by (auto simp: task_progress_def advance_task_def remaining_def[of _ "DExecute w"] reading_def[of "DExecute w"])
qed (use assms advance_get_work advance_put_work advance_return_work
     in \<open>auto simp: task_progress_def[of DRelease] task_progress_def[of DDone] advance_task_def[of _ _ _ _ DRelease]
          advance_task_def[of _ _ _ _ DDone] remaining_def reading_def blocked_def\<close>)

lemma advance_task_work:
  assumes "wp_inv (sy_pool s)" "os_inv (sy_store s)" "reading pc \<Longrightarrow> 0 < wp_readers (sy_pool s)"
    and "\<not> blocked pc s" "advance_task wid pid now spec pc s = (pc', s')"
  shows "remaining (wp_max_workers (sy_pool s)) pc' < remaining (wp_max_workers (sy_pool s)) pc
    \<and> wp_readers (sy_pool s') + of_bool (reading pc) = wp_readers (sy_pool s) + of_bool (reading pc')
    \<and> wp_inv (sy_pool s') \<and> os_inv (sy_store s') \<and> wp_max_workers (sy_pool s') = wp_max_workers (sy_pool s)"
  using advance_task_progress[OF assms(1-4), of wid pid now spec] assms(5) by (simp add: task_progress_def)

lemma reading_not_blocked: "reading pc \<Longrightarrow> \<not> blocked pc s"
  by (auto simp: reading_def blocked_def)

lemma locks_okD:
  assumes "locks_ok s"
  shows "wp_inv (sy_pool s)" "os_inv (sy_store s)"
    "i < length (sy_tasks s) \<Longrightarrow> reading (d_pc (sy_tasks s ! i)) \<Longrightarrow> 0 < wp_readers (sy_pool s)"
  using assms by (auto simp: locks_ok_def filter_empty_conv)

lemma task_step_blocked:
  "i < length (sy_tasks s) \<Longrightarrow> blocked (d_pc (sy_tasks s ! i)) s \<Longrightarrow> task_step wid pid now i s = s"
  using set_pc_id[of i s] by (simp add: task_step_eq blocked_no_step set_pc_def)

lemma task_step_work:
  assumes "locks_ok s" "i < length (sy_tasks s)" "\<not> blocked (d_pc (sy_tasks s ! i)) s"
  shows "locks_ok (task_step wid pid now i s)" "work_left (task_step wid pid now i s) < work_left s"
proof -
  let ?d = "sy_tasks s ! i" and ?m = "wp_max_workers (sy_pool s)"
  obtain pc' s' where a: "advance_task wid pid now (d_spec ?d) (d_pc ?d) s = (pc', s')" by force
  have t: "task_step wid pid now i s = s'\<lparr>sy_tasks := (sy_tasks s)[i := ?d\<lparr>d_pc := pc'\<rparr>]\<rparr>"
    using task_step_eq[OF assms(2)] a by simp
  note w = advance_task_work[OF locks_okD(1,2)[OF assms(1)] locks_okD(3)[OF assms(1,2)] assms(3) a]
  obtain rest where rest:
    "mset (map id (filter (\<lambda>d. reading (d_pc d)) (sy_tasks s))) = (if reading (d_pc ?d) then {#id ?d#} else {#}) + rest"
    "\<And>y. mset (map id (filter (\<lambda>d. reading (d_pc d)) ((sy_tasks s)[i := y]))) =
       (if reading (d_pc y) then {#id y#} else {#}) + rest"
    using mset_map_filter_update[OF assms(2), of id "\<lambda>d. reading (d_pc d)"] by blast
  have "length (filter (\<lambda>d. reading (d_pc d)) (sy_tasks s)) = of_bool (reading (d_pc ?d)) + size rest"
    using arg_cong[OF rest(1), of size] by (simp only: size_mset length_map size_union) simp
  moreover have "length (filter (\<lambda>d. reading (d_pc d)) ((sy_tasks s)[i := ?d\<lparr>d_pc := pc'\<rparr>])) =
      of_bool (reading pc') + size rest"
    using arg_cong[OF rest(2)[of "?d\<lparr>d_pc := pc'\<rparr>"], of size] by (simp only: size_mset length_map size_union) simp
  ultimately show "locks_ok (task_step wid pid now i s)"
    using w assms(1) by (auto simp: t locks_ok_def)
  let ?f = "\<lambda>d. remaining ?m (d_pc d)"
  have "sum_list (map ?f ((sy_tasks s)[i := ?d\<lparr>d_pc := pc'\<rparr>])) < sum_list (map ?f (sy_tasks s))"
    using conjunct1[OF w] assms(2) elem_le_sum_list[of i "map ?f (sy_tasks s)"]
    by (simp add: map_update sum_list_update less_diff_conv2)
  then show "work_left (task_step wid pid now i s) < work_left s" using w by (simp add: t work_left_def)
qed

lemma some_task_moves:
  assumes "locks_ok s" "live_tasks s \<noteq> []"
  obtains i where "i < length (sy_tasks s)" "\<not> blocked (d_pc (sy_tasks s ! i)) s"
proof (cases "wp_readers (sy_pool s) = 0")
  case True
  obtain d where "d \<in> set (sy_tasks s)" "d_pc d \<noteq> DDone"
    using assms(2) by (auto simp: live_tasks_def filter_empty_conv)
  with True that show thesis by (auto simp: in_set_conv_nth blocked_def)
next
  case False
  then obtain d where "d \<in> set (sy_tasks s)" "reading (d_pc d)"
    using assms(1) by (auto simp: locks_ok_def filter_empty_conv)
  then obtain i where "i < length (sy_tasks s)" "reading (d_pc (sy_tasks s ! i))" by (auto simp: in_set_conv_nth)
  with that reading_not_blocked show thesis by blast
qed

lemma task_step_length [simp]: "length (sy_tasks (task_step wid pid now i s)) = length (sy_tasks s)"
  by (rule map_eq_imp_length_eq[OF task_step_specs])

lemma try_start_locks:
  assumes "locks_ok s" shows "locks_ok (snd (try_start spec s))"
proof -
  have "sy_tasks (snd (try_start spec s)) = sy_tasks s \<or>
      sy_tasks (snd (try_start spec s)) = sy_tasks s @ [\<lparr>d_spec = spec, d_pc = DGet GetRead\<rparr>]"
    by (simp add: try_start_def Let_def split_beta dispatch_task_def set_status_def)
  with assms show ?thesis by (auto simp: locks_ok_def reading_def)
qed

lemma handle_command_locks: "locks_ok s \<Longrightarrow> locks_ok (handle_command cmd s)"
  using try_start_locks[of s]
  by (cases cmd)
     (auto simp: submit_command_def cancel_command_def status_command_def Let_def split_beta set_status_def locks_ok_def)

lemma loop_step_locks: "locks_ok s \<Longrightarrow> locks_ok (loop_step s)"
proof -
  assume l: "locks_ok s"
  then have "locks_ok (s\<lparr>sy_channel := rest\<rparr>)" for rest by (simp add: locks_ok_def)
  from handle_command_locks[OF this] try_start_locks[OF l] l show ?thesis
    by (auto simp: loop_step_def begin_drain_def Let_def split_beta locks_ok_def split: loop_pc.split list.split)
qed

lemma sys_step_locks: "sys_step P s s' \<Longrightarrow> locks_ok s \<Longrightarrow> locks_ok s'"
proof (induction rule: sys_step.induct)
  case (task s wid pid now i)
  then show ?case
    using task_step_work(1)[of s i wid pid now] task_step_blocked[of i s wid pid now] task_step_out[of i s wid pid now]
    by (cases "i < length (sy_tasks s)"; cases "blocked (d_pc (sy_tasks s ! i)) s") auto
next
  case (loop s)
  then show ?case by (rule loop_step_locks)
qed (auto simp: send_command_def locks_ok_def)

lemma sys_steps_locks: "(sys_step P)\<^sup>*\<^sup>* s s' \<Longrightarrow> locks_ok s \<Longrightarrow> locks_ok s'"
  by (induction rule: rtranclp_induct) (auto intro: sys_step_locks)

lemma locks_ok_new: "os_inv store \<Longrightarrow> locks_ok (scheduler_new rm ex store (wp_new n))"
  by (simp add: locks_ok_def scheduler_new_def wp_inv_new) (simp add: wp_new_def)

end
