(* ===== verification/Core_Proto_Conv.thy ===== *)
theory Core_Proto_Conv
  imports Core_Types
begin

text \<open>
  \<^verbatim>\<open>crates/ray-core/src/proto_conv.rs\<close>: conversions between the protobuf messages of
  \<^verbatim>\<open>proto/common.proto\<close> and the core types. The message structs are what \<^verbatim>\<open>prost\<close> generates from
  the \<^verbatim>\<open>.proto\<close> files: a field of message type is optional, a map field is a hash map, an enum
  field is an \<^verbatim>\<open>i32\<close>. The wire format itself is not part of the repository.
\<close>

record ProtoId =
  p_id :: bytes

record ProtoResources =
  p_resource_map :: "(string, f64) hash_map"

record ProtoAddress =
  p_ip_address :: string
  p_port :: i32
  p_addr_node_id :: "ProtoId option"
  p_addr_worker_id :: "ProtoId option"

record ProtoTaskSpec =
  pt_task_id :: "ProtoId option"
  pt_job_id :: "ProtoId option"
  pt_function_name :: string
  pt_function_payload :: bytes
  pt_return_ids :: "ProtoId list"
  pt_dependency_ids :: "ProtoId list"
  pt_required_resources :: "ProtoResources option"
  pt_caller_address :: "ProtoAddress option"
  pt_max_retries :: i32
  pt_metadata :: "(string, string) hash_map"

record ProtoActorSpec =
  pa_actor_id :: "ProtoId option"
  pa_job_id :: "ProtoId option"
  pa_class_name :: string
  pa_class_payload :: bytes
  pa_constructor_args :: bytes
  pa_required_resources :: "ProtoResources option"
  pa_max_restarts :: i32
  pa_metadata :: "(string, string) hash_map"

section \<open>Conversions\<close>

definition id_from_proto :: "ProtoId \<Rightarrow> 'n::len byte_array" where
  "id_from_proto p = from_vec (p_id p)"

definition id_to_proto :: "'n::len byte_array \<Rightarrow> ProtoId" where
  "id_to_proto c = \<lparr>p_id = to_vec c\<rparr>"

definition id_from_option :: "ProtoId option \<Rightarrow> 'n::len byte_array" where
  "id_from_option opt = (case opt of Some p \<Rightarrow> id_from_proto p | None \<Rightarrow> id_default)"

definition id_to_option :: "'n::len byte_array \<Rightarrow> ProtoId option" where
  "id_to_option core_id = Some (id_to_proto core_id)"

definition resources_from_proto :: "ProtoResources \<Rightarrow> Resources" where
  "resources_from_proto p =
     fold (\<lambda>(k, v) r. r\<lparr>res_map := hm_insert k v (res_map r)\<rparr>) (p_resource_map p) resources_new"

definition resources_from_option :: "ProtoResources option \<Rightarrow> Resources" where
  "resources_from_option opt = (case opt of Some p \<Rightarrow> resources_from_proto p | None \<Rightarrow> resources_new)"

definition resources_to_proto :: "Resources \<Rightarrow> ProtoResources" where
  "resources_to_proto r = \<lparr>p_resource_map = res_map r\<rparr>"

definition resources_to_option :: "Resources \<Rightarrow> ProtoResources option" where
  "resources_to_option r = Some (resources_to_proto r)"

definition required :: "string \<Rightarrow> 'a option \<Rightarrow> 'a RayResult" where
  "required field opt = (case opt of Some x \<Rightarrow> Inr x | None \<Rightarrow> Inl (Internal [Lit (field @ '' is required'')]))"

definition task_spec_from_proto :: "ProtoTaskSpec \<Rightarrow> TaskSpec RayResult" where
  "task_spec_from_proto p =
     (case required ''TaskSpec.task_id'' (map_option id_from_proto (pt_task_id p)) of
        Inl e \<Rightarrow> Inl e
      | Inr task_id \<Rightarrow>
     (case required ''TaskSpec.job_id'' (map_option id_from_proto (pt_job_id p)) of
        Inl e \<Rightarrow> Inl e
      | Inr job_id \<Rightarrow>
          Inr \<lparr>ts_task_id = task_id, ts_job_id = job_id, ts_function_name = pt_function_name p,
               ts_function_payload = pt_function_payload p,
               ts_return_ids = map id_from_proto (pt_return_ids p),
               ts_dependency_ids = map id_from_proto (pt_dependency_ids p),
               ts_required_resources = resources_from_option (pt_required_resources p),
               ts_max_retries = pt_max_retries p\<rparr>))"

definition task_spec_to_proto :: "TaskSpec \<Rightarrow> ProtoTaskSpec" where
  "task_spec_to_proto c =
     \<lparr>pt_task_id = id_to_option (ts_task_id c), pt_job_id = id_to_option (ts_job_id c),
      pt_function_name = ts_function_name c, pt_function_payload = ts_function_payload c,
      pt_return_ids = map id_to_proto (ts_return_ids c),
      pt_dependency_ids = map id_to_proto (ts_dependency_ids c),
      pt_required_resources = resources_to_option (ts_required_resources c),
      pt_caller_address = None, pt_max_retries = ts_max_retries c, pt_metadata = []\<rparr>"

definition actor_spec_from_proto :: "ProtoActorSpec \<Rightarrow> ActorSpec RayResult" where
  "actor_spec_from_proto p =
     (case required ''ActorSpec.actor_id'' (map_option id_from_proto (pa_actor_id p)) of
        Inl e \<Rightarrow> Inl e
      | Inr actor_id \<Rightarrow>
     (case required ''ActorSpec.job_id'' (map_option id_from_proto (pa_job_id p)) of
        Inl e \<Rightarrow> Inl e
      | Inr job_id \<Rightarrow>
          Inr \<lparr>as_actor_id = actor_id, as_job_id = job_id, as_class_name = pa_class_name p,
               as_class_payload = pa_class_payload p, as_constructor_args = pa_constructor_args p,
               as_required_resources = resources_from_option (pa_required_resources p),
               as_max_restarts = pa_max_restarts p\<rparr>))"

definition actor_spec_to_proto :: "ActorSpec \<Rightarrow> ProtoActorSpec" where
  "actor_spec_to_proto c =
     \<lparr>pa_actor_id = id_to_option (as_actor_id c), pa_job_id = id_to_option (as_job_id c),
      pa_class_name = as_class_name c, pa_class_payload = as_class_payload c,
      pa_constructor_args = as_constructor_args c,
      pa_required_resources = resources_to_option (as_required_resources c),
      pa_max_restarts = as_max_restarts c, pa_metadata = []\<rparr>"

text \<open>The enum values are those of \<^verbatim>\<open>common.proto\<close>; 0 is the unspecified value.\<close>

definition task_status_from_proto :: "i32 \<Rightarrow> TaskStatus" where
  "task_status_from_proto v =
     (if v = 1 then TS_Pending else if v = 2 then TS_Scheduled else if v = 3 then TS_Running
      else if v = 4 then TS_Finished else if v = 5 then TS_Failed else if v = 6 then TS_Cancelled
      else TS_Pending)"

fun task_status_to_proto :: "TaskStatus \<Rightarrow> i32" where
  "task_status_to_proto TS_Pending = 1"
| "task_status_to_proto TS_Scheduled = 2"
| "task_status_to_proto TS_Running = 3"
| "task_status_to_proto TS_Finished = 4"
| "task_status_to_proto TS_Failed = 5"
| "task_status_to_proto TS_Cancelled = 6"

definition actor_state_from_proto :: "i32 \<Rightarrow> ActorState" where
  "actor_state_from_proto v =
     (if v = 1 then AS_Pending else if v = 2 then AS_Alive else if v = 3 then AS_Restarting
      else if v = 4 then AS_Dead else AS_Pending)"

fun actor_state_to_proto :: "ActorState \<Rightarrow> i32" where
  "actor_state_to_proto AS_Pending = 1"
| "actor_state_to_proto AS_Alive = 2"
| "actor_state_to_proto AS_Restarting = 3"
| "actor_state_to_proto AS_Dead = 4"

record NodeInfoProtoFields =
  nf_node_id :: "ProtoId option"
  nf_address :: string
  nf_port :: i32
  nf_total_resources :: "ProtoResources option"
  nf_available_resources :: "ProtoResources option"
  nf_is_alive :: bool

definition node_info_to_proto_fields :: "NodeInfo \<Rightarrow> NodeInfoProtoFields" where
  "node_info_to_proto_fields n =
     \<lparr>nf_node_id = id_to_option (ni_node_id n), nf_address = ni_address n, nf_port = ni_port n,
      nf_total_resources = resources_to_option (ni_total_resources n),
      nf_available_resources = resources_to_option (ni_available_resources n),
      nf_is_alive = ni_is_alive n\<rparr>"

record ActorInfoProtoFields =
  af_actor_id :: "ProtoId option"
  af_job_id :: "ProtoId option"
  af_class_name :: string
  af_state :: i32
  af_node_id :: "ProtoId option"
  af_num_restarts :: i32

definition actor_info_to_proto_fields :: "ActorInfo \<Rightarrow> ActorInfoProtoFields" where
  "actor_info_to_proto_fields a =
     \<lparr>af_actor_id = id_to_option (ai_actor_id a), af_job_id = id_to_option (ai_job_id a),
      af_class_name = ai_class_name a, af_state = actor_state_to_proto (ai_state a),
      af_node_id = id_to_option (ai_node_id a), af_num_restarts = ai_num_restarts a\<rparr>"

section \<open>Status of an RPC\<close>

text \<open>The \<^verbatim>\<open>tonic::Status\<close> values the servers return.\<close>

datatype Status = InvalidArgument message | NotFound message | StatusInternal message

type_synonym 'a rpc = "Status + 'a"

definition require_arg :: "string \<Rightarrow> 'a option \<Rightarrow> 'a rpc" where
  "require_arg name opt =
     (case opt of Some x \<Rightarrow> Inr x | None \<Rightarrow> Inl (InvalidArgument [Lit (name @ '' is required'')]))"

text \<open>\<^verbatim>\<open>map_err(|e| Status::internal(e.to_string()))?\<close>\<close>

definition internal_err :: "'a RayResult \<Rightarrow> 'a rpc" where
  "internal_err r = (case r of Inr x \<Rightarrow> Inr x | Inl e \<Rightarrow> Inl (StatusInternal (error_to_string e)))"

lemma internal_err_Inr [simp]: "internal_err (Inr x) = Inr x"
  by (simp add: internal_err_def)

lemma require_arg_simps [simp]:
  "require_arg n (Some x) = Inr x" "require_arg n None = Inl (InvalidArgument [Lit (n @ '' is required'')])"
  by (simp_all add: require_arg_def)

section \<open>Round trips\<close>

lemma id_proto_roundtrip [simp]: "id_from_proto (id_to_proto c) = c"
  by (simp add: id_from_proto_def id_to_proto_def)

lemma id_option_roundtrip [simp]: "id_from_option (id_to_option c) = c"
  by (simp add: id_from_option_def id_to_option_def)

lemma id_to_option_Some: "map_option id_from_proto (id_to_option c) = Some c"
  by (simp add: id_to_option_def)

lemma id_proto_roundtrip_comp [simp]: "id_from_proto \<circ> id_to_proto = id"
  by (simp add: fun_eq_iff)

lemma fold_insert_fresh:
  "hm_ok (xs @ ys) \<Longrightarrow>
   fold (\<lambda>(k, v) r. r\<lparr>res_map := hm_insert k v (res_map r)\<rparr>) ys \<lparr>res_map = xs\<rparr> = \<lparr>res_map = xs @ ys\<rparr>"
proof (induction ys arbitrary: xs)
  case (Cons y ys)
  obtain k v where y: "y = (k, v)" by force
  have "k \<notin> fst ` set xs" using Cons.prems by (auto simp: hm_ok_def y)
  then have "hm_insert k v xs = xs @ [(k, v)]" by (rule hm_insert_fresh)
  then show ?case using Cons.IH[of "xs @ [(k, v)]"] Cons.prems by (simp add: y)
qed simp

lemma resources_proto_roundtrip: "hm_ok (res_map r) \<Longrightarrow> resources_from_proto (resources_to_proto r) = r"
  using fold_insert_fresh[of "[]" "res_map r"]
  by (simp add: resources_from_proto_def resources_to_proto_def resources_new_def)

lemma resources_option_roundtrip [simp]:
  "hm_ok (res_map r) \<Longrightarrow> resources_from_option (resources_to_option r) = r"
  by (simp add: resources_from_option_def resources_to_option_def resources_proto_roundtrip)

lemma task_status_roundtrip [simp]: "task_status_from_proto (task_status_to_proto st) = st"
  by (cases st) (simp_all add: task_status_from_proto_def)

lemma actor_state_roundtrip [simp]: "actor_state_from_proto (actor_state_to_proto st) = st"
  by (cases st) (simp_all add: actor_state_from_proto_def)

lemma required_Some [simp]: "required f (Some x) = Inr x"
  by (simp add: required_def)

lemma resources_decoded_ok [simp]: "hm_ok (res_map (resources_from_option r))"
proof -
  have "hm_ok (res_map (fold (\<lambda>(k, v) r. r\<lparr>res_map := hm_insert k v (res_map r)\<rparr>) xs r))" if "hm_ok (res_map r)" for xs and r :: Resources
    using that by (induction xs arbitrary: r) auto
  then show ?thesis by (cases r) (simp_all add: resources_from_option_def resources_from_proto_def resources_new_def)
qed

lemma task_spec_proto_roundtrip:
  "hm_ok (res_map (ts_required_resources t)) \<Longrightarrow> task_spec_from_proto (task_spec_to_proto t) = Inr t"
  by (simp add: task_spec_from_proto_def task_spec_to_proto_def id_to_option_Some)

lemma actor_spec_proto_roundtrip:
  "hm_ok (res_map (as_required_resources a)) \<Longrightarrow> actor_spec_from_proto (actor_spec_to_proto a) = Inr a"
  by (simp add: actor_spec_from_proto_def actor_spec_to_proto_def id_to_option_Some)

lemma task_spec_missing_id:
  "pt_task_id p = None \<or> pt_job_id p = None \<Longrightarrow> \<exists>e. task_spec_from_proto p = Inl e"
  by (cases "pt_task_id p"; cases "pt_job_id p") (simp_all add: task_spec_from_proto_def required_def)

section \<open>Properties\<close>

text \<open>
  C26. Round trips: a task or actor specification sent as a message and decoded is the original,
  with every identifier, payload, resource and retry count; and so are every task status and
  actor state. In the other direction, whatever message arrives: decoding refuses it exactly when one of its two
  identifiers is missing, and otherwise what it gives survives being sent on and decoded again.
\<close>

theorem proto_roundtrips:
  assumes "hm_ok (res_map (ts_required_resources t))" "hm_ok (res_map (as_required_resources a))"
  shows "task_spec_from_proto (task_spec_to_proto t) = Inr t
    \<and> actor_spec_from_proto (actor_spec_to_proto a) = Inr a
    \<and> task_status_from_proto (task_status_to_proto st) = st
    \<and> actor_state_from_proto (actor_state_to_proto ast) = ast
    \<and> (case task_spec_from_proto p of
         Inl e \<Rightarrow> pt_task_id p = None \<or> pt_job_id p = None
       | Inr t' \<Rightarrow> pt_task_id p \<noteq> None \<and> pt_job_id p \<noteq> None \<and> task_spec_from_proto (task_spec_to_proto t') = Inr t')
    \<and> (case actor_spec_from_proto q of
         Inl e \<Rightarrow> pa_actor_id q = None \<or> pa_job_id q = None
       | Inr a' \<Rightarrow> pa_actor_id q \<noteq> None \<and> pa_job_id q \<noteq> None \<and> actor_spec_from_proto (actor_spec_to_proto a') = Inr a')"
proof (intro conjI)
  show "task_spec_from_proto (task_spec_to_proto t) = Inr t" "actor_spec_from_proto (actor_spec_to_proto a) = Inr a"
    using assms by (simp_all add: task_spec_proto_roundtrip actor_spec_proto_roundtrip)
  show "case task_spec_from_proto p of
      Inl e \<Rightarrow> pt_task_id p = None \<or> pt_job_id p = None
    | Inr t' \<Rightarrow> pt_task_id p \<noteq> None \<and> pt_job_id p \<noteq> None \<and> task_spec_from_proto (task_spec_to_proto t') = Inr t'"
    by (cases "pt_task_id p"; cases "pt_job_id p")
       (simp_all add: task_spec_from_proto_def[of p] required_def task_spec_proto_roundtrip)
  show "case actor_spec_from_proto q of
      Inl e \<Rightarrow> pa_actor_id q = None \<or> pa_job_id q = None
    | Inr a' \<Rightarrow> pa_actor_id q \<noteq> None \<and> pa_job_id q \<noteq> None \<and> actor_spec_from_proto (actor_spec_to_proto a') = Inr a'"
    by (cases "pa_actor_id q"; cases "pa_job_id q")
       (simp_all add: actor_spec_from_proto_def[of q] required_def actor_spec_proto_roundtrip)
qed simp_all

theorem proto_roundtrips_witness:
  "task_spec_from_proto (task_spec_to_proto (cpu_task 1 2 [5])) = Inr (cpu_task 1 2 [5])"
proof -
  have "hm_ok (res_map (ts_required_resources (cpu_task 1 2 [5])))"
    by (simp add: cpu_task_def res_set_def resources_new_def)
  from proto_roundtrips[OF this, of "\<lparr>as_actor_id = id_default, as_job_id = id_default, as_class_name = [],
      as_class_payload = [], as_constructor_args = [], as_required_resources = resources_new,
      as_max_restarts = 0\<rparr>"] show ?thesis by (simp add: resources_new_def)
qed

text \<open>
  Decoding is total but for the identifiers: a task message is refused exactly when its task
  or job identifier is missing, with an error that names the first missing one; an identifier of
  the wrong length is accepted, padded with zeros or cut to the identifier's size.
\<close>

lemma task_spec_decoding:
  "case task_spec_from_proto p of
     Inl e \<Rightarrow> e = Internal [Lit (if pt_task_id p = None then ''TaskSpec.task_id is required''
                                else ''TaskSpec.job_id is required'')]
       \<and> (pt_task_id p = None \<or> pt_job_id p = None)
   | Inr t \<Rightarrow> \<exists>tid jid. pt_task_id p = Some tid \<and> pt_job_id p = Some jid
       \<and> to_vec (ts_task_id t) = take 16 (p_id tid) @ replicate (16 - length (p_id tid)) 0
       \<and> to_vec (ts_job_id t) = take 16 (p_id jid) @ replicate (16 - length (p_id jid)) 0
       \<and> length (ts_return_ids t) = length (pt_return_ids p)"
proof -
  have "to_vec (id_from_proto q :: 16 byte_array) = take 16 (p_id q) @ replicate (16 - length (p_id q)) 0" for q
    by (simp add: id_from_proto_def to_vec_def as_bytes_from_vec copy_into_zeroed_eq)
  then show ?thesis
    by (auto simp: task_spec_from_proto_def required_def split: option.splits)
qed

end
