(* ===== verification/Raylet_Server.thy ===== *)
theory Raylet_Server
  imports Scheduler_Runs Core_Proto_Conv
begin

text \<open>
  \<^verbatim>\<open>crates/ray-raylet/src/server.rs\<close>: the ten RPC handlers of a node, over the scheduler's system
  state. A call that sends to the scheduler's channel may have to wait for room, and the status
  query also waits for the reply: waiting is \<open>None\<close>. \<open>raylet_step\<close> runs the scheduler and the lease
  calls together, on one account of the node's resources.
\<close>

record RayletServer =
  rs_system :: System
  rs_node_id :: NodeId

text \<open>Starting the service: tonic's server is an argument; its error becomes a transport error.\<close>

definition raylet_serve :: "(RayletServer \<Rightarrow> 'addr \<Rightarrow> string + unit) \<Rightarrow> RayletServer \<Rightarrow> 'addr \<Rightarrow> unit RayResult" where
  "raylet_serve tonic_serve server addr = map_sum (\<lambda>e. Transport [Lit e]) id (tonic_serve server addr)"

definition sent :: "unit RayResult option \<Rightarrow> 'a \<Rightarrow> 'a rpc option" where
  "sent r reply = map_option (\<lambda>r. map_sum id (\<lambda>_. reply) (internal_err r)) r"

definition rpc_submit_task ::
  "ProtoTaskSpec option \<Rightarrow> RayletServer \<Rightarrow> (bool \<times> string) rpc option \<times> RayletServer" where
  "rpc_submit_task req rs =
     (case require_arg ''task_spec'' req of
        Inl st \<Rightarrow> (Some (Inl st), rs)
      | Inr task_spec \<Rightarrow>
          (case task_spec_from_proto task_spec of
             Inl e \<Rightarrow> (Some (Inl (InvalidArgument (error_to_string e))), rs)
           | Inr core_spec \<Rightarrow>
               (let (r, sys) = submit_task core_spec (rs_system rs)
                in (sent r (True, []), rs\<lparr>rs_system := sys\<rparr>))))"

definition rpc_cancel_task :: "ProtoId option \<Rightarrow> RayletServer \<Rightarrow> bool rpc option \<times> RayletServer" where
  "rpc_cancel_task req rs =
     (case require_arg ''task_id'' req of
        Inl st \<Rightarrow> (Some (Inl st), rs)
      | Inr task_id \<Rightarrow>
          (let (r, sys) = cancel_task (id_from_proto task_id) (rs_system rs)
           in (sent r True, rs\<lparr>rs_system := sys\<rparr>)))"

text \<open>The status query: the send with a fresh reply channel \<open>ch\<close>, and the answer when the reply is there.\<close>

definition rpc_get_task_status_send :: "nat \<Rightarrow> ProtoId option \<Rightarrow> RayletServer \<Rightarrow> unit rpc option \<times> RayletServer" where
  "rpc_get_task_status_send ch req rs =
     (case require_arg ''task_id'' req of
        Inl st \<Rightarrow> (Some (Inl st), rs)
      | Inr task_id \<Rightarrow>
          (let (r, sys) = get_task_status_send (id_from_proto task_id) ch (rs_system rs)
           in (sent r (), rs\<lparr>rs_system := sys\<rparr>)))"

definition rpc_get_task_status_reply :: "nat \<Rightarrow> RayletServer \<Rightarrow> (i32 \<times> string) rpc option" where
  "rpc_get_task_status_reply ch rs =
     map_option (\<lambda>r. map_sum id (\<lambda>status. (task_status_to_proto status, [])) (internal_err r))
       (get_task_status_reply ch (rs_system rs))"

definition rpc_register_worker :: "RayletServer \<Rightarrow> (bool \<times> ProtoId option) rpc" where
  "rpc_register_worker rs = Inr (True, id_to_option (rs_node_id rs))"

definition rpc_unregister_worker :: "RayletServer \<Rightarrow> bool rpc" where
  "rpc_unregister_worker rs = Inr True"

definition rpc_wait_for_object :: "ProtoId option \<Rightarrow> RayletServer \<Rightarrow> (bool \<times> ProtoId option) rpc" where
  "rpc_wait_for_object req rs =
     (case require_arg ''object_id'' req of
        Inl st \<Rightarrow> Inl st
      | Inr object_id \<Rightarrow>
          (case internal_err (os_contains (id_from_proto object_id) (sy_store (rs_system rs))) of
             Inl st \<Rightarrow> Inl st
           | Inr found \<Rightarrow> Inr (found, if found then id_to_option (rs_node_id rs) else None)))"

record ObjectLocation =
  ol_object_id :: "ProtoId option"
  ol_node_ids :: "ProtoId list"
  ol_object_size :: i64

definition rpc_get_object_locations :: "ProtoId list \<Rightarrow> RayletServer \<Rightarrow> ObjectLocation list rpc" where
  "rpc_get_object_locations object_ids rs =
     Inr (map (\<lambda>obj_id. \<lparr>ol_object_id = Some obj_id, ol_node_ids = [id_to_proto (rs_node_id rs)], ol_object_size = 0\<rparr>)
       (filter (\<lambda>obj_id. unwrap_or (os_contains (id_from_proto obj_id) (sy_store (rs_system rs))) False) object_ids))"

definition rpc_transfer_object :: "RayletServer \<Rightarrow> bool rpc" where
  "rpc_transfer_object rs = Inr True"

record WorkerLeaseReply =
  wl_fulfilled :: bool
  wl_worker_address :: "ProtoAddress option"
  wl_node_id :: "ProtoId option"

definition rpc_request_worker_lease :: "ProtoResources option \<Rightarrow> RayletServer \<Rightarrow> WorkerLeaseReply rpc \<times> RayletServer" where
  "rpc_request_worker_lease req rs =
     (let needed = (case req of Some p \<Rightarrow> resources_from_proto p | None \<Rightarrow> resources_new);
          sys = rs_system rs;
          (r, rm) = try_allocate needed (sy_rm sys);
          rs = rs\<lparr>rs_system := sys\<lparr>sy_rm := rm\<rparr>\<rparr>
      in if unwrap_or r False
         then (Inr \<lparr>wl_fulfilled = True,
                    wl_worker_address = Some \<lparr>p_ip_address = ''127.0.0.1'', p_port = 0,
                       p_addr_node_id = id_to_option (rs_node_id rs), p_addr_worker_id = None\<rparr>,
                    wl_node_id = id_to_option (rs_node_id rs)\<rparr>, rs)
         else (Inr \<lparr>wl_fulfilled = False, wl_worker_address = None, wl_node_id = None\<rparr>, rs))"

definition rpc_release_worker_lease :: "ProtoAddress option \<Rightarrow> RayletServer \<Rightarrow> bool rpc \<times> RayletServer" where
  "rpc_release_worker_lease worker_address rs = (Inr True, rs)"

lemma lease_answers: "\<exists>reply rs1. rpc_request_worker_lease req rs = (Inr reply, rs1)"
  by (simp add: rpc_request_worker_lease_def Let_def split_beta)

lemma rpc_submit_accepted:
  assumes "hm_ok (res_map (ts_required_resources t))" "sy_loop (rs_system rs) \<noteq> LoopExited"
    and "length (sy_channel (rs_system rs)) < 4096"
  shows "rpc_submit_task (Some (task_spec_to_proto t)) rs =
      (Some (Inr (True, [])),
       rs\<lparr>rs_system := (rs_system rs)\<lparr>sy_channel := sy_channel (rs_system rs) @ [SubmitTask t]\<rparr>\<rparr>)"
  using assms
  by (simp add: rpc_submit_task_def submit_task_def send_command_def sent_def task_spec_from_proto_def
      task_spec_to_proto_def id_to_option_Some)

section \<open>Properties\<close>

text \<open>
  A task submitted by RPC reaches the scheduler unchanged: if the event loop is running and
  the channel has room, the call is accepted and the channel ends with exactly that task; a
  message without a task or job identifier is refused and changes nothing.
\<close>

lemma rpc_submit_reaches_scheduler:
  assumes "hm_ok (res_map (ts_required_resources t))" "sy_loop (rs_system rs) \<noteq> LoopExited"
    and "length (sy_channel (rs_system rs)) < 4096"
  shows "rpc_submit_task (Some (task_spec_to_proto t)) rs =
      (Some (Inr (True, [])),
       rs\<lparr>rs_system := (rs_system rs)\<lparr>sy_channel := sy_channel (rs_system rs) @ [SubmitTask t]\<rparr>\<rparr>)
    \<and> (\<forall>p. pt_task_id p = None \<or> pt_job_id p = None \<longrightarrow>
         (\<exists>msg. rpc_submit_task (Some p) rs = (Some (Inl (InvalidArgument msg)), rs)))"
proof -
  have "\<exists>msg. rpc_submit_task (Some p) rs = (Some (Inl (InvalidArgument msg)), rs)"
    if missing: "pt_task_id p = None \<or> pt_job_id p = None" for p
    using task_spec_missing_id[OF missing] by (auto simp: rpc_submit_task_def)
  then show ?thesis using rpc_submit_accepted[OF assms] by blast
qed

text \<open>
  A lease is never given back: a fulfilled lease takes its resources from the node, and the
  call that releases the lease reports success and returns nothing to the pool.
\<close>

lemma released_lease_still_held:
  assumes "rm_accounts g (sy_rm (rs_system rs)) held" "res_grid g req"
    and "rpc_request_worker_lease (Some (resources_to_proto req)) rs = (Inr reply, rs1)" "wl_fulfilled reply"
    and "rpc_release_worker_lease (wl_worker_address reply) rs1 = (Inr True, rs2)"
  shows "res_units (rm_available (sy_rm (rs_system rs2))) n + res_units req n =
    res_units (rm_available (sy_rm (rs_system rs))) n"
proof -
  have ok: "hm_ok (res_map req)" using res_gridD(2)[OF assms(2)] .
  have grid: "res_grid g (rm_available (sy_rm (rs_system rs)))" using assms(1) by (simp add: rm_accounts_def)
  have cs: "can_satisfy (rm_available (sy_rm (rs_system rs))) req"
    and rs1: "sy_rm (rs_system rs1) = snd (try_allocate req (sy_rm (rs_system rs)))"
    using assms(3,4) ok
    by (auto simp: rpc_request_worker_lease_def Let_def resources_proto_roundtrip try_allocate_def split: if_splits)
  have "rs2 = rs1" using assms(5) by (simp add: rpc_release_worker_lease_def)
  then show ?thesis
    using cs rs1 res_units_subtract[OF grid assms(2) cs, of n] by (simp add: try_allocate_def)
qed

section \<open>Leases and the accounts of the node\<close>

text \<open>
  A raylet runs its scheduler and answers lease calls in any order. The second component of the
  configuration is a ghost: it collects the requests of the leases that were granted.
\<close>

inductive raylet_step :: "nat \<Rightarrow> RayletServer \<times> Resources multiset \<Rightarrow> RayletServer \<times> Resources multiset \<Rightarrow> bool"
  for g where
  scheduler: "sys_step (\<lambda>spec. res_grid g (ts_required_resources spec)) (rs_system rs) sys \<Longrightarrow>
    raylet_step g (rs, leased) (rs\<lparr>rs_system := sys\<rparr>, leased)"
| lease: "res_grid g req \<Longrightarrow> rpc_request_worker_lease (Some (resources_to_proto req)) rs = (Inr reply, rs') \<Longrightarrow>
    raylet_step g (rs, leased) (rs', if wl_fulfilled reply then add_mset req leased else leased)"
| release_lease: "raylet_step g (rs, leased) (snd (rpc_release_worker_lease addr rs), leased)"

lemma lease_accounts:
  assumes "sys_accounts g leased (rs_system rs)" "res_grid g req"
    and "rpc_request_worker_lease (Some (resources_to_proto req)) rs = (Inr reply, rs')"
  shows "sys_accounts g (if wl_fulfilled reply then add_mset req leased else leased) (rs_system rs')
    \<and> rm_total (sy_rm (rs_system rs')) = rm_total (sy_rm (rs_system rs))"
proof -
  let ?rm = "sy_rm (rs_system rs)"
  have ok: "hm_ok (res_map req)" using res_gridD(2)[OF assms(2)] .
  have fields: "wl_fulfilled reply \<longleftrightarrow> can_satisfy (rm_available ?rm) req"
    "rs_system rs' = (rs_system rs)\<lparr>sy_rm := snd (try_allocate req ?rm)\<rparr>"
    using assms(3) ok
    by (auto simp: rpc_request_worker_lease_def Let_def resources_proto_roundtrip try_allocate_def split: if_splits)
  have w: "waiting (rs_system rs') = waiting (rs_system rs)" "held_requests (rs_system rs') = held_requests (rs_system rs)"
    by (simp_all add: fields waiting_def held_requests_def live_tasks_def)
  show ?thesis
  proof (cases "can_satisfy (rm_available ?rm) req")
    case True
    have "rm_accounts g (snd (try_allocate req ?rm)) (add_mset req (held_requests (rs_system rs) + leased))"
      using assms(1,2) True
      by (intro rm_accounts_grant[of g ?rm]) (simp_all add: sys_accounts_def rm_granted_eq try_allocate_def)
    with assms(1) True show ?thesis by (simp add: sys_accounts_def fields w[unfolded fields])
  next
    case False
    then show ?thesis using assms(1) by (simp add: fields try_allocate_def)
  qed
qed

lemma raylet_step_accounts:
  assumes "raylet_step g c c'" "sys_accounts g (snd c) (rs_system (fst c))"
  shows "sys_accounts g (snd c') (rs_system (fst c')) \<and> snd c \<subseteq># snd c'
    \<and> rm_total (sy_rm (rs_system (fst c'))) = rm_total (sy_rm (rs_system (fst c)))"
  using assms(1)
proof (cases rule: raylet_step.cases)
  case (scheduler rs sys leased)
  then show ?thesis using assms(2) sys_step_accounts[of g] sys_step_rm_total by auto
next
  case (lease req rs reply rs' leased)
  then show ?thesis using lease_accounts[of g leased rs req reply rs'] assms(2) by auto
next
  case (release_lease rs leased addr)
  then show ?thesis using assms(2) by (simp add: rpc_release_worker_lease_def)
qed

lemma raylet_steps_accounts:
  assumes "(raylet_step g)\<^sup>*\<^sup>* c c'" "sys_accounts g (snd c) (rs_system (fst c))"
  shows "sys_accounts g (snd c') (rs_system (fst c')) \<and> snd c \<subseteq># snd c'
    \<and> rm_total (sy_rm (rs_system (fst c'))) = rm_total (sy_rm (rs_system (fst c)))"
  using assms
proof (induction rule: rtranclp_induct)
  case (step c1 c2)
  then show ?case using raylet_step_accounts[OF step.hyps(2)] by (auto intro: subset_mset.trans)
qed simp

text \<open>
  C39. A lease is never given back. From a fresh node, whatever the interleaving of the scheduler, its
  background tasks and the lease calls, what is available, what running tasks hold and what was
  leased add up to the node's total, for every resource; and the leased part only grows, because the
  call that releases a lease returns nothing.
\<close>

theorem leases_never_return:
  assumes "res_grid g tot"
    and "(raylet_step g)\<^sup>*\<^sup>* (\<lparr>rs_system = scheduler_new (rm_new tot) ex store pool, rs_node_id = nid\<rparr>, {#}) (rs, leased)"
    and "(raylet_step g)\<^sup>*\<^sup>* (rs, leased) (rs', leased')"
  shows "leased \<subseteq># leased' \<and>
    res_units (rm_available (sy_rm (rs_system rs'))) n + held_units (held_requests (rs_system rs')) n + held_units leased' n
      = res_units tot n"
proof -
  let ?rs0 = "\<lparr>rs_system = scheduler_new (rm_new tot) ex store pool, rs_node_id = nid\<rparr>"
  have "sys_accounts g {#} (rs_system ?rs0)" using sys_accounts_new[OF assms(1)] by simp
  then have first: "sys_accounts g leased (rs_system rs)" "rm_total (sy_rm (rs_system rs)) = rm_total (sy_rm (rs_system ?rs0))"
    using raylet_steps_accounts[OF assms(2)] by simp_all
  then have "sys_accounts g leased' (rs_system rs')" "leased \<subseteq># leased'"
    "rm_total (sy_rm (rs_system rs')) = rm_total (sy_rm (rs_system rs))"
    using raylet_steps_accounts[OF assms(3)] by simp_all
  moreover have "rm_total (sy_rm (rs_system ?rs0)) = tot" by (simp add: scheduler_new_def rm_new_def)
  ultimately show ?thesis
    using first(2) by (simp add: sys_accounts_def rm_accounts_def held_units_def add.assoc)
qed

theorem leases_never_return_witness:
  "let req = res_set resources_new ''CPU'' (f64_of_nat 1); rs = \<lparr>rs_system = cpu_system 4, rs_node_id = id_default\<rparr>;
       rs1 = snd (rpc_request_worker_lease (Some (resources_to_proto req)) rs);
       rs2 = snd (rpc_release_worker_lease None rs1)
   in res_units (rm_available (sy_rm (rs_system rs2))) ''CPU'' + res_units req ''CPU'' =
      res_units (res_set resources_new ''CPU'' (f64_of_nat 4)) ''CPU''"
proof -
  let ?req = "res_set resources_new ''CPU'' (f64_of_nat 1)" and ?tot = "res_set resources_new ''CPU'' (f64_of_nat 4)"
  let ?rs = "\<lparr>rs_system = cpu_system 4, rs_node_id = id_default\<rparr>"
  obtain reply rs1 where r: "rpc_request_worker_lease (Some (resources_to_proto ?req)) ?rs = (Inr reply, rs1)"
    using lease_answers by blast
  have ok: "hm_ok (res_map ?req)" by (simp add: res_set_def resources_new_def)
  have "can_satisfy (rm_available (sy_rm (cpu_system 4))) ?req"
    by (simp add: cpu_system_def scheduler_new_def rm_new_def f64_of_nat_cmp)
  then have f: "wl_fulfilled reply" "rs_system rs1 = (cpu_system 4)\<lparr>sy_rm := snd (try_allocate ?req (sy_rm (cpu_system 4)))\<rparr>"
    using r ok by (auto simp: rpc_request_worker_lease_def Let_def resources_proto_roundtrip try_allocate_def)
  have "raylet_step 1074 (?rs, {#}) (rs1, {#?req#})"
    using raylet_step.lease[OF _ r, of 1074 "{#}"] f by simp
  moreover have "raylet_step 1074 (rs1, {#?req#}) (snd (rpc_release_worker_lease None rs1), {#?req#})"
    by (rule raylet_step.release_lease)
  ultimately have runs: "(raylet_step 1074)\<^sup>*\<^sup>* (?rs, {#}) (rs1, {#?req#})"
    "(raylet_step 1074)\<^sup>*\<^sup>* (rs1, {#?req#}) (snd (rpc_release_worker_lease None rs1), {#?req#})" by auto
  have "held_requests (rs_system (snd (rpc_release_worker_lease None rs1))) = {#}"
    by (simp add: rpc_release_worker_lease_def f held_requests_def live_tasks_def cpu_system_def scheduler_new_def)
  then show ?thesis
    using leases_never_return[of 1074 ?tot, OF _ runs(1)[unfolded cpu_system_def] runs(2), of "''CPU''"] r
    by (simp add: Let_def)
qed

end
