(* ===== verification/Object_Store_Server.thy ===== *)
theory Object_Store_Server
  imports Object_Store_Conc Core_Proto_Conv
begin

text \<open>
  \<^verbatim>\<open>crates/ray-object-store/src/server.rs\<close>: the twelve RPC handlers of the object store service.
  A handler takes the fields of its request and returns a reply or a status. The handlers that
  poll (\<^verbatim>\<open>get\<close>, \<^verbatim>\<open>batch_get\<close>, \<^verbatim>\<open>wait\<close>) take the history of stores and clock readings of each poll
  loop, as the store's own operations do.
\<close>

text \<open>Starting the service: tonic's server is an argument; its error becomes a transport error.\<close>

definition os_serve :: "(InMemoryObjectStore \<Rightarrow> 'addr \<Rightarrow> string + unit) \<Rightarrow> InMemoryObjectStore \<Rightarrow> 'addr \<Rightarrow> unit RayResult" where
  "os_serve tonic_serve server addr = map_sum (\<lambda>e. Transport [Lit e]) id (tonic_serve server addr)"

record ObjectData =
  od_object_id :: "ProtoId option"
  od_data :: bytes
  od_metadata :: bytes

record ObjectMetadata =
  om_object_id :: "ProtoId option"
  om_data_size :: i64
  om_metadata_size :: i64
  om_total_size :: i64
  om_ref_count :: i32
  om_is_spilled :: bool
  om_spill_url :: string
  om_create_time_ms :: i64

record GetReply =
  gr_found :: bool
  gr_object_data :: "ObjectData option"
  gr_error_message :: message

type_synonym history = "(nat \<Rightarrow> InMemoryObjectStore) \<times> (nat \<Rightarrow> nat) \<times> nat"

definition get_at :: "history \<Rightarrow> ObjectId \<Rightarrow> i64 \<Rightarrow> bytes RayResult option" where
  "get_at h oid timeout_ms = (case h of (stores, clock, start) \<Rightarrow> os_get stores clock start oid timeout_ms)"

section \<open>Single objects\<close>

definition rpc_put :: "nat \<Rightarrow> ObjectData option \<Rightarrow> InMemoryObjectStore \<Rightarrow> (bool \<times> message) rpc \<times> InMemoryObjectStore" where
  "rpc_put now req s =
     (case require_arg ''object_data'' req of
        Inl st \<Rightarrow> (Inl st, s)
      | Inr obj \<Rightarrow>
          (case require_arg ''object_id'' (od_object_id obj) of
             Inl st \<Rightarrow> (Inl st, s)
           | Inr object_id \<Rightarrow>
               (let (r, s) = os_put now (id_from_proto object_id) (od_data obj) s
                in case internal_err r of Inl st \<Rightarrow> (Inl st, s) | Inr _ \<Rightarrow> (Inr (True, []), s))))"

definition rpc_get :: "history \<Rightarrow> ProtoId option \<Rightarrow> i64 \<Rightarrow> GetReply rpc option" where
  "rpc_get h req timeout_ms =
     (case require_arg ''object_id'' req of
        Inl st \<Rightarrow> Some (Inl st)
      | Inr object_id \<Rightarrow>
          map_option
            (\<lambda>r. Inr (case r of
                Inr data \<Rightarrow> \<lparr>gr_found = True,
                   gr_object_data = Some \<lparr>od_object_id = Some object_id, od_data = data, od_metadata = []\<rparr>,
                   gr_error_message = []\<rparr>
              | Inl e \<Rightarrow> \<lparr>gr_found = False, gr_object_data = None, gr_error_message = error_to_string e\<rparr>))
            (get_at h (id_from_proto object_id) timeout_ms))"

fun delete_loop :: "ProtoId list \<Rightarrow> i32 \<Rightarrow> InMemoryObjectStore \<Rightarrow> i32 \<times> InMemoryObjectStore" where
  "delete_loop [] num_deleted s = (num_deleted, s)"
| "delete_loop (obj_id # rest) num_deleted s =
     (let (r, s) = os_delete (id_from_proto obj_id) s
      in delete_loop rest (if is_ok r then num_deleted + 1 else num_deleted) s)"

definition rpc_delete :: "ProtoId list \<Rightarrow> InMemoryObjectStore \<Rightarrow> i32 rpc \<times> InMemoryObjectStore" where
  "rpc_delete object_ids s = (let (n, s) = delete_loop object_ids 0 s in (Inr n, s))"

definition rpc_contains :: "ProtoId option \<Rightarrow> InMemoryObjectStore \<Rightarrow> bool rpc" where
  "rpc_contains req s =
     (case require_arg ''object_id'' req of
        Inl st \<Rightarrow> Inl st
      | Inr object_id \<Rightarrow> internal_err (os_contains (id_from_proto object_id) s))"

section \<open>Batches\<close>

fun batch_get_loop ::
  "(nat \<Rightarrow> history) \<Rightarrow> i64 \<Rightarrow> nat \<Rightarrow> ProtoId list \<Rightarrow> ObjectData list \<Rightarrow> bool list \<Rightarrow> (ObjectData list \<times> bool list) option"
where
  "batch_get_loop hs timeout_ms i [] results flags = Some (results, flags)"
| "batch_get_loop hs timeout_ms i (obj_id # rest) results flags =
     (case get_at (hs i) (id_from_proto obj_id) timeout_ms of
        None \<Rightarrow> None
      | Some (Inr data) \<Rightarrow>
          batch_get_loop hs timeout_ms (Suc i) rest
            (results @ [\<lparr>od_object_id = Some obj_id, od_data = data, od_metadata = []\<rparr>]) (flags @ [True])
      | Some (Inl _) \<Rightarrow> batch_get_loop hs timeout_ms (Suc i) rest results (flags @ [False]))"

definition rpc_batch_get ::
  "(nat \<Rightarrow> history) \<Rightarrow> ProtoId list \<Rightarrow> i64 \<Rightarrow> (ObjectData list \<times> bool list) rpc option" where
  "rpc_batch_get hs object_ids timeout_ms = map_option Inr (batch_get_loop hs timeout_ms 0 object_ids [] [])"

fun batch_put_loop ::
  "nat \<Rightarrow> ObjectData list \<Rightarrow> i32 \<Rightarrow> message list \<Rightarrow> InMemoryObjectStore \<Rightarrow> (i32 \<times> message list) rpc \<times> InMemoryObjectStore"
where
  "batch_put_loop now [] n errors s = (Inr (n, errors), s)"
| "batch_put_loop now (obj_data # rest) n errors s =
     (case od_object_id obj_data of
        None \<Rightarrow> (Inl (InvalidArgument [Lit ''object_id required'']), s)
      | Some obj_id \<Rightarrow>
          (case os_put now (id_from_proto obj_id) (od_data obj_data) s of
             (Inr _, s) \<Rightarrow> batch_put_loop now rest (n + 1) errors s
           | (Inl e, s) \<Rightarrow> batch_put_loop now rest n (errors @ [error_to_string e]) s))"

definition rpc_batch_put ::
  "nat \<Rightarrow> ObjectData list \<Rightarrow> InMemoryObjectStore \<Rightarrow> (i32 \<times> message list) rpc \<times> InMemoryObjectStore" where
  "rpc_batch_put now objs s = batch_put_loop now objs 0 [] s"

section \<open>Information and waiting\<close>

text \<open>The clock is read as nanoseconds; the reply field carries the time since the put.\<close>

definition rpc_get_object_info ::
  "nat \<Rightarrow> ProtoId option \<Rightarrow> InMemoryObjectStore \<Rightarrow> (bool \<times> ObjectMetadata option) rpc" where
  "rpc_get_object_info now req s =
     (case require_arg ''object_id'' req of
        Inl st \<Rightarrow> Inl st
      | Inr object_id \<Rightarrow>
          (case get_entry s (id_from_proto object_id) of
             Some entry \<Rightarrow>
               Inr (True, Some \<lparr>om_object_id = Some object_id, om_data_size = of_nat (length (oe_data entry)),
                   om_metadata_size = 0, om_total_size = of_nat (length (oe_data entry)),
                   om_ref_count = oe_ref_count entry, om_is_spilled = oe_is_spilled entry,
                   om_spill_url = (case oe_spill_url entry of Some u \<Rightarrow> u | None \<Rightarrow> []),
                   om_create_time_ms = of_nat ((now - oe_create_time entry) div 1000000)\<rparr>)
           | None \<Rightarrow> Inr (False, None)))"

definition rpc_wait :: "history \<Rightarrow> ProtoId list \<Rightarrow> i32 \<Rightarrow> i64 \<Rightarrow> (bool list \<times> i32) rpc option" where
  "rpc_wait h object_ids num_ready timeout_ms =
     (case h of (stores, clock, start) \<Rightarrow>
        map_option (\<lambda>r. map_sum id (\<lambda>flags. (flags, ready_count flags)) (internal_err r))
          (os_wait stores clock start (map id_from_proto object_ids) num_ready timeout_ms))"

section \<open>Spilling and references\<close>

definition default_spill_dir :: string where
  "default_spill_dir = ''/tmp/ray_spill''"

fun spill_loop ::
  "'fs fs_ops \<Rightarrow> string \<Rightarrow> ProtoId list \<Rightarrow> i32 \<Rightarrow> message list \<Rightarrow> InMemoryObjectStore \<times> 'fs
     \<Rightarrow> (i32 \<times> message list) \<times> InMemoryObjectStore \<times> 'fs" where
  "spill_loop fs dir [] n errors st = ((n, errors), st)"
| "spill_loop fs dir (obj_id # rest) n errors st =
     (case spill_to_disk fs (id_from_proto obj_id) dir st of
        (Inr _, st) \<Rightarrow> spill_loop fs dir rest (n + 1) errors st
      | (Inl e, st) \<Rightarrow> spill_loop fs dir rest n (errors @ [error_to_string e]) st)"

definition rpc_spill_objects ::
  "'fs fs_ops \<Rightarrow> ProtoId list \<Rightarrow> string \<Rightarrow> InMemoryObjectStore \<times> 'fs
     \<Rightarrow> (i32 \<times> message list) rpc \<times> InMemoryObjectStore \<times> 'fs" where
  "rpc_spill_objects fs object_ids storage_url st =
     (let dir = (if storage_url = [] then default_spill_dir else storage_url);
          (r, st) = spill_loop fs dir object_ids 0 [] st
      in (Inr r, st))"

fun restore_loop ::
  "'fs fs_ops \<Rightarrow> ProtoId list \<Rightarrow> i32 \<Rightarrow> InMemoryObjectStore \<times> 'fs \<Rightarrow> i32 \<times> InMemoryObjectStore \<times> 'fs" where
  "restore_loop fs [] n st = (n, st)"
| "restore_loop fs (obj_id # rest) n st =
     (let (r, st) = restore_from_disk fs (id_from_proto obj_id) st
      in restore_loop fs rest (if is_ok r then n + 1 else n) st)"

definition rpc_restore_objects ::
  "'fs fs_ops \<Rightarrow> ProtoId list \<Rightarrow> InMemoryObjectStore \<times> 'fs \<Rightarrow> i32 rpc \<times> InMemoryObjectStore \<times> 'fs" where
  "rpc_restore_objects fs object_ids st = (let (n, st) = restore_loop fs object_ids 0 st in (Inr n, st))"

definition rpc_add_reference :: "ProtoId option \<Rightarrow> InMemoryObjectStore \<Rightarrow> bool rpc \<times> InMemoryObjectStore" where
  "rpc_add_reference req s =
     (case require_arg ''object_id'' req of
        Inl st \<Rightarrow> (Inl st, s)
      | Inr object_id \<Rightarrow> (Inr True, add_reference (id_from_proto object_id) s))"

definition rpc_remove_reference ::
  "ProtoId option \<Rightarrow> InMemoryObjectStore \<Rightarrow> (bool \<times> bool) rpc \<times> InMemoryObjectStore" where
  "rpc_remove_reference req s =
     (case require_arg ''object_id'' req of
        Inl st \<Rightarrow> (Inl st, s)
      | Inr object_id \<Rightarrow>
          (let (evicted, s) = remove_reference (id_from_proto object_id) s in (Inr (True, evicted), s)))"

section \<open>Effects of the loops\<close>

lemma delete_loop_spec:
  "os_inv s \<Longrightarrow>
   fst (delete_loop ids n s) = n + of_nat (length ids) \<and>
   os_view (snd (delete_loop ids n s)) = (\<lambda>oid. if oid \<in> id_from_proto ` set ids then None else os_view s oid) \<and>
   os_inv (snd (delete_loop ids n s))"
proof (induction ids arbitrary: n s)
  case (Cons i ids)
  let ?s = "snd (os_delete (id_from_proto i) s)"
  have "os_inv ?s" by (rule os.inv_delete[OF Cons.prems])
  from Cons.IH[OF this, of "n + 1"] show ?case
    by (simp add: split_beta Let_def) (auto simp: fun_eq_iff)
qed (simp add: fun_eq_iff)

text \<open>The puts a batch makes, up to the first object without an identifier.\<close>

definition put_all :: "nat \<Rightarrow> ObjectData list \<Rightarrow> InMemoryObjectStore \<Rightarrow> InMemoryObjectStore" where
  "put_all now objs s =
     fold (\<lambda>od s. case od_object_id od of
             Some i \<Rightarrow> snd (os_put now (id_from_proto i) (od_data od) s) | None \<Rightarrow> s)
       (takeWhile (\<lambda>od. od_object_id od \<noteq> None) objs) s"

lemma batch_put_loop_store: "snd (batch_put_loop now objs n errors s) = put_all now objs s"
proof (induction objs arbitrary: n errors s)
  case (Cons od objs)
  then show ?case by (auto simp: put_all_def split: option.splits prod.splits sum.splits)
qed (simp add: put_all_def)

definition batch_reply_ok :: "ObjectData list \<Rightarrow> i32 \<Rightarrow> (i32 \<times> message list) rpc \<Rightarrow> bool" where
  "batch_reply_ok objs n r =
     (case r of
        Inr (n', errors) \<Rightarrow> (\<forall>od\<in>set objs. od_object_id od \<noteq> None) \<and> n' + of_nat (length errors) = n
      | Inl st \<Rightarrow> (\<exists>od\<in>set objs. od_object_id od = None) \<and> st = InvalidArgument [Lit ''object_id required''])"

lemma batch_put_loop_reply:
  "batch_reply_ok objs (n + of_nat (length errors) + of_nat (length objs)) (fst (batch_put_loop now objs n errors s))"
proof (induction objs arbitrary: n errors s)
  case (Cons od objs)
  show ?case
  proof (cases "od_object_id od")
    case (Some i)
    obtain r s1 where p: "os_put now (id_from_proto i) (od_data od) s = (r, s1)" by force
    have mono: "batch_reply_ok objs m x \<Longrightarrow> batch_reply_ok (od # objs) m x" for m x
      using Some by (auto simp: batch_reply_ok_def split: sum.splits)
    show ?thesis
    proof (cases r)
      case (Inl e)
      with mono[OF Cons.IH[of n "errors @ [error_to_string e]" s1]] Some p show ?thesis
        by (simp add: algebra_simps)
    next
      case (Inr u)
      with mono[OF Cons.IH[of "n + 1" errors s1]] Some p show ?thesis by (simp add: algebra_simps)
    qed
  qed (simp add: batch_reply_ok_def)
qed (simp add: batch_reply_ok_def)

section \<open>Properties\<close>

text \<open>
  Batches: a batch put whose objects all have identifiers answers with a count of successes
  that with the error messages accounts for every object, and stores as the single puts in order;
  an object without an identifier turns the whole answer into an error, although the objects
  before it are stored. The count of a delete is the number of identifiers in the request,
  whether the objects existed or not, and afterwards none of them is stored.
\<close>

lemma batch_requests:
  assumes "os_inv s"
  shows "batch_reply_ok objs (of_nat (length objs)) (fst (rpc_batch_put now objs s))
    \<and> snd (rpc_batch_put now objs s) = put_all now objs s
    \<and> fst (rpc_delete ids s) = Inr (of_nat (length ids))
    \<and> os_view (snd (rpc_delete ids s)) = (\<lambda>oid. if oid \<in> id_from_proto ` set ids then None else os_view s oid)"
  using batch_put_loop_reply[of objs 0 "[]" now s] batch_put_loop_store[of now objs 0 "[]" s]
    delete_loop_spec[OF assms, of ids 0]
  by (simp add: rpc_batch_put_def rpc_delete_def split_beta Let_def)

end
