(* ===== verification/Gcs_Store.thy ===== *)
theory Gcs_Store
  imports Core_Types
begin

text \<open>
  \<^verbatim>\<open>crates/ray-gcs/src/store.rs\<close>: the in-memory global control store. Each of its four tables has
  its own lock and every method holds one of them once, so every method is one atomic step. The
  methods that the trait \<^verbatim>\<open>GcsStore\<close> provides come first.

  The node, job and resource-usage tables interpret the registry contract on the store's own
  operations. The actor table has its own life cycle, a step relation at the end.
\<close>

section \<open>The trait's provided methods\<close>

text \<open>
  \<^verbatim>\<open>GcsStore\<close> in \<^verbatim>\<open>crates/ray-core/src/traits.rs\<close> gives five of its methods a body, for a back end
  that does not have them; the in-memory store below overrides all five.
\<close>

definition not_implemented :: "string \<Rightarrow> 'a RayResult" where
  "not_implemented name = Inl (Internal [Lit (name @ '' not implemented'')])"

definition default_add_job :: "JobInfo \<Rightarrow> unit RayResult" where
  "default_add_job job_info = not_implemented ''add_job''"

definition default_mark_job_finished :: "JobId \<Rightarrow> unit RayResult" where
  "default_mark_job_finished job_id = not_implemented ''mark_job_finished''"

definition default_get_all_jobs :: "JobInfo list RayResult" where
  "default_get_all_jobs = not_implemented ''get_all_jobs''"

definition default_report_resource_usage :: "ResourceUsageInfo \<Rightarrow> unit RayResult" where
  "default_report_resource_usage usage = not_implemented ''report_resource_usage''"

definition default_get_all_resource_usage :: "ResourceUsageInfo list RayResult" where
  "default_get_all_resource_usage = not_implemented ''get_all_resource_usage''"

section \<open>The in-memory store\<close>

record InMemoryGcsStore =
  gcs_nodes :: "(NodeId, NodeInfo) hash_map"
  gcs_actors :: "(ActorId, ActorInfo) hash_map"
  gcs_jobs :: "(JobId, JobInfo) hash_map"
  gcs_resource_usage :: "(NodeId, ResourceUsageInfo) hash_map"

definition gcs_new :: InMemoryGcsStore where
  "gcs_new = \<lparr>gcs_nodes = [], gcs_actors = [], gcs_jobs = [], gcs_resource_usage = []\<rparr>"

section \<open>Nodes\<close>

definition register_node :: "NodeInfo \<Rightarrow> InMemoryGcsStore \<Rightarrow> unit RayResult \<times> InMemoryGcsStore" where
  "register_node node_info s =
     (Inr (), s\<lparr>gcs_nodes := hm_insert (ni_node_id node_info) node_info (gcs_nodes s)\<rparr>)"

definition unregister_node :: "NodeId \<Rightarrow> InMemoryGcsStore \<Rightarrow> unit RayResult \<times> InMemoryGcsStore" where
  "unregister_node node_id s = (Inr (), s\<lparr>gcs_nodes := hm_remove node_id (gcs_nodes s)\<rparr>)"

definition get_all_nodes :: "InMemoryGcsStore \<Rightarrow> NodeInfo list RayResult" where
  "get_all_nodes s = Inr (hm_values (gcs_nodes s))"

section \<open>Actors\<close>

definition new_actor_info :: "ActorSpec \<Rightarrow> ActorInfo" where
  "new_actor_info spec =
     \<lparr>ai_actor_id = as_actor_id spec, ai_job_id = as_job_id spec, ai_class_name = as_class_name spec,
      ai_state = AS_Pending, ai_node_id = id_default, ai_num_restarts = 0\<rparr>"

definition register_actor :: "ActorSpec \<Rightarrow> InMemoryGcsStore \<Rightarrow> ActorId RayResult \<times> InMemoryGcsStore" where
  "register_actor spec s =
     (Inr (as_actor_id spec),
      s\<lparr>gcs_actors := hm_insert (as_actor_id spec) (new_actor_info spec) (gcs_actors s)\<rparr>)"

definition get_actor :: "ActorId \<Rightarrow> InMemoryGcsStore \<Rightarrow> ActorInfo option RayResult" where
  "get_actor actor_id s = Inr (hm_get (gcs_actors s) actor_id)"

definition get_all_actors :: "JobId option \<Rightarrow> InMemoryGcsStore \<Rightarrow> ActorInfo list RayResult" where
  "get_all_actors job_id s =
     Inr (case job_id of
            Some jid \<Rightarrow> filter (\<lambda>a. ai_job_id a = jid) (hm_values (gcs_actors s))
          | None \<Rightarrow> hm_values (gcs_actors s))"

definition actor_not_found :: "ActorId \<Rightarrow> RayError" where
  "actor_not_found actor_id = ActorNotFound [Lit (id_debug ''ActorId'' actor_id)]"

definition kill_actor :: "ActorId \<Rightarrow> InMemoryGcsStore \<Rightarrow> unit RayResult \<times> InMemoryGcsStore" where
  "kill_actor actor_id s =
     (case hm_get (gcs_actors s) actor_id of
        Some actor \<Rightarrow>
          (Inr (), s\<lparr>gcs_actors := hm_modify actor_id (\<lambda>a. a\<lparr>ai_state := AS_Dead\<rparr>) (gcs_actors s)\<rparr>)
      | None \<Rightarrow> (Inl (actor_not_found actor_id), s))"

section \<open>Jobs\<close>

definition add_job :: "JobInfo \<Rightarrow> InMemoryGcsStore \<Rightarrow> unit RayResult \<times> InMemoryGcsStore" where
  "add_job job_info s = (Inr (), s\<lparr>gcs_jobs := hm_insert (ji_job_id job_info) job_info (gcs_jobs s)\<rparr>)"

text \<open>The clock is an argument: milliseconds since the epoch, cut to 64 bits by \<^verbatim>\<open>as i64\<close>.\<close>

definition mark_job_finished :: "nat \<Rightarrow> JobId \<Rightarrow> InMemoryGcsStore \<Rightarrow> unit RayResult \<times> InMemoryGcsStore" where
  "mark_job_finished now_ms job_id s =
     (case hm_get (gcs_jobs s) job_id of
        Some job \<Rightarrow>
          (Inr (), s\<lparr>gcs_jobs := hm_modify job_id
             (\<lambda>j. j\<lparr>ji_is_dead := True, ji_end_time_ms := of_nat now_ms\<rparr>) (gcs_jobs s)\<rparr>)
      | None \<Rightarrow> (Inl (Internal [Lit ''Job '', Lit (id_debug ''JobId'' job_id), Lit '' not found'']), s))"

definition get_all_jobs :: "InMemoryGcsStore \<Rightarrow> JobInfo list RayResult" where
  "get_all_jobs s = Inr (hm_values (gcs_jobs s))"

section \<open>Resource usage\<close>

definition report_resource_usage :: "ResourceUsageInfo \<Rightarrow> InMemoryGcsStore \<Rightarrow> unit RayResult \<times> InMemoryGcsStore" where
  "report_resource_usage usage s =
     (Inr (), s\<lparr>gcs_resource_usage := hm_insert (ru_node_id usage) usage (gcs_resource_usage s)\<rparr>)"

definition get_all_resource_usage :: "InMemoryGcsStore \<Rightarrow> ResourceUsageInfo list RayResult" where
  "get_all_resource_usage s = Inr (hm_values (gcs_resource_usage s))"

section \<open>Invariant and registries\<close>

definition gcs_inv :: "InMemoryGcsStore \<Rightarrow> bool" where
  "gcs_inv s \<longleftrightarrow>
     hm_keyed ni_node_id (gcs_nodes s) \<and> hm_keyed ai_actor_id (gcs_actors s) \<and>
     hm_keyed ji_job_id (gcs_jobs s) \<and> hm_keyed ru_node_id (gcs_resource_usage s)"

lemma gcs_inv_new [simp]: "gcs_inv gcs_new"
  by (simp add: gcs_inv_def gcs_new_def)

lemma gcs_inv_ops [ray_inv]:
  assumes "gcs_inv s"
  shows "gcs_inv (snd (register_node n s))" "gcs_inv (snd (unregister_node nid s))"
    "gcs_inv (snd (register_actor spec s))" "gcs_inv (snd (kill_actor aid s))"
    "gcs_inv (snd (add_job j s))" "gcs_inv (snd (mark_job_finished now jid s))"
    "gcs_inv (snd (report_resource_usage u s))"
  using assms
  by (auto simp: gcs_inv_def register_node_def unregister_node_def register_actor_def new_actor_info_def
      kill_actor_def add_job_def mark_job_finished_def report_resource_usage_def
      intro!: hm_keyed_insert hm_keyed_remove hm_keyed_modify split: option.splits)

definition nodes_list :: "InMemoryGcsStore \<Rightarrow> NodeInfo list" where
  "nodes_list s = unwrap_or (get_all_nodes s) []"

interpretation gn: registry_with_removal gcs_inv "\<lambda>s. hm_get (gcs_nodes s)" "\<lambda>n s. snd (register_node n s)"
  nodes_list ni_node_id "\<lambda>k s. snd (unregister_node k s)"
proof (unfold_locales, goal_cases)
  case (4 s v)
  then show ?case by (simp add: gcs_inv_def nodes_list_def get_all_nodes_def hm_keyed_values)
qed (auto simp: gcs_inv_ops, auto simp: gcs_inv_def register_node_def unregister_node_def nodes_list_def get_all_nodes_def
      intro: hm_keyedD hm_keyed_distinct_keys)

interpretation gj: registry gcs_inv "\<lambda>s. hm_get (gcs_jobs s)" "\<lambda>j s. snd (add_job j s)"
  "\<lambda>s. unwrap_or (get_all_jobs s) []" ji_job_id
proof (unfold_locales, goal_cases)
  case (4 s v)
  then show ?case by (simp add: gcs_inv_def get_all_jobs_def hm_keyed_values)
qed (auto simp: gcs_inv_ops, auto simp: gcs_inv_def add_job_def get_all_jobs_def
      intro: hm_keyedD hm_keyed_distinct_keys)

interpretation gu: registry gcs_inv "\<lambda>s. hm_get (gcs_resource_usage s)" "\<lambda>u s. snd (report_resource_usage u s)"
  "\<lambda>s. unwrap_or (get_all_resource_usage s) []" ru_node_id
proof (unfold_locales, goal_cases)
  case (4 s v)
  then show ?case by (simp add: gcs_inv_def get_all_resource_usage_def hm_keyed_values)
qed (auto simp: gcs_inv_ops, auto simp: gcs_inv_def report_resource_usage_def get_all_resource_usage_def
      intro: hm_keyedD hm_keyed_distinct_keys)

section \<open>The life cycle of an actor\<close>

text \<open>One operation of the store; \<open>regs\<close> says which actor identifiers may be registered.\<close>

inductive gcs_step :: "(ActorId \<Rightarrow> bool) \<Rightarrow> InMemoryGcsStore \<Rightarrow> InMemoryGcsStore \<Rightarrow> bool" for regs where
  node: "gcs_step regs s (snd (register_node n s))"
| drop_node: "gcs_step regs s (snd (unregister_node nid s))"
| actor: "regs (as_actor_id spec) \<Longrightarrow> gcs_step regs s (snd (register_actor spec s))"
| kill: "gcs_step regs s (snd (kill_actor aid s))"
| job: "gcs_step regs s (snd (add_job j s))"
| finish: "gcs_step regs s (snd (mark_job_finished now jid s))"
| usage: "gcs_step regs s (snd (report_resource_usage u s))"

inductive_cases gcs_stepE: "gcs_step regs s s'"

lemma gcs_step_inv: "gcs_step regs s s' \<Longrightarrow> gcs_inv s \<Longrightarrow> gcs_inv s'"
  by (erule gcs_stepE) (auto intro: gcs_inv_ops)

lemma gcs_steps_inv: "(gcs_step regs)\<^sup>*\<^sup>* s s' \<Longrightarrow> gcs_inv s \<Longrightarrow> gcs_inv s'"
  by (induction rule: rtranclp_induct) (auto intro: gcs_step_inv)

definition actor_dead :: "ActorId \<Rightarrow> InMemoryGcsStore \<Rightarrow> bool" where
  "actor_dead aid s \<longleftrightarrow> (\<exists>a. hm_get (gcs_actors s) aid = Some a \<and> ai_state a = AS_Dead)"

lemma actor_dead_step: "gcs_step (\<lambda>a. a \<noteq> aid) s s' \<Longrightarrow> actor_dead aid s \<Longrightarrow> actor_dead aid s'"
  by (erule gcs_stepE)
     (auto simp: actor_dead_def register_node_def unregister_node_def register_actor_def kill_actor_def add_job_def
        mark_job_finished_def report_resource_usage_def split: option.splits)

lemma actor_dead_steps: "(gcs_step (\<lambda>a. a \<noteq> aid))\<^sup>*\<^sup>* s s' \<Longrightarrow> actor_dead aid s \<Longrightarrow> actor_dead aid s'"
  by (induction rule: rtranclp_induct) (auto intro: actor_dead_step)

definition actor_fresh_or_dead :: "ActorInfo \<Rightarrow> bool" where
  "actor_fresh_or_dead a \<longleftrightarrow>
     ai_state a \<in> {AS_Pending, AS_Dead} \<and> ai_node_id a = id_default \<and> ai_num_restarts a = 0"

lemma actors_step:
  "gcs_step regs s s' \<Longrightarrow> (\<And>aid a. hm_get (gcs_actors s) aid = Some a \<Longrightarrow> actor_fresh_or_dead a) \<Longrightarrow>
   hm_get (gcs_actors s') aid = Some a \<Longrightarrow> actor_fresh_or_dead a"
proof (erule gcs_stepE)
  fix spec assume h: "\<And>aid a. hm_get (gcs_actors s) aid = Some a \<Longrightarrow> actor_fresh_or_dead a"
    and g: "hm_get (gcs_actors s') aid = Some a" and s': "s' = snd (register_actor spec s)"
  show "actor_fresh_or_dead a"
    using h[of aid a] g by (auto simp: s' register_actor_def new_actor_info_def actor_fresh_or_dead_def split: if_splits)
next
  fix k assume h: "\<And>aid a. hm_get (gcs_actors s) aid = Some a \<Longrightarrow> actor_fresh_or_dead a"
    and g: "hm_get (gcs_actors s') aid = Some a" and s': "s' = snd (kill_actor k s)"
  show "actor_fresh_or_dead a"
    using h g by (auto simp: s' kill_actor_def actor_fresh_or_dead_def split: if_splits option.splits)
qed (auto simp: register_node_def unregister_node_def add_job_def mark_job_finished_def report_resource_usage_def
      split: option.splits)

lemma actors_steps:
  "(gcs_step regs)\<^sup>*\<^sup>* gcs_new s \<Longrightarrow> hm_get (gcs_actors s) aid = Some a \<Longrightarrow> actor_fresh_or_dead a"
proof (induction arbitrary: aid a rule: rtranclp_induct)
  case base
  then show ?case by (simp add: gcs_new_def)
next
  case (step s s')
  from actors_step[OF step.hyps(2) step.IH step.prems] show ?case .
qed

section \<open>Properties\<close>

text \<open>
  C28. The node table: after any sequence of registrations, the listing has each node once, with
  what it registered last, and the other nodes unchanged; a node that is then unregistered is
  the only one that disappears.
\<close>

theorem gcs_node_table:
  fixes infos :: "NodeInfo list"
  assumes "gcs_inv s"
  defines "s' \<equiv> fold (\<lambda>n s. snd (register_node n s)) infos s"
  shows "distinct (map ni_node_id (nodes_list s')) \<and>
    (\<forall>n. n \<in> set (nodes_list s') \<longleftrightarrow>
       (case find (\<lambda>v. ni_node_id v = ni_node_id n) (rev infos) of
          Some v \<Rightarrow> n = v | None \<Rightarrow> n \<in> set (nodes_list s))) \<and>
    (\<forall>n nid. n \<in> set (nodes_list (snd (unregister_node nid s'))) \<longleftrightarrow>
       n \<in> set (nodes_list s') \<and> ni_node_id n \<noteq> nid)"
proof -
  have inv: "gcs_inv s'" unfolding s'_def by (rule gn.inv_puts[OF assms(1)])
  have "n \<in> set (nodes_list s') \<longleftrightarrow>
      (case find (\<lambda>v. ni_node_id v = ni_node_id n) (rev infos) of
         Some v \<Rightarrow> n = v | None \<Rightarrow> n \<in> set (nodes_list s))" for n
    using gn.set_all[OF inv, of n] gn.set_all[OF assms(1), of n]
      gn.lookup_puts[OF assms(1), of infos "ni_node_id n"]
    by (auto simp: s'_def split: option.splits)
  then show ?thesis using gn.distinct_all[OF inv] gn.all_del_iff[OF inv] by blast
qed

definition idle_node :: "u8 \<Rightarrow> i32 \<Rightarrow> NodeInfo" where
  "idle_node k port =
     \<lparr>ni_node_id = from_slice [k], ni_address = ''10.0.0.1'', ni_port = port, ni_total_resources = resources_new,
      ni_available_resources = resources_new, ni_is_alive = True\<rparr>"

theorem gcs_node_table_witness:
  "idle_node 1 80 \<in> set (nodes_list (fold (\<lambda>n s. snd (register_node n s)) [idle_node 1 70, idle_node 1 80] gcs_new))"
  using gcs_node_table[OF gcs_inv_new, of "[idle_node 1 70, idle_node 1 80]"] by (simp add: idle_node_def)

text \<open>
  C27. The life cycle of an actor: in every reachable store an actor is pending or dead, unplaced
  and never restarted; killing it succeeds exactly when it is registered; and once killed it
  is reported dead until somebody registers the same identifier again.
\<close>

theorem actor_lifecycle:
  assumes "(gcs_step regs)\<^sup>*\<^sup>* gcs_new s" "hm_get (gcs_actors s) aid = Some a"
  shows "actor_fresh_or_dead a \<and> ai_actor_id a = aid \<and> fst (kill_actor aid s) = Inr () \<and>
    (\<forall>s'. (gcs_step (\<lambda>k. k \<noteq> aid))\<^sup>*\<^sup>* (snd (kill_actor aid s)) s' \<longrightarrow>
       (\<exists>a'. get_actor aid s' = Inr (Some a') \<and> ai_state a' = AS_Dead))"
proof -
  have "hm_keyed ai_actor_id (gcs_actors s)" using gcs_steps_inv[OF assms(1) gcs_inv_new] by (simp add: gcs_inv_def)
  moreover have "actor_dead aid (snd (kill_actor aid s))" using assms(2) by (simp add: actor_dead_def kill_actor_def)
  ultimately show ?thesis
    using actors_steps[OF assms] assms(2) actor_dead_steps[of aid "snd (kill_actor aid s)"] hm_keyedD
    by (auto simp: kill_actor_def get_actor_def actor_dead_def)
qed

theorem actor_lifecycle_witness:
  "\<exists>a'. get_actor id_default (snd (kill_actor id_default (snd (register_actor
      \<lparr>as_actor_id = id_default, as_job_id = id_default, as_class_name = [], as_class_payload = [],
       as_constructor_args = [], as_required_resources = resources_new, as_max_restarts = 0\<rparr> gcs_new)))) =
     Inr (Some a') \<and> ai_state a' = AS_Dead"
proof -
  let ?spec = "\<lparr>as_actor_id = id_default, as_job_id = id_default, as_class_name = [], as_class_payload = [],
       as_constructor_args = [], as_required_resources = resources_new, as_max_restarts = 0\<rparr> :: ActorSpec"
  let ?s = "snd (register_actor ?spec gcs_new)"
  have "gcs_step (\<lambda>_. True) gcs_new ?s" by (rule gcs_step.actor) simp
  then have r: "(gcs_step (\<lambda>_. True))\<^sup>*\<^sup>* gcs_new ?s" by (rule r_into_rtranclp)
  have g: "hm_get (gcs_actors ?s) id_default = Some (new_actor_info ?spec)" by (simp add: register_actor_def)
  show ?thesis using actor_lifecycle[OF r g] by blast
qed

end
