(* ===== verification/Gcs_Server.thy ===== *)
theory Gcs_Server
  imports Gcs_Store Core_Proto_Conv
begin

text \<open>
  \<^verbatim>\<open>crates/ray-gcs/src/server.rs\<close>: the thirteen RPC handlers of the GCS service over the in-memory
  store. A handler takes the fields of its request message and returns a reply or a status; the
  transport (tonic) is not part of the repository. The messages are those of \<^verbatim>\<open>proto/gcs.proto\<close>;
  fields the handlers leave at their default are included.

  \<^verbatim>\<open>report_node_heartbeat\<close> reads the table and writes it back in two lock sections, which are also
  separate steps here.
\<close>

text \<open>Starting the service: tonic's server is an argument; its error becomes a transport error.\<close>

definition gcs_serve :: "(InMemoryGcsStore \<Rightarrow> 'addr \<Rightarrow> string + unit) \<Rightarrow> InMemoryGcsStore \<Rightarrow> 'addr \<Rightarrow> unit RayResult" where
  "gcs_serve tonic_serve server addr = map_sum (\<lambda>e. Transport [Lit e]) id (tonic_serve server addr)"

record ProtoNodeInfo =
  pn_node_id :: "ProtoId option"
  pn_node_manager_address :: string
  pn_node_manager_port :: i32
  pn_total_resources :: "ProtoResources option"
  pn_available_resources :: "ProtoResources option"
  pn_is_alive :: bool
  pn_start_time_ms :: i64
  pn_labels :: "(string, string) hash_map"

record ProtoActorInfo =
  pi_actor_id :: "ProtoId option"
  pi_job_id :: "ProtoId option"
  pi_class_name :: string
  pi_state :: i32
  pi_address :: "ProtoAddress option"
  pi_node_id :: "ProtoId option"
  pi_start_time_ms :: i64
  pi_end_time_ms :: i64
  pi_num_restarts :: i32

record ProtoJobInfo =
  pj_job_id :: "ProtoId option"
  pj_driver_ip :: string
  pj_start_time_ms :: i64
  pj_end_time_ms :: i64
  pj_is_dead :: bool
  pj_config :: "(string, string) hash_map"

record ProtoResourceUsage =
  pu_node_id :: "ProtoId option"
  pu_available :: "ProtoResources option"
  pu_total :: "ProtoResources option"
  pu_timestamp_ms :: i64

section \<open>Message conversions\<close>

definition node_from_proto :: "ProtoNodeInfo \<Rightarrow> NodeInfo" where
  "node_from_proto p =
     \<lparr>ni_node_id = id_from_option (pn_node_id p), ni_address = pn_node_manager_address p,
      ni_port = pn_node_manager_port p,
      ni_total_resources = resources_from_option (pn_total_resources p),
      ni_available_resources = resources_from_option (pn_available_resources p), ni_is_alive = True\<rparr>"

definition node_to_proto :: "NodeInfo \<Rightarrow> ProtoNodeInfo" where
  "node_to_proto n =
     (let fields = node_info_to_proto_fields n
      in \<lparr>pn_node_id = nf_node_id fields, pn_node_manager_address = nf_address fields,
          pn_node_manager_port = nf_port fields, pn_total_resources = nf_total_resources fields,
          pn_available_resources = nf_available_resources fields, pn_is_alive = nf_is_alive fields,
          pn_start_time_ms = 0, pn_labels = []\<rparr>)"

definition actor_to_proto :: "ActorInfo \<Rightarrow> ProtoActorInfo" where
  "actor_to_proto a =
     (let fields = actor_info_to_proto_fields a
      in \<lparr>pi_actor_id = af_actor_id fields, pi_job_id = af_job_id fields, pi_class_name = af_class_name fields,
          pi_state = af_state fields, pi_address = None, pi_node_id = af_node_id fields,
          pi_start_time_ms = 0, pi_end_time_ms = 0, pi_num_restarts = af_num_restarts fields\<rparr>)"

definition job_from_proto :: "ProtoJobInfo \<Rightarrow> JobInfo" where
  "job_from_proto p =
     \<lparr>ji_job_id = id_from_option (pj_job_id p), ji_driver_ip = pj_driver_ip p,
      ji_start_time_ms = pj_start_time_ms p, ji_end_time_ms = pj_end_time_ms p,
      ji_is_dead = pj_is_dead p, ji_config = pj_config p\<rparr>"

definition job_to_proto :: "JobInfo \<Rightarrow> ProtoJobInfo" where
  "job_to_proto j =
     \<lparr>pj_job_id = id_to_option (ji_job_id j), pj_driver_ip = ji_driver_ip j,
      pj_start_time_ms = ji_start_time_ms j, pj_end_time_ms = ji_end_time_ms j,
      pj_is_dead = ji_is_dead j, pj_config = ji_config j\<rparr>"

definition usage_from_proto :: "ProtoResourceUsage \<Rightarrow> ResourceUsageInfo" where
  "usage_from_proto p =
     \<lparr>ru_node_id = id_from_option (pu_node_id p), ru_available = resources_from_option (pu_available p),
      ru_total = resources_from_option (pu_total p), ru_timestamp_ms = pu_timestamp_ms p\<rparr>"

definition usage_to_proto :: "ResourceUsageInfo \<Rightarrow> ProtoResourceUsage" where
  "usage_to_proto u =
     \<lparr>pu_node_id = id_to_option (ru_node_id u), pu_available = resources_to_option (ru_available u),
      pu_total = resources_to_option (ru_total u), pu_timestamp_ms = ru_timestamp_ms u\<rparr>"

section \<open>Node handlers\<close>

definition rpc_register_node ::
  "ProtoNodeInfo option \<Rightarrow> InMemoryGcsStore \<Rightarrow> (bool \<times> string) rpc \<times> InMemoryGcsStore" where
  "rpc_register_node req s =
     (case require_arg ''node_info'' req of
        Inl st \<Rightarrow> (Inl st, s)
      | Inr node_info \<Rightarrow>
          (let (r, s) = register_node (node_from_proto node_info) s
           in case internal_err r of
                Inl st \<Rightarrow> (Inl st, s)
              | Inr _ \<Rightarrow> (Inr (True, ''Node registered''), s)))"

definition rpc_unregister_node :: "ProtoId option \<Rightarrow> InMemoryGcsStore \<Rightarrow> bool rpc \<times> InMemoryGcsStore" where
  "rpc_unregister_node req s =
     (case require_arg ''node_id'' req of
        Inl st \<Rightarrow> (Inl st, s)
      | Inr node_id \<Rightarrow>
          (let (r, s) = unregister_node (id_from_proto node_id) s
           in case internal_err r of Inl st \<Rightarrow> (Inl st, s) | Inr _ \<Rightarrow> (Inr True, s)))"

definition rpc_get_all_node_info :: "InMemoryGcsStore \<Rightarrow> ProtoNodeInfo list rpc" where
  "rpc_get_all_node_info s = map_sum id (map node_to_proto) (internal_err (get_all_nodes s))"

text \<open>The heartbeat: the section that reads the table, and the one that writes the copy back.\<close>

definition heartbeat_read :: "NodeId \<Rightarrow> Resources \<Rightarrow> InMemoryGcsStore \<Rightarrow> NodeInfo option" where
  "heartbeat_read node_id resources s =
     (let nodes = unwrap_or (get_all_nodes s) []
      in map_option (\<lambda>node. node\<lparr>ni_available_resources := resources\<rparr>)
           (find (\<lambda>n. ni_node_id n = node_id) nodes))"

definition heartbeat_write :: "NodeInfo option \<Rightarrow> InMemoryGcsStore \<Rightarrow> InMemoryGcsStore" where
  "heartbeat_write node s = (case node of Some n \<Rightarrow> snd (register_node n s) | None \<Rightarrow> s)"

definition rpc_report_node_heartbeat ::
  "ProtoId option \<Rightarrow> ProtoResources option \<Rightarrow> InMemoryGcsStore \<Rightarrow> bool rpc \<times> InMemoryGcsStore" where
  "rpc_report_node_heartbeat node_id available s =
     (Inr False,
      case (node_id, available) of
        (Some nid, Some avail) \<Rightarrow>
          heartbeat_write (heartbeat_read (id_from_proto nid) (resources_from_proto avail) s) s
      | _ \<Rightarrow> s)"

section \<open>Actor handlers\<close>

definition rpc_register_actor ::
  "ProtoActorSpec option \<Rightarrow> InMemoryGcsStore \<Rightarrow> (bool \<times> ProtoId option) rpc \<times> InMemoryGcsStore" where
  "rpc_register_actor req s =
     (case require_arg ''actor_spec'' req of
        Inl st \<Rightarrow> (Inl st, s)
      | Inr spec \<Rightarrow>
          (case actor_spec_from_proto spec of
             Inl e \<Rightarrow> (Inl (InvalidArgument (error_to_string e)), s)
           | Inr core_spec \<Rightarrow>
               (let (r, s) = register_actor core_spec s
                in case internal_err r of
                     Inl st \<Rightarrow> (Inl st, s)
                   | Inr _ \<Rightarrow> (Inr (True, Some (id_to_proto (as_actor_id core_spec))), s))))"

definition rpc_get_actor_info :: "ProtoId option \<Rightarrow> InMemoryGcsStore \<Rightarrow> ProtoActorInfo rpc" where
  "rpc_get_actor_info req s =
     (case require_arg ''actor_id'' req of
        Inl st \<Rightarrow> Inl st
      | Inr actor_id \<Rightarrow>
          (case internal_err (get_actor (id_from_proto actor_id) s) of
             Inl st \<Rightarrow> Inl st
           | Inr (Some info) \<Rightarrow> Inr (actor_to_proto info)
           | Inr None \<Rightarrow> Inl (NotFound [Lit ''Actor not found''])))"

definition rpc_get_all_actor_info :: "ProtoId option \<Rightarrow> InMemoryGcsStore \<Rightarrow> ProtoActorInfo list rpc" where
  "rpc_get_all_actor_info job_id s =
     map_sum id (map actor_to_proto) (internal_err (get_all_actors (map_option id_from_proto job_id) s))"

definition rpc_kill_actor :: "ProtoId option \<Rightarrow> InMemoryGcsStore \<Rightarrow> bool rpc \<times> InMemoryGcsStore" where
  "rpc_kill_actor req s =
     (case require_arg ''actor_id'' req of
        Inl st \<Rightarrow> (Inl st, s)
      | Inr actor_id \<Rightarrow>
          (let (r, s) = kill_actor (id_from_proto actor_id) s
           in case internal_err r of Inl st \<Rightarrow> (Inl st, s) | Inr _ \<Rightarrow> (Inr True, s)))"

section \<open>Job and resource handlers\<close>

definition rpc_add_job :: "ProtoJobInfo option \<Rightarrow> InMemoryGcsStore \<Rightarrow> bool rpc \<times> InMemoryGcsStore" where
  "rpc_add_job req s =
     (case require_arg ''job_info'' req of
        Inl st \<Rightarrow> (Inl st, s)
      | Inr job_info \<Rightarrow>
          (let (r, s) = add_job (job_from_proto job_info) s
           in case internal_err r of Inl st \<Rightarrow> (Inl st, s) | Inr _ \<Rightarrow> (Inr True, s)))"

definition rpc_mark_job_finished :: "nat \<Rightarrow> ProtoId option \<Rightarrow> InMemoryGcsStore \<Rightarrow> bool rpc \<times> InMemoryGcsStore" where
  "rpc_mark_job_finished now_ms req s =
     (case require_arg ''job_id'' req of
        Inl st \<Rightarrow> (Inl st, s)
      | Inr job_id \<Rightarrow>
          (let (r, s) = mark_job_finished now_ms (id_from_proto job_id) s
           in case internal_err r of Inl st \<Rightarrow> (Inl st, s) | Inr _ \<Rightarrow> (Inr True, s)))"

definition rpc_get_all_job_info :: "InMemoryGcsStore \<Rightarrow> ProtoJobInfo list rpc" where
  "rpc_get_all_job_info s = map_sum id (map job_to_proto) (internal_err (get_all_jobs s))"

definition rpc_report_resource_usage ::
  "ProtoResourceUsage option \<Rightarrow> InMemoryGcsStore \<Rightarrow> unit rpc \<times> InMemoryGcsStore" where
  "rpc_report_resource_usage req s =
     (case require_arg ''usage'' req of
        Inl st \<Rightarrow> (Inl st, s)
      | Inr usage \<Rightarrow>
          (let (r, s) = report_resource_usage (usage_from_proto usage) s in (internal_err r, s)))"

definition rpc_get_all_resource_usage :: "InMemoryGcsStore \<Rightarrow> ProtoResourceUsage list rpc" where
  "rpc_get_all_resource_usage s = map_sum id (map usage_to_proto) (internal_err (get_all_resource_usage s))"

section \<open>The heartbeat\<close>

lemma find_unique:
  "distinct (map f xs) \<Longrightarrow> x \<in> set xs \<Longrightarrow> find (\<lambda>y. f y = f x) xs = Some x"
  by (induction xs) (auto simp: image_iff)

lemma heartbeat_read_lookup:
  assumes "gcs_inv s"
  shows "heartbeat_read nid r s = map_option (\<lambda>n. n\<lparr>ni_available_resources := r\<rparr>) (hm_get (gcs_nodes s) nid)"
proof -
  have "find (\<lambda>n. ni_node_id n = nid) (nodes_list s) = hm_get (gcs_nodes s) nid"
  proof (cases "hm_get (gcs_nodes s) nid")
    case None
    then show ?thesis using gn.set_all[OF assms] by (auto simp: find_None_iff)
  next
    case (Some n)
    then have "n \<in> set (nodes_list s)" "ni_node_id n = nid"
      using gn.all_lookup[OF assms, of nid n] by auto
    with find_unique[OF gn.distinct_all[OF assms], of n] Some show ?thesis by simp
  qed
  then show ?thesis by (simp add: heartbeat_read_def nodes_list_def)
qed

lemma heartbeat_lookup:
  assumes "gcs_inv s" "heartbeat_read nid r s = node"
  shows "hm_get (gcs_nodes (heartbeat_write node s)) k =
    (if k = nid then map_option (\<lambda>n. n\<lparr>ni_available_resources := r\<rparr>) (hm_get (gcs_nodes s) nid)
     else hm_get (gcs_nodes s) k)"
proof (cases "hm_get (gcs_nodes s) nid")
  case None
  then show ?thesis using assms heartbeat_read_lookup[OF assms(1), of nid r] by (auto simp: heartbeat_write_def)
next
  case (Some n)
  moreover have "ni_node_id n = nid" using gn.lookup_key[OF assms(1) Some] .
  ultimately show ?thesis
    using assms heartbeat_read_lookup[OF assms(1), of nid r]
    by (auto simp: heartbeat_write_def register_node_def)
qed

section \<open>Properties\<close>

text \<open>
  A registered node is listed: after the \<^verbatim>\<open>RegisterNode\<close> call, \<^verbatim>\<open>GetAllNodeInfo\<close> returns the node
  with the address, port and resources it sent, marked alive, once, and does not change what it
  returns for the other nodes.
\<close>

lemma registered_node_is_listed:
  assumes "gcs_inv s" "pn_node_id p = Some (id_to_proto nid)"
    and "pn_total_resources p = Some (resources_to_proto tot)" "hm_ok (res_map tot)"
    and "pn_available_resources p = Some (resources_to_proto avail)" "hm_ok (res_map avail)"
  shows "\<exists>s' nodes. rpc_register_node (Some p) s = (Inr (True, ''Node registered''), s') \<and>
    rpc_get_all_node_info s' = Inr nodes \<and>
    filter (\<lambda>q. pn_node_id q = pn_node_id p) nodes =
      [p\<lparr>pn_is_alive := True, pn_start_time_ms := 0, pn_labels := []\<rparr>] \<and>
    (\<forall>n \<in> set (nodes_list s). ni_node_id n \<noteq> nid \<longrightarrow> node_to_proto n \<in> set nodes)"
proof -
  let ?n = "node_from_proto p"
  let ?s' = "snd (register_node ?n s)"
  have n: "ni_node_id ?n = nid" using assms(2) by (simp add: node_from_proto_def id_from_option_def)
  have inv: "gcs_inv ?s'" by (rule gcs_inv_ops(1)[OF assms(1)])
  have "hm_get (gcs_nodes ?s') nid = Some ?n" using n by (simp add: register_node_def)
  then have "filter (\<lambda>m. ni_node_id m = nid) (nodes_list ?s') = [?n]" by (rule gn.all_filter_key[OF inv])
  moreover have "pn_node_id (node_to_proto m) = pn_node_id p \<longleftrightarrow> ni_node_id m = nid" for m
    by (simp add: node_to_proto_def node_info_to_proto_fields_def assms(2) id_to_option_def id_to_proto_def)
  moreover have "node_to_proto ?n = p\<lparr>pn_is_alive := True, pn_start_time_ms := 0, pn_labels := []\<rparr>"
    using assms(2-6)
    by (cases p) (simp add: node_to_proto_def node_info_to_proto_fields_def node_from_proto_def id_from_option_def
        id_to_option_def resources_from_option_def resources_to_option_def resources_proto_roundtrip)
  ultimately have "filter (\<lambda>q. pn_node_id q = pn_node_id p) (map node_to_proto (nodes_list ?s')) =
      [p\<lparr>pn_is_alive := True, pn_start_time_ms := 0, pn_labels := []\<rparr>]"
    by (simp add: filter_map comp_def)
  moreover have "\<forall>m \<in> set (nodes_list s). ni_node_id m \<noteq> nid \<longrightarrow> m \<in> set (nodes_list ?s')"
    using gn.all_put_iff[OF assms(1)] n by simp
  moreover have "rpc_get_all_node_info ?s' = Inr (map node_to_proto (nodes_list ?s'))"
    by (simp add: rpc_get_all_node_info_def get_all_nodes_def nodes_list_def)
  moreover have "rpc_register_node (Some p) s = (Inr (True, ''Node registered''), ?s')"
    by (simp add: rpc_register_node_def require_arg_def register_node_def)
  ultimately show ?thesis by auto
qed

text \<open>
  A heartbeat updates the available resources of the node it names and nothing else; the
  heartbeat of an unknown node changes nothing.
\<close>

lemma heartbeat_updates_node:
  assumes "gcs_inv s" "hm_ok (res_map r)"
  shows "hm_get (gcs_nodes (snd (rpc_report_node_heartbeat (Some (id_to_proto nid)) (Some (resources_to_proto r)) s))) k =
    (if k = nid then map_option (\<lambda>n. n\<lparr>ni_available_resources := r\<rparr>) (hm_get (gcs_nodes s) nid)
     else hm_get (gcs_nodes s) k)"
  using heartbeat_lookup[OF assms(1) refl, of nid r k] assms(2)
  by (simp add: rpc_report_node_heartbeat_def resources_proto_roundtrip)

text \<open>
  C38. A heartbeat is two lock sections, a read and a write. Whatever happens to the store between them, the
  write touches only the entry of the node that sent it; if that entry is as it was read, the two
  sections have the effect of one; otherwise what happened to the entry in between is undone: the
  entry is again the one that was read, with the reported resources, so a node unregistered in between is registered again. The
  heartbeat of a node that was unknown when it was read changes nothing.
\<close>

theorem heartbeat_race:
  fixes nid :: NodeId and r :: Resources
  assumes "gcs_inv s" "(gcs_step regs)\<^sup>*\<^sup>* s s'"
  defines "late \<equiv> heartbeat_write (heartbeat_read nid r s) s'" and "atomic \<equiv> heartbeat_write (heartbeat_read nid r s') s'"
  shows "(\<forall>k. k \<noteq> nid \<longrightarrow> hm_get (gcs_nodes late) k = hm_get (gcs_nodes s') k)
    \<and> late\<lparr>gcs_nodes := gcs_nodes s'\<rparr> = s'
    \<and> (hm_get (gcs_nodes s') nid = hm_get (gcs_nodes s) nid \<longrightarrow> late = atomic)
    \<and> (case hm_get (gcs_nodes s) nid of
         Some n \<Rightarrow> hm_get (gcs_nodes late) nid = Some (n\<lparr>ni_available_resources := r\<rparr>)
       | None \<Rightarrow> late = s')"
proof (cases "hm_get (gcs_nodes s) nid")
  case None
  then have "late = s'" "hm_get (gcs_nodes s') nid = None \<Longrightarrow> atomic = s'"
    using heartbeat_read_lookup[OF assms(1), of nid r] heartbeat_read_lookup[OF gcs_steps_inv[OF assms(2,1)], of nid r]
    by (simp_all add: late_def atomic_def heartbeat_write_def)
  then show ?thesis using None by simp
next
  case (Some n)
  then have n: "heartbeat_read nid r s = Some (n\<lparr>ni_available_resources := r\<rparr>)" "ni_node_id n = nid"
    using heartbeat_read_lookup[OF assms(1), of nid r] gn.lookup_key[OF assms(1) Some] by simp_all
  then have late: "late = s'\<lparr>gcs_nodes := hm_insert nid (n\<lparr>ni_available_resources := r\<rparr>) (gcs_nodes s')\<rparr>"
    by (simp add: late_def heartbeat_write_def register_node_def)
  have "hm_get (gcs_nodes s') nid = Some n \<Longrightarrow> heartbeat_read nid r s' = heartbeat_read nid r s"
    using heartbeat_read_lookup[OF gcs_steps_inv[OF assms(2,1)], of nid r] n by simp
  then have "hm_get (gcs_nodes s') nid = Some n \<Longrightarrow> late = atomic" by (simp add: late_def atomic_def)
  with late Some show ?thesis by simp
qed

theorem heartbeat_race_witness:
  "let s = snd (register_node (idle_node 1 80) gcs_new); s' = snd (unregister_node (from_slice [1]) s)
   in hm_get (gcs_nodes (heartbeat_write (heartbeat_read (from_slice [1]) resources_new s) s')) (from_slice [1]) =
      Some (idle_node 1 80)"
proof -
  let ?s = "snd (register_node (idle_node 1 80) gcs_new)"
  have "gcs_inv ?s" by (simp add: gcs_inv_ops)
  moreover have "(gcs_step (\<lambda>_. True))\<^sup>*\<^sup>* ?s (snd (unregister_node (from_slice [1]) ?s))"
    by (rule r_into_rtranclp) (rule gcs_step.drop_node)
  moreover have "hm_get (gcs_nodes ?s) (from_slice [1]) = Some (idle_node 1 80)"
    by (simp add: register_node_def idle_node_def)
  moreover have "(idle_node 1 80)\<lparr>ni_available_resources := resources_new\<rparr> = idle_node 1 80" by (simp add: idle_node_def)
  ultimately show ?thesis
    using heartbeat_race[of ?s "\<lambda>_. True" _ "from_slice [1]" resources_new] by (auto simp: Let_def)
qed

end
