(* ===== verification/Global_Scheduler.thy ===== *)
theory Global_Scheduler
  imports Core_Types
begin

text \<open>
  \<^verbatim>\<open>crates/ray-scheduler\<close>: the cluster view and the placement policies of \<^verbatim>\<open>policy.rs\<close> and
  \<^verbatim>\<open>global.rs\<close>. The order in which a hash map yields its values is the order of the list that
  models it, so what is shown holds for every iteration order.

  The locale \<open>scheduling_policy\<close> is the contract of the trait \<^verbatim>\<open>SchedulingPolicy\<close>, interpreted on
  both policies; the view of the nodes interprets the registry contract.
\<close>

record NodeView =
  nv_node_id :: NodeId
  nv_address :: string
  nv_port :: i32
  nv_available :: Resources
  nv_total :: Resources
  nv_is_alive :: bool

section \<open>Policies\<close>

text \<open>\<^verbatim>\<open>Iterator::max_by\<close> keeps the last of equal elements, \<^verbatim>\<open>min_by\<close> the first.\<close>

fun max_by :: "('a \<Rightarrow> 'a \<Rightarrow> ordering) \<Rightarrow> 'a list \<Rightarrow> 'a option" where
  "max_by cmp [] = None"
| "max_by cmp (x # xs) = Some (foldl (\<lambda>a b. case cmp a b of Greater \<Rightarrow> a | _ \<Rightarrow> b) x xs)"

fun min_by :: "('a \<Rightarrow> 'a \<Rightarrow> ordering) \<Rightarrow> 'a list \<Rightarrow> 'a option" where
  "min_by cmp [] = None"
| "min_by cmp (x # xs) = Some (foldl (\<lambda>a b. case cmp a b of Greater \<Rightarrow> b | _ \<Rightarrow> a) x xs)"

definition cpu :: "NodeView \<Rightarrow> f64" where
  "cpu v = res_get (nv_available v) ''CPU''"

definition cmp_cpu :: "NodeView \<Rightarrow> NodeView \<Rightarrow> ordering" where
  "cmp_cpu a b = (case f64_partial_cmp (cpu a) (cpu b) of Some c \<Rightarrow> c | None \<Rightarrow> Equal)"

definition node_eligible :: "NodeView \<Rightarrow> Resources \<Rightarrow> bool" where
  "node_eligible n required = can_satisfy (nv_available n) required"

definition no_node_error :: "Resources \<Rightarrow> RayError" where
  "no_node_error required = InsufficientResources [Lit ''No node has enough resources for '', DebugRes required]"

definition spread_select :: "NodeView list \<Rightarrow> Resources \<Rightarrow> NodeView RayResult" where
  "spread_select nodes required =
     (let eligible = filter (\<lambda>n. node_eligible n required) nodes
      in if eligible = [] then Inl (no_node_error required)
         else (case max_by cmp_cpu eligible of
                 Some n \<Rightarrow> Inr n
               | None \<Rightarrow> Inl (SchedulingFailed [Lit ''Spread policy: no eligible node''])))"

definition pack_select :: "NodeView list \<Rightarrow> Resources \<Rightarrow> NodeView RayResult" where
  "pack_select nodes required =
     (let eligible = filter (\<lambda>n. node_eligible n required) nodes
      in if eligible = [] then Inl (no_node_error required)
         else (case min_by cmp_cpu eligible of
                 Some n \<Rightarrow> Inr n
               | None \<Rightarrow> Inl (SchedulingFailed [Lit ''Pack policy: no eligible node''])))"

datatype SchedulingPolicy = SpreadPolicy | PackPolicy

fun select_node :: "SchedulingPolicy \<Rightarrow> NodeView list \<Rightarrow> Resources \<Rightarrow> NodeView RayResult" where
  "select_node SpreadPolicy = spread_select"
| "select_node PackPolicy = pack_select"

fun policy_name :: "SchedulingPolicy \<Rightarrow> string" where
  "policy_name SpreadPolicy = ''spread''"
| "policy_name PackPolicy = ''pack''"

section \<open>The global scheduler\<close>

record GlobalScheduler =
  gs_nodes :: "(NodeId, NodeView) hash_map"
  gs_policy :: SchedulingPolicy

definition gs_new :: "SchedulingPolicy \<Rightarrow> GlobalScheduler" where
  "gs_new policy = \<lparr>gs_nodes = [], gs_policy = policy\<rparr>"

definition with_default_policy :: GlobalScheduler where
  "with_default_policy = gs_new SpreadPolicy"

definition update_node :: "NodeView \<Rightarrow> GlobalScheduler \<Rightarrow> GlobalScheduler" where
  "update_node view g = g\<lparr>gs_nodes := hm_insert (nv_node_id view) view (gs_nodes g)\<rparr>"

definition remove_node :: "NodeId \<Rightarrow> GlobalScheduler \<Rightarrow> GlobalScheduler" where
  "remove_node nid g = g\<lparr>gs_nodes := hm_remove nid (gs_nodes g)\<rparr>"

definition no_alive_error :: RayError where
  "no_alive_error = SchedulingFailed [Lit ''No alive nodes in cluster'']"

definition schedule_task :: "TaskSpec \<Rightarrow> GlobalScheduler \<Rightarrow> NodeId RayResult" where
  "schedule_task task g =
     (let alive_nodes = filter nv_is_alive (hm_values (gs_nodes g))
      in if alive_nodes = [] then Inl no_alive_error
         else map_sum id nv_node_id (select_node (gs_policy g) alive_nodes (ts_required_resources task)))"

definition gs_get_all_nodes :: "GlobalScheduler \<Rightarrow> NodeView list" where
  "gs_get_all_nodes g = hm_values (gs_nodes g)"

definition alive_node_count :: "GlobalScheduler \<Rightarrow> nat" where
  "alive_node_count g = length (filter nv_is_alive (hm_values (gs_nodes g)))"

section \<open>Selection by comparison\<close>

text \<open>The fold of both reductions returns a member that no later or earlier element beats.\<close>

lemma foldl_pick_mem: "foldl (\<lambda>a b. if P a b then a else b) x xs \<in> set (x # xs)"
  by (induction xs arbitrary: x) (auto split: if_splits)

lemma max_by_eq: "max_by cmp (x # xs) = Some (foldl (\<lambda>a b. if cmp a b = Greater then a else b) x xs)"
proof -
  have "(\<lambda>a b. case cmp a b of Greater \<Rightarrow> a | _ \<Rightarrow> b) = (\<lambda>a b. if cmp a b = Greater then a else b)"
    by (auto simp: fun_eq_iff split: ordering.splits)
  then show ?thesis by simp
qed

lemma min_by_eq: "min_by cmp (x # xs) = Some (foldl (\<lambda>a b. if cmp a b \<noteq> Greater then a else b) x xs)"
proof -
  have "(\<lambda>a b. case cmp a b of Greater \<Rightarrow> b | _ \<Rightarrow> a) = (\<lambda>a b. if cmp a b \<noteq> Greater then a else b)"
    by (auto simp: fun_eq_iff split: ordering.splits)
  then show ?thesis by simp
qed

declare max_by.simps(2) [simp del] min_by.simps(2) [simp del]

lemma foldl_best:
  assumes "\<And>a b. a \<in> A \<Longrightarrow> b \<in> A \<Longrightarrow> le a b \<or> le b a" "\<And>a b c. le a b \<Longrightarrow> le b c \<Longrightarrow> le a c"
    and "\<And>a b. a \<in> A \<Longrightarrow> b \<in> A \<Longrightarrow> le b (if P a b then a else b) \<and> le a (if P a b then a else b)"
  shows "set (x # xs) \<subseteq> A \<Longrightarrow> y \<in> set (x # xs) \<Longrightarrow> le y (foldl (\<lambda>a b. if P a b then a else b) x xs)"
proof (induction xs arbitrary: x y)
  case Nil
  then show ?case using assms(1)[of x x] by auto
next
  case (Cons z xs)
  let ?w = "if P x z then x else z"
  have sub: "set (?w # xs) \<subseteq> A" using Cons.prems(1) by auto
  let ?F = "foldl (\<lambda>a b. if P a b then a else b) ?w xs"
  have w: "le ?w ?F" using Cons.IH[OF sub, of ?w] by simp
  have zx: "le z ?w" "le x ?w" using assms(3)[of x z] Cons.prems(1) by auto
  have "le y ?F"
  proof (cases "y \<in> set xs")
    case True
    then show ?thesis using Cons.IH[OF sub, of y] by simp
  next
    case False
    then have "y = x \<or> y = z" using Cons.prems(2) by simp
    then have "le y ?w" using zx by blast
    then show ?thesis using w by (rule assms(2))
  qed
  then show ?case by simp
qed

lemma cmp_cpu_Greater: "cpu a \<noteq> NaN \<Longrightarrow> cpu b \<noteq> NaN \<Longrightarrow> cmp_cpu a b = Greater \<longleftrightarrow> f64_lt (cpu b) (cpu a)"
  by (cases "cpu a"; cases "cpu b") (auto simp: cmp_cpu_def f64_partial_cmp_def)

lemma f64_le_total: "x \<noteq> NaN \<Longrightarrow> y \<noteq> NaN \<Longrightarrow> f64_le x y \<or> f64_le y x"
  by (cases x; cases y) auto

lemma f64_lt_imp_le: "f64_lt x y \<Longrightarrow> f64_le x y"
  by (cases x; cases y) auto

lemma max_by_cpu:
  assumes "max_by cmp_cpu ns = Some n"
  shows "n \<in> set ns" "\<forall>v\<in>set ns. cpu v \<noteq> NaN \<Longrightarrow> v \<in> set ns \<Longrightarrow> f64_le (cpu v) (cpu n)"
proof -
  obtain x xs where ns: "ns = x # xs" using assms by (cases ns) auto
  have n: "n = foldl (\<lambda>a b. if cmp_cpu a b = Greater then a else b) x xs" using assms by (simp add: ns max_by_eq)
  show "n \<in> set ns" unfolding ns n by (rule foldl_pick_mem)
  show "f64_le (cpu v) (cpu n)" if nan: "\<forall>v\<in>set ns. cpu v \<noteq> NaN" and v: "v \<in> set ns"
    unfolding n
  proof (rule foldl_best[where A = "set ns" and le = "\<lambda>a b. f64_le (cpu a) (cpu b)"])
    show "f64_le (cpu b) (cpu (if cmp_cpu a b = Greater then a else b)) \<and>
        f64_le (cpu a) (cpu (if cmp_cpu a b = Greater then a else b))" if "a \<in> set ns" "b \<in> set ns" for a b
      using that nan f64_not_lt_iff_le[of "cpu b" "cpu a"] f64_le_total[of "cpu a" "cpu a"] f64_le_total[of "cpu b" "cpu b"]
      by (auto simp: cmp_cpu_Greater f64_lt_imp_le)
  next
    show "f64_le (cpu a) (cpu b) \<or> f64_le (cpu b) (cpu a)" if "a \<in> set ns" "b \<in> set ns" for a b
      using that nan f64_le_total by blast
  qed (use v ns in \<open>auto intro: f64_le_trans\<close>)
qed

lemma min_by_cpu:
  assumes "min_by cmp_cpu ns = Some n"
  shows "n \<in> set ns" "\<forall>v\<in>set ns. cpu v \<noteq> NaN \<Longrightarrow> v \<in> set ns \<Longrightarrow> f64_le (cpu n) (cpu v)"
proof -
  obtain x xs where ns: "ns = x # xs" using assms by (cases ns) auto
  have n: "n = foldl (\<lambda>a b. if cmp_cpu a b \<noteq> Greater then a else b) x xs" using assms by (simp add: ns min_by_eq)
  show "n \<in> set ns" unfolding ns n by (rule foldl_pick_mem)
  show "f64_le (cpu n) (cpu v)" if nan: "\<forall>v\<in>set ns. cpu v \<noteq> NaN" and v: "v \<in> set ns"
    unfolding n
  proof (rule foldl_best[where A = "set ns" and le = "\<lambda>a b. f64_le (cpu b) (cpu a)"])
    show "f64_le (cpu (if cmp_cpu a b \<noteq> Greater then a else b)) (cpu b) \<and>
        f64_le (cpu (if cmp_cpu a b \<noteq> Greater then a else b)) (cpu a)" if "a \<in> set ns" "b \<in> set ns" for a b
      using that nan f64_not_lt_iff_le[of "cpu b" "cpu a"] f64_le_total[of "cpu a" "cpu a"] f64_le_total[of "cpu b" "cpu b"]
      by (auto simp: cmp_cpu_Greater f64_lt_imp_le)
  next
    show "f64_le (cpu b) (cpu a) \<or> f64_le (cpu a) (cpu b)" if "a \<in> set ns" "b \<in> set ns" for a b
      using that nan f64_le_total by blast
  qed (use v ns in \<open>auto intro: f64_le_trans\<close>)
qed

section \<open>The policy contract\<close>

locale scheduling_policy =
  fixes eligible :: "'n \<Rightarrow> 'r \<Rightarrow> bool"
    and select :: "'n list \<Rightarrow> 'r \<Rightarrow> 'n RayResult"
  assumes select_ok: "select ns r = Inr n \<Longrightarrow> n \<in> set ns \<and> eligible n r"
    and select_err: "select ns r = Inl e \<Longrightarrow> n \<in> set ns \<Longrightarrow> \<not> eligible n r"
begin

lemma select_iff: "is_ok (select ns r) \<longleftrightarrow> (\<exists>n\<in>set ns. eligible n r)"
  by (cases "select ns r") (auto dest: select_ok select_err)

lemma select_cong: "set ns = set ms \<Longrightarrow> is_ok (select ns r) = is_ok (select ms r)"
  by (simp add: select_iff)

lemma select_more: "set ns \<subseteq> set ms \<Longrightarrow> is_ok (select ns r) \<Longrightarrow> is_ok (select ms r)"
  by (auto simp: select_iff)

end

lemma max_by_None: "max_by cmp ns = None \<longleftrightarrow> ns = []"
  by (cases ns) (auto simp: max_by_eq)

lemma min_by_None: "min_by cmp ns = None \<longleftrightarrow> ns = []"
  by (cases ns) (auto simp: min_by_eq)

interpretation spread: scheduling_policy node_eligible spread_select
  by unfold_locales
     (auto simp: spread_select_def Let_def filter_empty_conv max_by_None dest: max_by_cpu(1) split: if_splits option.splits)

interpretation pack: scheduling_policy node_eligible pack_select
  by unfold_locales
     (auto simp: pack_select_def Let_def filter_empty_conv min_by_None dest: min_by_cpu(1) split: if_splits option.splits)

interpretation pol: scheduling_policy node_eligible "select_node p" for p
  by (cases p) (simp_all add: spread.scheduling_policy_axioms pack.scheduling_policy_axioms)

lemma select_node_err: "select_node p ns r = Inl e \<Longrightarrow> e = no_node_error r"
  by (cases p) (auto simp: spread_select_def pack_select_def Let_def max_by_None min_by_None
      split: if_splits option.splits)

section \<open>The view of the nodes\<close>

definition gs_inv :: "GlobalScheduler \<Rightarrow> bool" where
  "gs_inv g \<longleftrightarrow> hm_keyed nv_node_id (gs_nodes g)"

interpretation gs: registry_with_removal gs_inv "\<lambda>g. hm_get (gs_nodes g)" update_node gs_get_all_nodes nv_node_id remove_node
proof (unfold_locales, goal_cases)
  case (4 g v)
  then show ?case by (simp add: gs_inv_def gs_get_all_nodes_def hm_keyed_values)
qed (auto simp: gs_inv_def update_node_def remove_node_def gs_get_all_nodes_def
      intro: hm_keyed_insert hm_keyed_remove hm_keyedD hm_keyed_distinct_keys)

lemma gs_inv_new [simp]: "gs_inv (gs_new p)"
  by (simp add: gs_inv_def gs_new_def)

lemma alive_mem:
  "gs_inv g \<Longrightarrow> v \<in> set (filter nv_is_alive (hm_values (gs_nodes g))) \<longleftrightarrow>
     nv_is_alive v \<and> hm_get (gs_nodes g) (nv_node_id v) = Some v"
  using gs.set_all[of g v] by (auto simp: gs_get_all_nodes_def)

lemma schedule_task_Inr:
  assumes "gs_inv g" "schedule_task task g = Inr nid"
  shows "\<exists>v. hm_get (gs_nodes g) nid = Some v \<and> nv_is_alive v \<and>
    can_satisfy (nv_available v) (ts_required_resources task)"
proof -
  obtain v where v: "select_node (gs_policy g) (filter nv_is_alive (hm_values (gs_nodes g)))
      (ts_required_resources task) = Inr v" "nid = nv_node_id v"
    using assms(2) by (auto simp: schedule_task_def Let_def map_sum_def split: if_splits sum.splits)
  show ?thesis using pol.select_ok[OF v(1)] alive_mem[OF assms(1), of v] v(2) by (auto simp: node_eligible_def)
qed

section \<open>Properties\<close>

text \<open>A live node for the examples.\<close>

definition cpu_node :: "u8 \<Rightarrow> nat \<Rightarrow> NodeView" where
  "cpu_node k cpus =
     (let r = res_set resources_new ''CPU'' (f64_of_nat cpus)
      in \<lparr>nv_node_id = from_slice [k], nv_address = [], nv_port = 0, nv_available = r, nv_total = r, nv_is_alive = True\<rparr>)"

text \<open>
  C20. Placement: in any cluster view, a task is placed on a node that is in the view, is alive
  and has the resources; if there is such a node the task is placed; and otherwise the error
  says whether the cluster has no live node or no node with the resources.
\<close>

theorem schedule_task_places:
  assumes "gs_inv g"
  shows "case schedule_task task g of
      Inr nid \<Rightarrow> \<exists>v. hm_get (gs_nodes g) nid = Some v \<and> nv_is_alive v \<and>
        can_satisfy (nv_available v) (ts_required_resources task)
    | Inl e \<Rightarrow> (\<forall>nid v. hm_get (gs_nodes g) nid = Some v \<longrightarrow> nv_is_alive v \<longrightarrow>
          \<not> can_satisfy (nv_available v) (ts_required_resources task)) \<and>
        e = (if alive_node_count g = 0 then no_alive_error else no_node_error (ts_required_resources task))"
proof -
  have key: "hm_get (gs_nodes g) nid = Some v \<Longrightarrow> nv_node_id v = nid" for nid v
    by (rule gs.lookup_key[OF assms])
  show ?thesis
  proof (cases "schedule_task task g")
    case (Inr nid)
    then show ?thesis using schedule_task_Inr[OF assms Inr] by simp
  next
    case (Inl e)
    let ?alive = "filter nv_is_alive (hm_values (gs_nodes g))"
    show ?thesis
    proof (cases "?alive = []")
      case True
      then have "\<not> nv_is_alive v" if "hm_get (gs_nodes g) nid = Some v" for nid v
        using alive_mem[OF assms, of v] key[OF that] that by simp
      with True show ?thesis by (auto simp: schedule_task_def alive_node_count_def)
    next
      case False
      then have sel: "select_node (gs_policy g) ?alive (ts_required_resources task) = Inl e"
        using Inl by (auto simp: schedule_task_def Let_def map_sum_def split: sum.splits)
      show ?thesis
        using Inl False pol.select_err[OF sel] select_node_err[OF sel] alive_mem[OF assms] key
        by (auto simp: node_eligible_def alive_node_count_def)
    qed
  qed
qed

theorem schedule_task_places_witness:
  "schedule_task (cpu_task 9 2 []) (update_node (cpu_node 1 4) (gs_new SpreadPolicy)) = Inr (from_slice [1])
   \<and> (\<exists>v. hm_get (gs_nodes (update_node (cpu_node 1 4) (gs_new SpreadPolicy))) (from_slice [1]) = Some v \<and>
        nv_is_alive v \<and> can_satisfy (nv_available v) (ts_required_resources (cpu_task 9 2 [])))"
proof -
  let ?g = "update_node (cpu_node 1 4) (gs_new SpreadPolicy)"
  have "schedule_task (cpu_task 9 2 []) ?g = Inr (from_slice [1])"
    by (simp add: schedule_task_def update_node_def gs_new_def cpu_node_def cpu_task_def Let_def hm_values_def
        hm_insert_def spread_select_def node_eligible_def max_by_eq f64_of_nat_cmp)
  moreover have "gs_inv ?g" by (rule gs.inv_put) simp
  ultimately show ?thesis using schedule_task_places[of ?g "cpu_task 9 2 []"] by simp
qed



text \<open>
  A removed node is not chosen: until it reports again, whatever the other nodes report.
\<close>

lemma removed_node_not_chosen:
  assumes "gs_inv g" "nid \<notin> nv_node_id ` set views"
  shows "schedule_task task (fold update_node views (remove_node nid g)) \<noteq> Inr nid"
proof
  let ?g = "fold update_node views (remove_node nid g)"
  assume "schedule_task task ?g = Inr nid"
  have inv: "gs_inv (remove_node nid g)" by (rule gs.inv_del[OF assms(1)])
  have "find (\<lambda>v. nv_node_id v = nid) (rev views) = None" using assms(2) by (auto simp: find_None_iff)
  then have none: "hm_get (gs_nodes ?g) nid = None"
    using gs.lookup_puts[OF inv, of views nid] gs.lookup_del[OF assms(1), of nid nid] by simp
  from schedule_task_Inr[OF gs.inv_puts[OF inv] \<open>schedule_task task ?g = Inr nid\<close>] none
  show False by simp
qed

end
