(* ===== verification/Local_Runtime.thy ===== *)
theory Local_Runtime
  imports Scheduler_Runs Gcs_Store
begin

text \<open>
  \<^verbatim>\<open>crates/ray-runtime/src/lib.rs\<close>: the single-process runtime. Its components are shared by
  reference with the scheduler, so one system state holds the resource manager, the store, the
  executor and the worker pool; the GCS store is kept beside it. The random bytes of the
  identifiers that a call generates are its first arguments, in the order of generation.
\<close>

record RuntimeConfig =
  rc_num_cpus :: nat
  rc_max_workers :: nat
  rc_object_store_memory :: nat

text \<open>The argument is what \<^verbatim>\<open>available_parallelism\<close> answers, if it does.\<close>

definition config_default :: "nat option \<Rightarrow> RuntimeConfig" where
  "config_default available_parallelism =
     (let num_cpus = (case available_parallelism of Some n \<Rightarrow> n | None \<Rightarrow> 4)
      in \<lparr>rc_num_cpus = num_cpus, rc_max_workers = num_cpus * 2, rc_object_store_memory = 0\<rparr>)"

record LocalRuntime =
  lr_gcs :: InMemoryGcsStore
  lr_system :: System
  lr_node_id :: NodeId

definition runtime_new :: "bytes \<Rightarrow> RuntimeConfig \<Rightarrow> LocalRuntime RayResult" where
  "runtime_new uuid config =
     (let node_id = id_new uuid;
          resource_manager = rm_new (res_set resources_new ''CPU'' (f64_of_nat (rc_num_cpus config)));
          object_store = os_new (rc_object_store_memory config);
          executor = Registry fr_new;
          worker_pool = wp_new (rc_max_workers config);
          scheduler = scheduler_new resource_manager executor object_store worker_pool
      in Inr \<lparr>lr_gcs = gcs_new, lr_system = scheduler, lr_node_id = node_id\<rparr>)"

definition runtime_submit_task :: "TaskSpec \<Rightarrow> LocalRuntime \<Rightarrow> unit RayResult option \<times> LocalRuntime" where
  "runtime_submit_task spec rt =
     (let (r, sys) = submit_task spec (lr_system rt) in (r, rt\<lparr>lr_system := sys\<rparr>))"

definition fn_spec :: "ObjectId \<Rightarrow> TaskId \<Rightarrow> JobId \<Rightarrow> string \<Rightarrow> bytes \<Rightarrow> TaskSpec" where
  "fn_spec return_id task_id job_id function_name payload =
     \<lparr>ts_task_id = task_id, ts_job_id = job_id, ts_function_name = function_name,
      ts_function_payload = payload, ts_return_ids = [return_id], ts_dependency_ids = [],
      ts_required_resources = res_set resources_new ''CPU'' (f64_of_nat 1), ts_max_retries = 0\<rparr>"

definition submit_fn ::
  "bytes \<Rightarrow> bytes \<Rightarrow> bytes \<Rightarrow> string \<Rightarrow> bytes \<Rightarrow> LocalRuntime \<Rightarrow> ObjectId RayResult option \<times> LocalRuntime" where
  "submit_fn uuid_return uuid_task uuid_job function_name payload rt =
     (let return_id = id_new uuid_return;
          spec = fn_spec return_id (id_new uuid_task) (id_new uuid_job) function_name payload;
          (r, rt) = runtime_submit_task spec rt
      in (map_option (map_sum id (\<lambda>_. return_id)) r, rt))"

text \<open>The polls of \<^verbatim>\<open>get\<close> read the store of the runtime at successive moments.\<close>

definition get_object ::
  "(nat \<Rightarrow> LocalRuntime) \<Rightarrow> (nat \<Rightarrow> nat) \<Rightarrow> nat \<Rightarrow> ObjectId \<Rightarrow> i64 \<Rightarrow> bytes RayResult option" where
  "get_object rts clock start object_id timeout_ms =
     os_get (\<lambda>i. sy_store (lr_system (rts i))) clock start object_id timeout_ms"

definition put_object :: "nat \<Rightarrow> bytes \<Rightarrow> bytes \<Rightarrow> LocalRuntime \<Rightarrow> ObjectId RayResult \<times> LocalRuntime" where
  "put_object now uuid data rt =
     (let object_id = id_new uuid;
          (r, store) = os_put now object_id data (sy_store (lr_system rt));
          rt = rt\<lparr>lr_system := (lr_system rt)\<lparr>sy_store := store\<rparr>\<rparr>
      in (map_sum id (\<lambda>_. object_id) r, rt))"

definition runtime_cancel_task :: "TaskId \<Rightarrow> LocalRuntime \<Rightarrow> unit RayResult option \<times> LocalRuntime" where
  "runtime_cancel_task task_id rt =
     (let (r, sys) = cancel_task task_id (lr_system rt) in (r, rt\<lparr>lr_system := sys\<rparr>))"

definition runtime_get_task_status_send :: "TaskId \<Rightarrow> nat \<Rightarrow> LocalRuntime \<Rightarrow> unit RayResult option \<times> LocalRuntime" where
  "runtime_get_task_status_send task_id ch rt =
     (let (r, sys) = get_task_status_send task_id ch (lr_system rt) in (r, rt\<lparr>lr_system := sys\<rparr>))"

definition runtime_get_task_status_reply :: "nat \<Rightarrow> LocalRuntime \<Rightarrow> TaskStatus RayResult option" where
  "runtime_get_task_status_reply ch rt = get_task_status_reply ch (lr_system rt)"

text \<open>The runtime keeps its own handle on the registry that the scheduler executes with.\<close>

definition on_registry :: "(FunctionRegistryExecutor \<Rightarrow> FunctionRegistryExecutor) \<Rightarrow> LocalRuntime \<Rightarrow> LocalRuntime" where
  "on_registry f rt =
     (case sy_executor (lr_system rt) of
        Registry ex \<Rightarrow> rt\<lparr>lr_system := (lr_system rt)\<lparr>sy_executor := Registry (f ex)\<rparr>\<rparr>
      | LocalExecutor \<Rightarrow> rt)"

definition register_function :: "string \<Rightarrow> TaskFn \<Rightarrow> LocalRuntime \<Rightarrow> LocalRuntime" where
  "register_function name f = on_registry (register_fn name f)"

definition unregister_function :: "string \<Rightarrow> LocalRuntime \<Rightarrow> LocalRuntime" where
  "unregister_function name = on_registry (unregister_fn name)"

text \<open>The accessors: the components of the runtime, as its clients see them.\<close>

definition runtime_gcs :: "LocalRuntime \<Rightarrow> InMemoryGcsStore" where
  "runtime_gcs rt = lr_gcs rt"

definition runtime_object_store :: "LocalRuntime \<Rightarrow> InMemoryObjectStore" where
  "runtime_object_store rt = sy_store (lr_system rt)"

definition runtime_resource_manager :: "LocalRuntime \<Rightarrow> ResourceManager" where
  "runtime_resource_manager rt = sy_rm (lr_system rt)"

definition runtime_executor :: "LocalRuntime \<Rightarrow> TaskExecutor" where
  "runtime_executor rt = sy_executor (lr_system rt)"

definition runtime_worker_pool :: "LocalRuntime \<Rightarrow> WorkerPool" where
  "runtime_worker_pool rt = sy_pool (lr_system rt)"

definition runtime_node_id :: "LocalRuntime \<Rightarrow> NodeId" where
  "runtime_node_id rt = lr_node_id rt"

text \<open>The store behind \<^verbatim>\<open>gcs()\<close> is shared: a client's operation on it is one on the runtime's.\<close>

definition on_gcs :: "(InMemoryGcsStore \<Rightarrow> 'a RayResult \<times> InMemoryGcsStore) \<Rightarrow> LocalRuntime \<Rightarrow> 'a RayResult \<times> LocalRuntime" where
  "on_gcs f rt = (let (r, gcs) = f (runtime_gcs rt) in (r, rt\<lparr>lr_gcs := gcs\<rparr>))"

text \<open>A new runtime: what its accessors show.\<close>

lemma runtime_new_parts:
  "\<exists>rt. runtime_new uuid config = Inr rt \<and> runtime_gcs rt = gcs_new \<and> runtime_node_id rt = id_new uuid
     \<and> runtime_object_store rt = os_new (rc_object_store_memory config)
     \<and> runtime_resource_manager rt = rm_new (res_set resources_new ''CPU'' (f64_of_nat (rc_num_cpus config)))
     \<and> runtime_worker_pool rt = wp_new (rc_max_workers config) \<and> runtime_executor rt = Registry fr_new"
  by (simp add: runtime_new_def runtime_gcs_def runtime_node_id_def runtime_object_store_def runtime_resource_manager_def
      runtime_worker_pool_def runtime_executor_def scheduler_new_def Let_def)

text \<open>
  Shutting down consumes the runtime: the only sender of the scheduler's channel is dropped.
  What is left behind is the event loop and the background tasks.
\<close>

definition shutdown :: "LocalRuntime \<Rightarrow> System" where
  "shutdown rt = (lr_system rt)\<lparr>sy_senders_dropped := True\<rparr>"

section \<open>The event loop after a shutdown\<close>

lemma handle_command_senders [simp]: "sy_senders_dropped (handle_command cmd s) = sy_senders_dropped s"
  by (cases cmd)
     (simp_all add: submit_command_def cancel_command_def status_command_def set_status_def try_start_def
        dispatch_task_def Let_def split_beta)

lemma try_start_senders [simp]: "sy_senders_dropped (snd (try_start spec s)) = sy_senders_dropped s"
  by (simp add: try_start_def Let_def dispatch_task_def set_status_def split_beta)

section \<open>Examples\<close>

text \<open>A fresh runtime for the examples.\<close>

definition demo_runtime :: "nat \<Rightarrow> LocalRuntime" where
  "demo_runtime cpus =
     (case runtime_new [9] \<lparr>rc_num_cpus = cpus, rc_max_workers = 2, rc_object_store_memory = 0\<rparr> of
        Inr rt \<Rightarrow> rt
      | Inl e \<Rightarrow> \<lparr>lr_gcs = gcs_new, lr_system = cpu_system cpus, lr_node_id = id_default\<rparr>)"

end
