(* ===== verification/Ray_Py.thy ===== *)
theory Ray_Py
  imports Object_Store
begin

text \<open>
  \<^verbatim>\<open>crates/ray-py/src/runtime.rs\<close>: the functions and classes of the Python module, over its three
  global statics. Every function runs with the interpreter lock held, also while it blocks on
  the store, so a call is one step and a poll loop sees a store that nobody else changes. The
  tokio runtime is a token; what \<^verbatim>\<open>Runtime::new\<close> answers is an argument.
\<close>

record PyState =
  ps_runtime :: "unit option"
  ps_object_store :: "InMemoryObjectStore option"
  ps_initialized :: bool

type_synonym 'a PyResult = "message + 'a"

definition once_set :: "'a \<Rightarrow> 'a option \<Rightarrow> ('a + unit) \<times> 'a option" where
  "once_set x cell = (case cell of None \<Rightarrow> (Inr (), Some x) | Some _ \<Rightarrow> (Inl x, cell))"

definition py_statics :: PyState where
  "py_statics = \<lparr>ps_runtime = None, ps_object_store = None, ps_initialized = False\<rparr>"

definition not_initialized :: message where
  "not_initialized = [Lit ''Ray runtime not initialized. Call ray_rust.init() first.'']"

definition get_runtime :: "PyState \<Rightarrow> unit PyResult" where
  "get_runtime s = (case ps_runtime s of Some rt \<Rightarrow> Inr rt | None \<Rightarrow> Inl not_initialized)"

definition get_object_store :: "PyState \<Rightarrow> InMemoryObjectStore PyResult" where
  "get_object_store s = (case ps_object_store s of Some st \<Rightarrow> Inr st | None \<Rightarrow> Inl not_initialized)"

text \<open>The address and the number of CPUs only reach the log.\<close>

definition py_init :: "(string + unit) \<Rightarrow> string \<Rightarrow> nat option \<Rightarrow> PyState \<Rightarrow> unit PyResult \<times> PyState" where
  "py_init runtime_new_result address num_cpus s =
     (if ps_initialized s then (Inr (), s)
      else (case runtime_new_result of
              Inl e \<Rightarrow> (Inl [Lit e], s)
            | Inr rt \<Rightarrow>
                (case once_set rt (ps_runtime s) of
                   (Inl _, _) \<Rightarrow> (Inl [Lit ''Runtime already set''], s)
                 | (Inr _, runtime) \<Rightarrow>
                     (let s = s\<lparr>ps_runtime := runtime\<rparr>;
                          store = os_new (2 * 1024 * 1024 * 1024)
                      in case once_set store (ps_object_store s) of
                           (Inl _, _) \<Rightarrow> (Inl [Lit ''Object store already set''], s)
                         | (Inr _, object_store) \<Rightarrow>
                             (Inr (), s\<lparr>ps_object_store := object_store, ps_initialized := True\<rparr>)))))"

definition py_shutdown :: "PyState \<Rightarrow> unit PyResult \<times> PyState" where
  "py_shutdown s = (Inr (), s\<lparr>ps_initialized := False\<rparr>)"

definition py_is_initialized :: "PyState \<Rightarrow> bool PyResult" where
  "py_is_initialized s = Inr (ps_initialized s)"

record PyObjectRef =
  por_object_id :: bytes

definition py_put :: "nat \<Rightarrow> bytes \<Rightarrow> bytes \<Rightarrow> PyState \<Rightarrow> PyObjectRef PyResult \<times> PyState" where
  "py_put now uuid data s =
     (case get_runtime s of
        Inl e \<Rightarrow> (Inl e, s)
      | Inr rt \<Rightarrow>
          (case get_object_store s of
             Inl e \<Rightarrow> (Inl e, s)
           | Inr store \<Rightarrow>
               (let object_id = (id_new uuid :: ObjectId);
                    (r, store) = os_put now object_id data store;
                    s = s\<lparr>ps_object_store := Some store\<rparr>
                in (case r of
                      Inl e \<Rightarrow> (Inl (error_to_string e), s)
                    | Inr _ \<Rightarrow> (Inr \<lparr>por_object_id = to_vec object_id\<rparr>, s)))))"

definition py_get :: "(nat \<Rightarrow> nat) \<Rightarrow> nat \<Rightarrow> PyObjectRef \<Rightarrow> i64 \<Rightarrow> PyState \<Rightarrow> bytes PyResult option" where
  "py_get clock start object_ref timeout_ms s =
     (case get_runtime s of
        Inl e \<Rightarrow> Some (Inl e)
      | Inr rt \<Rightarrow>
          (case get_object_store s of
             Inl e \<Rightarrow> Some (Inl e)
           | Inr store \<Rightarrow>
               map_option (map_sum error_to_string id)
                 (os_get (\<lambda>_. store) clock start (from_vec (por_object_id object_ref)) timeout_ms)))"

fun split_ready :: "(PyObjectRef \<times> bool) list \<Rightarrow> PyObjectRef list \<Rightarrow> PyObjectRef list
    \<Rightarrow> PyObjectRef list \<times> PyObjectRef list" where
  "split_ready [] ready not_ready = (ready, not_ready)"
| "split_ready ((r, is_ready) # rest) ready not_ready =
     (if is_ready then split_ready rest (ready @ [r]) not_ready
      else split_ready rest ready (not_ready @ [r]))"

definition py_wait ::
  "(nat \<Rightarrow> nat) \<Rightarrow> nat \<Rightarrow> PyObjectRef list \<Rightarrow> i32 \<Rightarrow> i64 \<Rightarrow> PyState
     \<Rightarrow> (PyObjectRef list \<times> PyObjectRef list) PyResult option" where
  "py_wait clock start object_refs num_returns timeout_ms s =
     (case get_runtime s of
        Inl e \<Rightarrow> Some (Inl e)
      | Inr rt \<Rightarrow>
          (case get_object_store s of
             Inl e \<Rightarrow> Some (Inl e)
           | Inr store \<Rightarrow>
               (let object_ids = map (\<lambda>r. from_vec (por_object_id r)) object_refs
                in map_option (map_sum error_to_string (\<lambda>flags. split_ready (zip object_refs flags) [] []))
                     (os_wait (\<lambda>_. store) clock start object_ids num_returns timeout_ms))))"

definition ref_repr :: "PyObjectRef \<Rightarrow> string" where
  "ref_repr r = ''ObjectRef('' @ concat (map hex_byte (take 4 (por_object_id r))) @ '')''"

definition ref_eq :: "PyObjectRef \<Rightarrow> PyObjectRef \<Rightarrow> bool" where
  "ref_eq a b \<longleftrightarrow> por_object_id a = por_object_id b"

text \<open>The hash function is \<^verbatim>\<open>DefaultHasher\<close> of the standard library, whose algorithm is not specified.\<close>

definition ref_hash :: "(bytes \<Rightarrow> u64) \<Rightarrow> PyObjectRef \<Rightarrow> u64" where
  "ref_hash default_hash ref = default_hash (por_object_id ref)"

lemma ref_hash_respects_eq: "ref_eq a b \<Longrightarrow> ref_hash h a = ref_hash h b"
  by (simp add: ref_eq_def ref_hash_def)

record PyTaskResult =
  ptr_success :: bool
  ptr_data :: "bytes option"
  ptr_error :: "string option"

definition result_repr :: "PyTaskResult \<Rightarrow> message" where
  "result_repr r =
     (if ptr_success r
      then [Lit ''TaskResult(success, data_len='',
            Num (case ptr_data r of None \<Rightarrow> 0 | Some d \<Rightarrow> int (length d)), Lit '')'']
      else [Lit ''TaskResult(failed: '',
            Lit (case ptr_error r of None \<Rightarrow> ''unknown'' | Some e \<Rightarrow> e), Lit '')''])"

section \<open>Sessions\<close>

text \<open>The calls of a Python program that change the statics, in any order.\<close>

inductive py_step :: "PyState \<Rightarrow> PyState \<Rightarrow> bool" where
  init: "py_step s (snd (py_init rt address num_cpus s))"
| shutdown: "py_step s (snd (py_shutdown s))"
| put: "py_step s (snd (py_put now uuid data s))"

definition py_inv :: "PyState \<Rightarrow> bool" where
  "py_inv s \<longleftrightarrow>
     (ps_runtime s = None \<longleftrightarrow> ps_object_store s = None) \<and> (ps_initialized s \<longrightarrow> ps_runtime s \<noteq> None) \<and>
     (case ps_object_store s of None \<Rightarrow> True
      | Some st \<Rightarrow> os_inv st \<and> os_within_budget st \<and> os_max_memory_bytes st = 2 * 1024 * 1024 * 1024)"

lemma py_init_inv [ray_inv]: "py_inv s \<Longrightarrow> py_inv (snd (py_init rt address num_cpus s))"
  by (auto simp: py_init_def py_inv_def once_set_def Let_def os_inv_def os_new_def os_within_budget_def
      total_size_def hm_values_def split: sum.splits option.splits)

lemma py_put_inv [ray_inv]:
  assumes "py_inv s" shows "py_inv (snd (py_put now uuid data s))"
proof (cases "ps_object_store s")
  case (Some st)
  obtain r st' where p: "os_put now (id_new uuid) data st = (r, st')" by force
  have "os_inv st" "os_within_budget st" using assms Some by (simp_all add: py_inv_def)
  then have "os_inv st'" "os_within_budget st'" "os_max_memory_bytes st' = os_max_memory_bytes st"
    using os_put_inv[of st now "id_new uuid" data] os_put_budget[OF os_invD(1), of st now "id_new uuid" data]
      os_put_max[of now "id_new uuid" data st] p by simp_all
  with assms Some p show ?thesis
    by (auto simp: py_put_def py_inv_def get_runtime_def get_object_store_def Let_def split: option.splits sum.splits)
qed (use assms in \<open>auto simp: py_put_def py_inv_def get_runtime_def split: option.splits\<close>)

lemma py_reachable_inv: "py_step\<^sup>*\<^sup>* py_statics s \<Longrightarrow> py_inv s"
proof (induction rule: rtranclp_induct)
  case base
  show ?case by (simp add: py_inv_def py_statics_def)
next
  case (step s s')
  from step(2,3) show ?case
    by cases (auto simp: py_shutdown_def py_inv_def[of "_\<lparr>ps_initialized := False\<rparr>"]
        intro: py_init_inv py_put_inv dest: py_inv_def[THEN iffD1])
qed

lemma split_ready_eq:
  "split_ready rs xs ys =
     (xs @ map fst (filter snd rs), ys @ map fst (filter (\<lambda>r. \<not> snd r) rs))"
  by (induction rs xs ys rule: split_ready.induct) simp_all

text \<open>A session that was started and then shut down, over a store that held at least the objects of \<open>st\<close>.\<close>

definition py_shut :: "InMemoryObjectStore \<Rightarrow> PyState \<Rightarrow> bool" where
  "py_shut st s \<longleftrightarrow> ps_runtime s = Some () \<and> \<not> ps_initialized s \<and>
     (\<exists>st'. ps_object_store s = Some st' \<and> os_inv st' \<and> dom (os_view st) \<subseteq> dom (os_view st'))"

lemma py_shut_steps: "py_step\<^sup>*\<^sup>* s s' \<Longrightarrow> py_shut st s \<Longrightarrow> py_shut st s'"
proof (induction rule: rtranclp_induct)
  case (step s1 s2)
  then obtain st1 where s1: "ps_runtime s1 = Some ()" "\<not> ps_initialized s1" "ps_object_store s1 = Some st1" "os_inv st1"
    "dom (os_view st) \<subseteq> dom (os_view st1)" by (auto simp: py_shut_def)
  from step.hyps(2) show ?case
  proof cases
    case (init rt address num_cpus)
    then show ?thesis using s1 by (auto simp: py_shut_def py_init_def once_set_def split: sum.splits)
  next
    case shutdown
    then show ?thesis using s1 by (simp add: py_shut_def py_shutdown_def)
  next
    case (put now uuid data)
    have "dom (os_view st1) \<subseteq> dom (os_view (snd (os_put now (id_new uuid) data st1)))"
      using s1(4) by (auto simp: os_put_inv_eq)
    then show ?thesis using put s1 os_put_inv[OF s1(4), of now "id_new uuid" data]
      by (auto simp: py_shut_def py_put_def get_runtime_def get_object_store_def Let_def split_beta split: sum.splits)
  qed
qed

text \<open>The state after a first call of \<^verbatim>\<open>init\<close>, for the examples.\<close>

definition py_started :: PyState where
  "py_started = snd (py_init (Inr ()) ''auto'' None py_statics)"

lemma py_started_reachable: "py_step\<^sup>*\<^sup>* py_statics py_started"
  unfolding py_started_def by (rule r_into_rtranclp) (rule py_step.init)

lemma py_started_simps [simp]:
  "ps_runtime py_started = Some ()" "ps_object_store py_started = Some (os_new 2147483648)"
  by (simp_all add: py_started_def py_init_def py_statics_def once_set_def Let_def)

section \<open>Properties\<close>

text \<open>
  C32. In every session in which \<^verbatim>\<open>init\<close> has succeeded once, \<^verbatim>\<open>put\<close> of bytes that fit the two
  gigabytes returns a reference; \<^verbatim>\<open>get\<close> of that reference returns the bytes and of any other
  reference what it returned before; and \<^verbatim>\<open>wait\<close> splits its references, in their order,
  into those whose object is in the store and the others.
\<close>

theorem py_put_get:
  assumes "py_step\<^sup>*\<^sup>* py_statics s" "ps_object_store s = Some st"
    and "total_size st + length data \<le> 2 * 1024 * 1024 * 1024"
    and "poll_sleeps clock" "start \<le> clock 0"
  shows "let (r, s') = py_put now uuid data s; new = (id_new uuid :: ObjectId);
             known = (\<lambda>ref. from_vec (por_object_id ref) = new \<or> from_vec (por_object_id ref) \<in> dom (os_view st))
         in r = Inr \<lparr>por_object_id = to_vec new\<rparr>
          \<and> py_get clock start \<lparr>por_object_id = to_vec new\<rparr> timeout_ms s' = Some (Inr data)
          \<and> (\<forall>ref. from_vec (por_object_id ref) \<noteq> new \<longrightarrow>
               py_get clock start ref timeout_ms s' = py_get clock start ref timeout_ms s)
          \<and> py_wait clock start refs num_returns timeout_ms s' =
               Some (Inr (filter known refs, filter (\<lambda>ref. \<not> known ref) refs))"
proof -
  let ?new = "id_new uuid :: ObjectId" and ?st = "put_insert now (id_new uuid) data st"
  have inv: "os_inv st" "os_max_memory_bytes st = 2147483648" "ps_runtime s = Some ()"
    using py_reachable_inv[OF assms(1)] assms(2) by (auto simp: py_inv_def)
  have put: "py_put now uuid data s = (Inr \<lparr>por_object_id = to_vec ?new\<rparr>, s\<lparr>ps_object_store := Some ?st\<rparr>)"
    using assms(2,3) inv
    by (simp add: py_put_def get_runtime_def get_object_store_def Let_def os_put_inv_eq put_check_def)
  have zips: "map fst (filter P (zip refs (map f refs))) = filter (\<lambda>r. P (r, f r)) refs" for P and f :: "_ \<Rightarrow> bool"
    by (induction refs) auto
  show ?thesis
    unfolding put using assms(2) inv(3)
    by (simp add: py_get_def py_wait_def get_runtime_def get_object_store_def Let_def
        os_get_still[OF assms(4,5)] os_wait_still[OF assms(4,5)] split_ready_eq zips comp_def)
qed

theorem py_put_get_witness:
  "py_get (\<lambda>i. i * 10000000) 0 \<lparr>por_object_id = to_vec (id_new [7] :: ObjectId)\<rparr> 100
     (snd (py_put 0 [7] [1, 2, 3] py_started)) = Some (Inr [1, 2, 3])"
proof -
  have "poll_sleeps (\<lambda>i. i * 10000000)" by (simp add: poll_sleeps_def millis_10)
  moreover have "total_size (os_new 2147483648) = 0" by (simp add: os_new_def total_size_def hm_values_def)
  ultimately show ?thesis
    using py_put_get[OF py_started_reachable, of "os_new 2147483648" "[1, 2, 3]" "\<lambda>i. i * 10000000" 0 0 "[7]" 100 "[]" 1]
    by (simp add: Let_def split_beta)
qed

text \<open>
  C40. A shutdown is final: in every session that was started and shut down, and whatever the program calls
  afterwards, the module says it is not initialized and every \<^verbatim>\<open>init\<close> fails and changes nothing;
  yet the store is still there, and \<^verbatim>\<open>get\<close> still returns every object that was stored before the shutdown.
\<close>

theorem py_shutdown_is_final:
  assumes "py_step\<^sup>*\<^sup>* py_statics s" "ps_object_store s = Some st"
    and "py_step\<^sup>*\<^sup>* (snd (py_shutdown s)) s'"
    and "poll_sleeps clock" "start \<le> clock 0"
  shows "py_is_initialized s' = Inr False
    \<and> (\<forall>rt address num_cpus. isl (fst (py_init rt address num_cpus s')) \<and> snd (py_init rt address num_cpus s') = s')
    \<and> (\<forall>ref. from_vec (por_object_id ref) \<in> dom (os_view st) \<longrightarrow>
         (\<exists>data. py_get clock start ref timeout_ms s' = Some (Inr data)))"
proof -
  have "os_inv st" "ps_runtime s = Some ()"
    using py_reachable_inv[OF assms(1)] assms(2) by (auto simp: py_inv_def)
  then have "py_shut st (snd (py_shutdown s))" using assms(2) by (simp add: py_shut_def py_shutdown_def)
  from py_shut_steps[OF assms(3) this] obtain st' where s': "ps_runtime s' = Some ()" "\<not> ps_initialized s'"
    "ps_object_store s' = Some st'" "dom (os_view st) \<subseteq> dom (os_view st')" by (auto simp: py_shut_def)
  have "\<exists>data. py_get clock start ref timeout_ms s' = Some (Inr data)"
    if "from_vec (por_object_id ref) \<in> dom (os_view st)" for ref
    using that s' by (auto simp: py_get_def get_runtime_def get_object_store_def os_get_still[OF assms(4,5)])
  then show ?thesis using s'
    by (auto simp: py_is_initialized_def py_init_def once_set_def split: sum.splits)
qed

theorem py_shutdown_is_final_witness:
  "let s1 = snd (py_put 0 [1] [7] py_started); s2 = snd (py_shutdown s1)
   in py_is_initialized s2 = Inr False \<and> isl (fst (py_init (Inr ()) ''auto'' (Some 4) s2))
    \<and> (\<exists>data. py_get (\<lambda>i. i * 10000000) 0 \<lparr>por_object_id = to_vec (id_new [1] :: ObjectId)\<rparr> 100 s2 = Some (Inr data))"
proof -
  let ?s1 = "snd (py_put 0 [1] [7] py_started)" and ?st = "put_insert 0 (id_new [1]) [7] (os_new 2147483648)"
  have reach: "py_step\<^sup>*\<^sup>* py_statics ?s1"
    using py_started_reachable py_step.put by (rule rtranclp.rtrancl_into_rtrancl)
  have "os_inv (os_new 2147483648)" by (simp add: os_inv_def os_new_def)
  then have st: "ps_object_store ?s1 = Some ?st"
    by (simp add: py_put_def get_runtime_def get_object_store_def os_put_inv_eq put_check_def total_size_def os_new_def hm_values_def Let_def)
  have "poll_sleeps (\<lambda>i. i * 10000000)" by (simp add: poll_sleeps_def millis_10)
  note final = py_shutdown_is_final[OF reach st rtranclp.rtrancl_refl this, of 0 100]
  have "id_new [1] \<in> dom (os_view ?st)" by (simp add: os_view_def put_insert_def domIff)
  with final show ?thesis unfolding Let_def
    by (metis from_vec_to_vec PyObjectRef.select_convs(1) le0)
qed

end
