(* ===== verification/Core_Serialize.thy ===== *)
theory Core_Serialize
  imports Core_Error
begin

text \<open>
  \<^verbatim>\<open>crates/ray-core/src/serialize.rs\<close>. The encoders (bincode, serde_json) are outside the
  repository: they are parameters, a \<open>codec\<close> of an encoding and a decoding function with
  string errors. The in-place write of \<^verbatim>\<open>ZeroCopyWrite\<close> is modelled with \<^verbatim>\<open>usize\<close> as a 64-bit word,
  because the end of the range can overflow: a build with overflow checks panics there, one
  without wraps around.
\<close>

record ('v, 'b) codec =
  enc :: "'v \<Rightarrow> string + 'b"
  dec :: "'b \<Rightarrow> string + 'v"

definition serialize :: "('v, bytes) codec \<Rightarrow> 'v \<Rightarrow> bytes RayResult" where
  "serialize bincode value = map_sum (\<lambda>e. SerializationError [Lit e]) id (enc bincode value)"

definition deserialize :: "('v, bytes) codec \<Rightarrow> bytes \<Rightarrow> 'v RayResult" where
  "deserialize bincode bs = map_sum (\<lambda>e. DeserializationError [Lit e]) id (dec bincode bs)"

definition serialize_json :: "('v, string) codec \<Rightarrow> 'v \<Rightarrow> string RayResult" where
  "serialize_json json value = map_sum (\<lambda>e. SerializationError [Lit e]) id (enc json value)"

definition deserialize_json :: "('v, string) codec \<Rightarrow> string \<Rightarrow> 'v RayResult" where
  "deserialize_json json s = map_sum (\<lambda>e. DeserializationError [Lit e]) id (dec json s)"

section \<open>Zero-copy access\<close>

definition zc_len :: "bytes \<Rightarrow> nat" where
  "zc_len as_bytes = length as_bytes"

definition zc_is_empty :: "bytes \<Rightarrow> bool" where
  "zc_is_empty as_bytes = (zc_len as_bytes = 0)"

datatype 'a call = Panicked | Returned 'a

definition write_out_of_bounds :: "u64 \<Rightarrow> bytes \<Rightarrow> bytes \<Rightarrow> RayError" where
  "write_out_of_bounds offset data buf =
     SharedMemoryError [Lit ''write out of bounds: offset '', Num (uint offset), Lit '' + len '',
       Num (int (length data)), Lit '' > buffer '', Num (int (length buf))]"

text \<open>\<^verbatim>\<open>buf[offset..end].copy_from_slice(data)\<close>: panics if the range is not inside the buffer.\<close>

definition copy_into_range :: "u64 \<Rightarrow> u64 \<Rightarrow> bytes \<Rightarrow> bytes \<Rightarrow> bytes call" where
  "copy_into_range offset end_pos data buf =
     (if offset \<le> end_pos \<and> unat end_pos \<le> length buf \<and> unat end_pos - unat offset = length data
      then Returned (take (unat offset) buf @ data @ drop (unat end_pos) buf)
      else Panicked)"

definition write_at :: "bool \<Rightarrow> u64 \<Rightarrow> bytes \<Rightarrow> bytes \<Rightarrow> (unit RayResult \<times> bytes) call" where
  "write_at overflow_checks offset data buf =
     (let end_pos = offset + of_nat (length data)
      in if overflow_checks \<and> unat offset + length data \<ge> 2 ^ 64 then Panicked
         else if unat end_pos > length buf then Returned (Inl (write_out_of_bounds offset data buf), buf)
         else (case copy_into_range offset end_pos data buf of
                 Panicked \<Rightarrow> Panicked
               | Returned buf' \<Rightarrow> Returned (Inr (), buf')))"

lemma unat_end_pos:
  fixes offset :: u64
  assumes "length data < 2 ^ 64"
  shows "unat (offset + of_nat (length data)) =
    (if unat offset + length data < 2 ^ 64 then unat offset + length data
     else unat offset + length data - 2 ^ 64)"
proof -
  have l: "unat (of_nat (length data) :: u64) = length data"
    using assms by (simp add: unat_of_nat)
  have "unat offset < 2 ^ 64" using unsigned_less[of offset] by simp
  then have "(unat offset + length data) mod 2 ^ 64 =
      (if unat offset + length data < 2 ^ 64 then unat offset + length data
       else unat offset + length data - 2 ^ 64)"
    using assms by (simp add: mod_if)
  then show ?thesis using l by (simp add: unat_word_ariths)
qed

section \<open>Writing in place\<close>

text \<open>
  An in-place write writes exactly or not at all: it succeeds if and only if the range lies
  inside the buffer, and then the bytes of the range are the data and all others are unchanged;
  if the range leaves the buffer it returns an error and changes nothing; if its end does not
  fit in 64 bits it never succeeds, with or without overflow checks.
\<close>

lemma write_at_eq:
  assumes "length buf < 2 ^ 64" "length data < 2 ^ 64"
  shows "write_at checks offset data buf =
    (if unat offset + length data \<le> length buf
     then Returned (Inr (), take (unat offset) buf @ data @ drop (unat offset + length data) buf)
     else if unat offset + length data < 2 ^ 64
          then Returned (Inl (write_out_of_bounds offset data buf), buf)
     else if checks \<or> unat offset + length data - 2 ^ 64 \<le> length buf then Panicked
     else Returned (Inl (write_out_of_bounds offset data buf), buf))"
proof -
  have o: "unat offset < 2 ^ 64" using unsigned_less[of offset] by simp
  note e = unat_end_pos[OF assms(2), of offset]
  show ?thesis
  proof (cases "unat offset + length data < 2 ^ 64")
    case True
    then show ?thesis
      using e assms o by (auto simp: write_at_def Let_def copy_into_range_def word_le_nat_alt)
  next
    case False
    then have "unat (offset + of_nat (length data)) < unat offset" using e assms(2) by simp
    with False show ?thesis
      using e assms o by (auto simp: write_at_def Let_def copy_into_range_def word_le_nat_alt)
  qed
qed

end
