(* ===== verification/Shared_Memory.thy ===== *)
theory Shared_Memory
  imports Core_Serialize Hash_Map
begin

text \<open>
  \<^verbatim>\<open>crates/ray-object-store/src/shared_memory.rs\<close>: named shared-memory regions and the pool that
  allocates them. The crate \<^verbatim>\<open>shared_memory\<close> is outside the repository: \<open>shm_ops\<close> holds its
  \<^verbatim>\<open>create\<close> and \<^verbatim>\<open>open\<close> over a state of the operating system, the identifier of the segment a handle
  maps, and reading and writing the mapped bytes. What is used of its documentation is
  \<open>shm_create_maps\<close> (a created segment has the requested identifier and maps at least the
  requested number of bytes) and \<open>shm_memory\<close> (a write through a mapping is what is read through it
  afterwards, and segments with different identifiers are different memory).

  A region remembers a size of its own and builds its slices with that size from a raw pointer;
  the read is defined (\<open>Some\<close>) only if the mapping is at least as long.
\<close>

record ('os, 'h) shm_ops =
  shm_create :: "string \<Rightarrow> nat \<Rightarrow> 'os \<Rightarrow> (string + 'h) \<times> 'os"
  shm_open :: "string \<Rightarrow> 'os \<Rightarrow> string + 'h"
  shm_os_id :: "'h \<Rightarrow> string"
  shm_mapped :: "'h \<Rightarrow> 'os \<Rightarrow> bytes"
  shm_write :: "'h \<Rightarrow> bytes \<Rightarrow> 'os \<Rightarrow> 'os"

record 'h ShmRegion =
  sr_name :: string
  sr_size :: nat
  sr_inner :: 'h

definition region_create ::
  "('os, 'h) shm_ops \<Rightarrow> string \<Rightarrow> nat \<Rightarrow> 'os \<Rightarrow> 'h ShmRegion RayResult \<times> 'os" where
  "region_create ops name sz os =
     (case shm_create ops name sz os of
        (Inl e, os) \<Rightarrow> (Inl (SharedMemoryError [Lit ''create failed: '', Lit e]), os)
      | (Inr shmem, os) \<Rightarrow> (Inr \<lparr>sr_name = name, sr_size = sz, sr_inner = shmem\<rparr>, os))"

definition region_open :: "('os, 'h) shm_ops \<Rightarrow> string \<Rightarrow> nat \<Rightarrow> 'os \<Rightarrow> 'h ShmRegion RayResult" where
  "region_open ops name sz os =
     (case shm_open ops name os of
        Inl e \<Rightarrow> Inl (SharedMemoryError [Lit ''open failed: '', Lit e])
      | Inr shmem \<Rightarrow> Inr \<lparr>sr_name = name, sr_size = sz, sr_inner = shmem\<rparr>)"

definition region_as_bytes :: "('os, 'h) shm_ops \<Rightarrow> 'h ShmRegion \<Rightarrow> 'os \<Rightarrow> bytes option" where
  "region_as_bytes ops r os =
     (let m = shm_mapped ops (sr_inner r) os
      in if sr_size r \<le> length m then Some (take (sr_size r) m) else None)"

text \<open>
  \<^verbatim>\<open>write_at\<close> on the slice of \<^verbatim>\<open>as_bytes_mut\<close>: the first \<^verbatim>\<open>size\<close> bytes of the mapping change. Again \<open>None\<close>
  stands for a slice that reaches beyond the mapping.
\<close>

definition region_write_at ::
  "('os, 'h) shm_ops \<Rightarrow> bool \<Rightarrow> u64 \<Rightarrow> bytes \<Rightarrow> 'h ShmRegion \<Rightarrow> 'os \<Rightarrow> (unit RayResult \<times> 'os) call option" where
  "region_write_at ops overflow_checks offset data r os =
     map_option
       (\<lambda>buf. case write_at overflow_checks offset data buf of
           Panicked \<Rightarrow> Panicked
         | Returned (res, buf') \<Rightarrow>
             Returned (res, shm_write ops (sr_inner r) (buf' @ drop (sr_size r) (shm_mapped ops (sr_inner r) os)) os))
       (region_as_bytes ops r os)"

section \<open>The pool\<close>

text \<open>\<^verbatim>\<open>Display\<close> of an unsigned integer.\<close>

fun show_nat :: "nat \<Rightarrow> string" where
  "show_nat n = (if n < 10 then [char_of (48 + n)] else show_nat (n div 10) @ [char_of (48 + n mod 10)])"

declare show_nat.simps [simp del]

record 'h ShmPool =
  sp_regions :: "(string, 'h ShmRegion) hash_map"
  sp_base_dir :: string
  sp_next_id :: u64

definition shm_pool_new :: "string \<Rightarrow> 'h ShmPool" where
  "shm_pool_new base_dir = \<lparr>sp_regions = [], sp_base_dir = base_dir, sp_next_id = 0\<rparr>"

definition region_name :: "string \<Rightarrow> u64 \<Rightarrow> string" where
  "region_name base_dir i = base_dir @ ''_'' @ show_nat (unat i)"

definition pool_allocate ::
  "('os, 'h) shm_ops \<Rightarrow> nat \<Rightarrow> 'h ShmPool \<times> 'os \<Rightarrow> string RayResult \<times> 'h ShmPool \<times> 'os" where
  "pool_allocate ops sz po =
     (case po of (p, os) \<Rightarrow>
       let name = region_name (sp_base_dir p) (sp_next_id p);
           p = p\<lparr>sp_next_id := sp_next_id p + 1\<rparr>
       in (case region_create ops name sz os of
             (Inl e, os) \<Rightarrow> (Inl e, p, os)
           | (Inr region, os) \<Rightarrow> (Inr name, p\<lparr>sp_regions := hm_insert name region (sp_regions p)\<rparr>, os)))"

definition pool_get :: "'h ShmPool \<Rightarrow> string \<Rightarrow> 'h ShmRegion option" where
  "pool_get p name = hm_get (sp_regions p) name"

definition pool_release :: "string \<Rightarrow> 'h ShmPool \<Rightarrow> 'h ShmPool" where
  "pool_release name p = p\<lparr>sp_regions := hm_remove name (sp_regions p)\<rparr>"

section \<open>Names are fresh\<close>

definition parse_nat :: "string \<Rightarrow> nat" where
  "parse_nat s = foldl (\<lambda>n c. 10 * n + (of_char c - 48)) 0 s"

lemma parse_show_nat [simp]: "parse_nat (show_nat n) = n"
proof (induction n rule: show_nat.induct)
  case (1 n)
  show ?case
  proof (cases "n < 10")
    case True
    then show ?thesis by (subst show_nat.simps) (simp add: parse_nat_def)
  next
    case False
    then show ?thesis using 1 by (subst show_nat.simps) (simp add: parse_nat_def)
  qed
qed

lemma show_nat_inj [simp]: "show_nat m = show_nat n \<longleftrightarrow> m = n"
  by (metis parse_show_nat)

lemma region_name_inj [simp]: "region_name b i = region_name b j \<longleftrightarrow> i = j"
  by (simp add: region_name_def word_unat_eq_iff)

text \<open>Every live region is filed under its name, which was made from a number already used.\<close>

definition pool_inv :: "'h ShmPool \<Rightarrow> bool" where
  "pool_inv p \<longleftrightarrow>
     hm_keyed sr_name (sp_regions p) \<and>
     (\<forall>name r. hm_get (sp_regions p) name = Some r \<longrightarrow>
        (\<exists>i < sp_next_id p. name = region_name (sp_base_dir p) i))"

lemma pool_inv_new: "pool_inv (shm_pool_new d)"
  by (simp add: pool_inv_def shm_pool_new_def)

lemma pool_inv_release: "pool_inv p \<Longrightarrow> pool_inv (pool_release name p)"
  by (auto simp: pool_inv_def pool_release_def intro: hm_keyed_remove)

lemma pool_fresh: "pool_inv p \<Longrightarrow> pool_get p (region_name (sp_base_dir p) (sp_next_id p)) = None"
  by (cases "hm_get (sp_regions p) (region_name (sp_base_dir p) (sp_next_id p))") (auto simp: pool_inv_def pool_get_def)

lemma pool_allocate_cases:
  assumes "pool_allocate ops sz (p, os) = (r, p', os')"
  obtains (failed) e where "r = Inl e" "p' = p\<lparr>sp_next_id := sp_next_id p + 1\<rparr>"
    | (created) h where "shm_create ops (region_name (sp_base_dir p) (sp_next_id p)) sz os = (Inr h, os')"
        "r = Inr (region_name (sp_base_dir p) (sp_next_id p))"
        "p' = p\<lparr>sp_next_id := sp_next_id p + 1,
               sp_regions := hm_insert (region_name (sp_base_dir p) (sp_next_id p))
                 \<lparr>sr_name = region_name (sp_base_dir p) (sp_next_id p), sr_size = sz, sr_inner = h\<rparr> (sp_regions p)\<rparr>"
  using assms
  by (auto simp: pool_allocate_def region_create_def Let_def split: prod.splits sum.splits)

lemma pool_inv_allocate:
  assumes "pool_inv p" "sp_next_id p + 1 \<noteq> 0" "pool_allocate ops sz (p, os) = (r, p', os')"
  shows "pool_inv p'"
proof -
  have lt: "i < sp_next_id p \<Longrightarrow> i < sp_next_id p + 1" "sp_next_id p < sp_next_id p + 1" for i
    using assms(2) unat_Suc_word[of "sp_next_id p"] by (auto simp: word_less_nat_alt)
  from assms(3) show ?thesis
  proof (cases rule: pool_allocate_cases)
    case (failed e)
    then show ?thesis using assms(1) lt by (fastforce simp: pool_inv_def)
  next
    case (created h)
    then show ?thesis using assms(1) lt by (fastforce simp: pool_inv_def intro: hm_keyed_insert)
  qed
qed

definition shm_create_maps :: "('os, 'h) shm_ops \<Rightarrow> bool" where
  "shm_create_maps ops \<longleftrightarrow>
     (\<forall>name sz os h os'. shm_create ops name sz os = (Inr h, os') \<longrightarrow>
        shm_os_id ops h = name \<and> sz \<le> length (shm_mapped ops h os'))"

definition shm_memory :: "('os, 'h) shm_ops \<Rightarrow> bool" where
  "shm_memory ops \<longleftrightarrow>
     (\<forall>h bs os. length bs = length (shm_mapped ops h os) \<longrightarrow>
        shm_mapped ops h (shm_write ops h bs os) = bs \<and>
        (\<forall>h'. shm_os_id ops h' \<noteq> shm_os_id ops h \<longrightarrow> shm_mapped ops h' (shm_write ops h bs os) = shm_mapped ops h' os))"

text \<open>Every region of the pool maps the segment that has its name.\<close>

definition pool_backed :: "('os, 'h) shm_ops \<Rightarrow> 'h ShmPool \<Rightarrow> bool" where
  "pool_backed ops p \<longleftrightarrow> (\<forall>name r. pool_get p name = Some r \<longrightarrow> shm_os_id ops (sr_inner r) = name)"

lemma pool_backed_new: "pool_backed ops (shm_pool_new d)"
  by (simp add: pool_backed_def pool_get_def shm_pool_new_def)

lemma pool_backed_release: "pool_backed ops p \<Longrightarrow> pool_backed ops (pool_release name p)"
  by (auto simp: pool_backed_def pool_get_def pool_release_def split: if_splits)

lemma pool_backed_allocate:
  assumes "shm_create_maps ops" "pool_backed ops p" "pool_allocate ops sz (p, os) = (r, p', os')"
  shows "pool_backed ops p'"
  using assms(3)
proof (cases rule: pool_allocate_cases)
  case (created h)
  then show ?thesis using assms(1,2) by (auto simp: pool_backed_def pool_get_def shm_create_maps_def split: if_splits)
qed (use assms(2) in \<open>simp add: pool_backed_def pool_get_def\<close>)

section \<open>Properties\<close>

text \<open>
  The pool allocates a fresh, readable region: as long as the 64-bit counter does not wrap,
  a successful \<^verbatim>\<open>allocate\<close> returns a name no live region has, keeps every live region, and the new
  region can be read in its whole requested size; a failed one changes no region.
\<close>

lemma shm_allocate_fresh:
  assumes "shm_create_maps ops" "pool_inv p" "sp_next_id p + 1 \<noteq> 0"
    and "pool_allocate ops sz (p, os) = (r, p', os')"
  shows "pool_inv p' \<and>
    (case r of
       Inr name \<Rightarrow> pool_get p name = None \<and> (\<forall>k. k \<noteq> name \<longrightarrow> pool_get p' k = pool_get p k) \<and>
         (\<exists>region bs. pool_get p' name = Some region \<and> sr_name region = name \<and>
            region_as_bytes ops region os' = Some bs \<and> length bs = sz)
     | Inl e \<Rightarrow> pool_get p' = pool_get p)"
  using assms(4)
proof (cases rule: pool_allocate_cases)
  case (failed e)
  then show ?thesis using pool_inv_allocate[OF assms(2-4)] by (simp add: pool_get_def fun_eq_iff)
next
  case (created h)
  then have "sz \<le> length (shm_mapped ops h os')" using assms(1) by (auto simp: shm_create_maps_def)
  then show ?thesis
    using created pool_inv_allocate[OF assms(2-4)] pool_fresh[OF assms(2)]
    by (auto simp: pool_get_def region_as_bytes_def Let_def)
qed

text \<open>An operating system that keeps the segments in a map, to show the hypothesis can hold.\<close>

definition map_shm :: "(string \<rightharpoonup> bytes, string) shm_ops" where
  "map_shm =
     \<lparr>shm_create = (\<lambda>name sz os. if os name = None then (Inr name, os(name \<mapsto> replicate sz 0))
                                     else (Inl ''exists'', os)),
      shm_open = (\<lambda>name os. if os name = None then Inl ''missing'' else Inr name),
      shm_os_id = id,
      shm_mapped = (\<lambda>h os. case os h of Some bs \<Rightarrow> bs | None \<Rightarrow> []),
      shm_write = (\<lambda>h bs os. if os h = None then os else os(h \<mapsto> bs))\<rparr>"

lemma map_shm_laws: "shm_create_maps map_shm" "shm_memory map_shm"
  by (auto simp: shm_create_maps_def shm_memory_def map_shm_def split: if_splits option.splits)



text \<open>
  \<^verbatim>\<open>ShmRegion::open\<close> trusts its size argument: opening an existing segment with a larger size
  succeeds, and the slice of the region then reaches beyond the mapping.
\<close>

lemma shm_open_oversized:
  assumes "shm_open ops name os = Inr h" "length (shm_mapped ops h os) < sz"
  shows "\<exists>region. region_open ops name sz os = Inr region \<and> region_as_bytes ops region os = None"
  using assms by (simp add: region_open_def region_as_bytes_def)

end
