(* ===== verification/Refinement.thy ===== *)
theory Refinement
  imports Main
begin

text \<open>
  Refinement between two labelled step relations. A step is silent (\<open>None\<close>) or carries an event
  (\<open>Some l\<close>) that a client sees; \<open>traced\<close> collects the events of a run. The contract \<open>refinement\<close> has a
  concrete system, an abstract one, a function from concrete to abstract states and an invariant of
  the concrete system: an event of the concrete system is the same event of the abstract one, and a
  silent step is a silent abstract step or changes nothing abstractly. Then every concrete run is an
  abstract run with the same events.
\<close>

inductive traced :: "('l option \<Rightarrow> 's \<Rightarrow> 's \<Rightarrow> bool) \<Rightarrow> 'l list \<Rightarrow> 's \<Rightarrow> 's \<Rightarrow> bool" for step where
  start: "traced step [] s s"
| silent: "traced step tr s s' \<Longrightarrow> step None s' s'' \<Longrightarrow> traced step tr s s''"
| event: "traced step tr s s' \<Longrightarrow> step (Some l) s' s'' \<Longrightarrow> traced step (tr @ [l]) s s''"

lemma traced_invariant:
  assumes "traced step tr s s'" "P [] s"
    and "\<And>tr s s'. P tr s \<Longrightarrow> step None s s' \<Longrightarrow> P tr s'"
    and "\<And>tr l s s'. P tr s \<Longrightarrow> step (Some l) s s' \<Longrightarrow> P (tr @ [l]) s'"
  shows "P tr s'"
  using assms(1,2) by (induction rule: traced.induct) (auto intro: assms(3,4))

locale refinement =
  fixes cstep :: "'l option \<Rightarrow> 'c \<Rightarrow> 'c \<Rightarrow> bool"
    and astep :: "'l option \<Rightarrow> 'a \<Rightarrow> 'a \<Rightarrow> bool"
    and abstr :: "'c \<Rightarrow> 'a"
    and inv :: "'c \<Rightarrow> bool"
  assumes inv_step: "inv c \<Longrightarrow> cstep l c c' \<Longrightarrow> inv c'"
    and simulates_event: "inv c \<Longrightarrow> cstep (Some e) c c' \<Longrightarrow> astep (Some e) (abstr c) (abstr c')"
    and simulates_silent: "inv c \<Longrightarrow> cstep None c c' \<Longrightarrow> astep None (abstr c) (abstr c') \<or> abstr c' = abstr c"
begin

lemma inv_run: "traced cstep tr c c' \<Longrightarrow> inv c \<Longrightarrow> inv c'"
  by (induction rule: traced.induct) (auto intro: inv_step)

lemma abstract_run: "traced cstep tr c c' \<Longrightarrow> inv c \<Longrightarrow> traced astep tr (abstr c) (abstr c')"
proof (induction rule: traced.induct)
  case (silent tr c c1 c2)
  have "inv c1" using inv_run[OF silent.hyps(1) silent.prems] .
  from simulates_silent[OF this silent.hyps(2)] silent.IH[OF silent.prems] show ?case
    by (auto intro: traced.silent)
next
  case (event tr c c1 l c2)
  have "inv c1" using inv_run[OF event.hyps(1) event.prems] .
  from simulates_event[OF this event.hyps(2)] event.IH[OF event.prems] show ?case by (auto intro: traced.event)
qed (auto intro: traced.start)

end

end
