(* ===== verification/Object_Store_Budget.thy ===== *)
theory Object_Store_Budget
  imports Object_Store_Conc Refinement
begin

text \<open>
  The memory budget when \<^verbatim>\<open>put\<close> calls overlap (\<^verbatim>\<open>crates/ray-object-store/src/store.rs\<close>). The check and
  the insertion of a call are separate lock sections, so the budget can be exceeded; this theory
  bounds by how much. \<open>conc_step n limit\<close> lets calls begin, of at most \<open>limit\<close> bytes and at most \<open>n\<close> at
  a time, and interleaves their lock sections with the other operations of the store.
\<close>

text \<open>What a call may still add to the store: its bytes, once it has passed its check.\<close>

definition armed_bytes :: "put_call \<Rightarrow> nat" where
  "armed_bytes c = (if pc_at c = PutInsert then length (pc_data c) else 0)"

definition in_flight :: "put_call \<Rightarrow> nat" where
  "in_flight c = (case pc_at c of PutDone _ \<Rightarrow> 0 | _ \<Rightarrow> 1)"

text \<open>What a client of the store does, as seen from outside; the lock sections are silent.\<close>

datatype store_event = Called ObjectId bytes | Deleted ObjectId | Unreferenced ObjectId

inductive conc_step ::
  "nat \<Rightarrow> nat \<Rightarrow> store_event option \<Rightarrow> put_call list \<times> InMemoryObjectStore \<Rightarrow> put_call list \<times> InMemoryObjectStore \<Rightarrow> bool"
  for n limit where
  call: "sum_list (map in_flight calls) < n \<Longrightarrow> length data \<le> limit \<Longrightarrow>
    conc_step n limit (Some (Called oid data)) (calls, s) (calls @ [put_begin now oid data], s)"
| turn: "conc_step n limit None cs (put_turn i cs)"
| delete: "conc_step n limit (Some (Deleted oid)) (calls, s) (calls, snd (os_delete oid s))"
| remove_ref: "conc_step n limit (Some (Unreferenced oid)) (calls, s) (calls, snd (remove_reference oid s))"
| add_ref: "(\<And>e. get_entry s oid = Some e \<Longrightarrow> oe_ref_count e + 1 \<noteq> 0) \<Longrightarrow>
    conc_step n limit None (calls, s) (calls, add_reference oid s)"
| spill: "conc_step n limit None (calls, s) (calls, spill_mark oid path s)"

definition conc_inv :: "nat \<Rightarrow> nat \<Rightarrow> nat \<Rightarrow> put_call list \<times> InMemoryObjectStore \<Rightarrow> bool" where
  "conc_inv cap n limit cs \<longleftrightarrow>
     (case cs of (calls, s) \<Rightarrow>
        os_inv s \<and> os_max_memory_bytes s = cap \<and> sum_list (map in_flight calls) \<le> n \<and>
        (\<forall>c\<in>set calls. in_flight c = 1 \<longrightarrow> length (pc_data c) \<le> limit) \<and>
        total_size s + sum_list (map armed_bytes calls) \<le> cap + (n - 1) * limit)"

lemma in_flight_cases: "in_flight c = 0 \<or> in_flight c = 1"
  by (simp add: in_flight_def split: put_pc.splits)

lemma armed_le: "in_flight c = 1 \<longrightarrow> length (pc_data c) \<le> limit \<Longrightarrow> armed_bytes c \<le> in_flight c * limit"
  by (auto simp: armed_bytes_def in_flight_def split: put_pc.splits)

lemma armed_sum_le:
  "\<forall>c\<in>set calls. in_flight c = 1 \<longrightarrow> length (pc_data c) \<le> limit \<Longrightarrow>
   sum_list (map armed_bytes calls) \<le> sum_list (map in_flight calls) * limit"
  by (induction calls) (auto simp: add_mult_distrib intro!: add_mono armed_le)

text \<open>A call that passes the check arms itself: the other armed calls are at most \<open>n - 1\<close>.\<close>

lemma others_armed:
  assumes "conc_inv cap n limit (calls, s)" "i < length calls" "in_flight (calls ! i) = 1" "armed_bytes (calls ! i) = 0"
  shows "sum_list (map armed_bytes calls) \<le> (n - 1) * limit"
proof -
  let ?c = "calls ! i" and ?idle = "(calls ! i)\<lparr>pc_at := PutDone (Inr ())\<rparr>"
  let ?calls = "calls[i := ?idle]"
  have idle: "in_flight ?idle = 0" "armed_bytes ?idle = 0" by (simp_all add: in_flight_def armed_bytes_def)
  have small: "\<forall>c\<in>set ?calls. in_flight c = 1 \<longrightarrow> length (pc_data c) \<le> limit"
    using assms(1) idle set_update_subset_insert[of calls i ?idle] by (auto simp: conc_inv_def)
  have "sum_list (map in_flight ?calls) \<le> n - 1"
    using sum_list_map_update[OF assms(2), of in_flight ?idle] assms(1,3) idle by (auto simp: conc_inv_def)
  then have "sum_list (map in_flight ?calls) * limit \<le> (n - 1) * limit" by (rule mult_le_mono1)
  with armed_sum_le[OF small] sum_list_map_update[OF assms(2), of armed_bytes ?idle] assms(4) idle(2)
  show ?thesis by linarith
qed

lemma put_turn_conc_inv:
  assumes "conc_inv cap n limit (calls, s)" "0 < cap"
  shows "conc_inv cap n limit (put_turn i (calls, s))"
proof (cases "i < length calls")
  case i: True
  let ?c = "calls ! i"
  obtain c' s' where st: "put_step (?c, s) = (c', s')" by force
  have inv: "os_inv s" "os_max_memory_bytes s = cap" using assms(1) by (simp_all add: conc_inv_def)
  have s': "os_inv s'" "os_max_memory_bytes s' = cap" "in_flight c' \<le> in_flight ?c" "pc_data c' = pc_data ?c"
    using st inv put_step_inv[OF inv(1), of ?c]
    by (auto simp: put_step_def in_flight_def evict_noop split: put_pc.splits)
  have flight: "sum_list (map in_flight (calls[i := c'])) \<le> n"
    using sum_list_map_update[OF i, of in_flight c'] s'(3) assms(1) by (simp add: conc_inv_def)
  have "in_flight c' = 1 \<longrightarrow> in_flight ?c = 1" using s'(3) in_flight_cases[of ?c] by auto
  then have small: "\<forall>c\<in>set (calls[i := c']). in_flight c = 1 \<longrightarrow> length (pc_data c) \<le> limit"
    using assms(1) s'(4) i set_update_subset_insert[of calls i c'] by (auto simp: conc_inv_def)
  have "total_size s' + armed_bytes c' \<le> total_size s + armed_bytes ?c
      \<or> in_flight ?c = 1 \<and> armed_bytes ?c = 0 \<and> total_size s' + armed_bytes c' \<le> cap"
    using st inv assms(2) put_insert_size[OF os_invD(1)[OF inv(1)]]
    by (auto simp: put_step_def armed_bytes_def in_flight_def evict_noop put_check_def split: put_pc.splits if_splits)
  then have "total_size s' + sum_list (map armed_bytes (calls[i := c'])) \<le> cap + (n - 1) * limit"
    using sum_list_map_update[OF i, of armed_bytes c'] others_armed[OF assms(1) i] assms(1)
    by (auto simp: conc_inv_def)
  with s' flight small show ?thesis using i st by (simp add: put_turn_def conc_inv_def)
qed (use assms in \<open>simp add: put_turn_def\<close>)

lemma conc_step_inv:
  assumes "conc_step n limit l cs cs'" "conc_inv cap n limit cs" "0 < cap"
  shows "conc_inv cap n limit cs'"
  using assms(1)
proof (cases rule: conc_step.cases)
  case (call calls data oid s now)
  then show ?thesis using assms(2) by (auto simp: conc_inv_def put_begin_def in_flight_def armed_bytes_def)
next
  case (turn i)
  then show ?thesis using put_turn_conc_inv[of cap n limit "fst cs" "snd cs" i] assms(2,3) by simp
next
  case (delete oid calls s)
  then show ?thesis using assms(2) os_delete_size[of oid s] by (auto simp: conc_inv_def os_delete_inv)
next
  case (remove_ref oid calls s)
  then show ?thesis
    using assms(2) remove_reference_size[OF os_invD(1), of s oid] by (auto simp: conc_inv_def remove_reference_inv)
next
  case (add_ref s oid calls)
  then show ?thesis
    using assms(2) os_invD(1)[of s] by (auto simp: conc_inv_def add_reference_inv add_reference_size)
next
  case (spill calls s oid path)
  then show ?thesis
    using assms(2) os_invD(1)[of s] by (auto simp: conc_inv_def spill_mark_inv spill_mark_size)
qed

lemma conc_steps_inv:
  "traced (conc_step n limit) tr cs cs' \<Longrightarrow> conc_inv cap n limit cs \<Longrightarrow> 0 < cap \<Longrightarrow> conc_inv cap n limit cs'"
  by (induction rule: traced.induct) (auto intro: conc_step_inv)

lemma conc_inv_new: "conc_inv cap n limit ([], os_new cap)"
  by (simp add: conc_inv_def os_new_def os_inv_def total_size_def hm_values_def)

section \<open>The race\<close>

text \<open>Two calls of the size of the whole budget both make their check before either inserts.\<close>

definition budget_race :: "nat \<Rightarrow> put_call list \<times> InMemoryObjectStore" where
  "budget_race cap =
     put_schedule [0, 1, 0, 1]
       ([put_begin 0 (from_slice [1]) (replicate cap 0), put_begin 0 (from_slice [2]) (replicate cap 0)], os_new cap)"

abbreviation race_events :: "nat \<Rightarrow> store_event list" where
  "race_events cap \<equiv> [Called (from_slice [1]) (replicate cap 0), Called (from_slice [2]) (replicate cap 0)]"

lemma turns_traced:
  "traced (conc_step n limit) tr c cs \<Longrightarrow> traced (conc_step n limit) tr c (put_schedule turns cs)"
proof (induction turns arbitrary: cs)
  case (Cons i turns)
  from Cons.IH[OF traced.silent[OF Cons.prems conc_step.turn]] show ?case by simp
qed simp

lemma budget_race_reachable: "traced (conc_step 2 cap) (race_events cap) ([], os_new cap) (budget_race cap)"
proof -
  let ?a = "put_begin 0 (from_slice [1]) (replicate cap 0)" and ?b = "put_begin 0 (from_slice [2]) (replicate cap 0)"
  let ?R = "traced (conc_step 2 cap)"
  have "?R [Called (from_slice [1]) (replicate cap 0)] ([], os_new cap) ([?a], os_new cap)"
    using traced.event[of "conc_step 2 cap" "[]" "([], os_new cap)" "([], os_new cap)", OF traced.start]
      conc_step.call[of "[]" 2 "replicate cap 0" cap "from_slice [1]" "os_new cap" 0] by fastforce
  then have "?R (race_events cap) ([], os_new cap) ([?a, ?b], os_new cap)"
    using traced.event[of "conc_step 2 cap" "[Called (from_slice [1]) (replicate cap 0)]" "([], os_new cap)" "([?a], os_new cap)"]
      conc_step.call[of "[?a]" 2 "replicate cap 0" cap "from_slice [2]" "os_new cap" 0]
    by (simp add: in_flight_def put_begin_def)
  then show ?thesis unfolding budget_race_def by (rule turns_traced)
qed

lemma budget_race_size: "total_size (snd (budget_race cap)) = cap + cap"
  by (simp add: budget_race_def put_turn_def put_step_def put_begin_def put_check_def put_insert_def os_new_def
      total_size_def hm_values_def hm_insert_def)

section \<open>Overlapping calls take effect one at a time\<close>

text \<open>
  The specification of overlapping calls: a call has an outcome once it has taken effect, and it takes
  effect in a single step, which updates the map (accepted) or does not (refused).
\<close>

record call_spec =
  cs_object_id :: ObjectId
  cs_data :: bytes
  cs_outcome :: "bool option"

inductive atomic_step ::
  "store_event option \<Rightarrow> call_spec list \<times> (ObjectId \<rightharpoonup> bytes) \<Rightarrow> call_spec list \<times> (ObjectId \<rightharpoonup> bytes) \<Rightarrow> bool" where
  invoke: "atomic_step (Some (Called oid data)) (cs, m) (cs @ [\<lparr>cs_object_id = oid, cs_data = data, cs_outcome = None\<rparr>], m)"
| commit: "i < length cs \<Longrightarrow> cs_outcome (cs ! i) = None \<Longrightarrow>
    atomic_step None (cs, m) (cs[i := (cs ! i)\<lparr>cs_outcome := Some True\<rparr>], m(cs_object_id (cs ! i) \<mapsto> cs_data (cs ! i)))"
| refuse: "i < length cs \<Longrightarrow> cs_outcome (cs ! i) = None \<Longrightarrow>
    atomic_step None (cs, m) (cs[i := (cs ! i)\<lparr>cs_outcome := Some False\<rparr>], m)"
| remove: "atomic_step (Some (Deleted oid)) (cs, m) (cs, m(oid := None))"
| unreference: "m' \<in> {m, m(oid := None)} \<Longrightarrow> atomic_step (Some (Unreferenced oid)) (cs, m) (cs, m')"

definition call_view :: "put_call \<Rightarrow> call_spec" where
  "call_view c = \<lparr>cs_object_id = pc_object_id c, cs_data = pc_data c,
     cs_outcome = (case pc_at c of PutDone r \<Rightarrow> Some (is_ok r) | _ \<Rightarrow> None)\<rparr>"

definition calls_view :: "put_call list \<times> InMemoryObjectStore \<Rightarrow> call_spec list \<times> (ObjectId \<rightharpoonup> bytes)" where
  "calls_view cs = (map call_view (fst cs), os_view (snd cs))"

lemma turn_atomic:
  assumes "os_inv s"
  shows "atomic_step None (calls_view (calls, s)) (calls_view (put_turn i (calls, s))) \<or>
    calls_view (put_turn i (calls, s)) = calls_view (calls, s)"
proof (cases "i < length calls")
  case i: True
  let ?c = "calls ! i" and ?cs = "map call_view calls"
  have nth: "?cs ! i = call_view ?c" and len: "i < length ?cs" using i by simp_all
  have skip: "call_view c = call_view ?c \<Longrightarrow> map call_view (calls[i := c]) = ?cs" for c
    using i by (simp add: map_update list_update_same_conv)
  show ?thesis
  proof (cases "pc_at ?c")
    case PutInsert
    then show ?thesis
      using i atomic_step.commit[OF len, of "os_view s"]
      by (simp add: calls_view_def put_turn_def put_step_def map_update nth call_view_def)
  next
    case PutRecheck
    then show ?thesis
      using i atomic_step.refuse[OF len, of "os_view s"] skip[of "?c\<lparr>pc_at := PutInsert\<rparr>"]
      by (auto simp: calls_view_def put_turn_def put_step_def map_update nth call_view_def)
  qed (use i assms skip in \<open>auto simp: calls_view_def put_turn_def put_step_def evict_noop call_view_def\<close>)
qed (simp add: put_turn_def)


lemma conc_step_store_inv: "conc_step n limit l c c' \<Longrightarrow> os_inv (snd c) \<Longrightarrow> os_inv (snd c')"
proof (induction rule: conc_step.induct)
  case (turn c i)
  then show ?case
    using put_step_inv[of "snd c" "fst c ! i"] by (auto simp: put_turn_def split: prod.splits)
qed (auto simp: os_delete_inv remove_reference_inv add_reference_inv spill_mark_inv)

lemma remove_reference_view:
  "os_view (snd (remove_reference oid s)) \<in> {os_view s, (os_view s)(oid := None)}"
  by (auto simp: remove_reference_def os_view_def Let_def fun_eq_iff split: option.splits)

lemma conc_event_atomic:
  assumes "conc_step n limit (Some e) c c'"
  shows "atomic_step (Some e) (calls_view c) (calls_view c')"
  using assms
proof (cases rule: conc_step.cases)
  case (call calls data oid s now)
  then show ?thesis
    using atomic_step.invoke[of oid data "map call_view calls" "os_view s"]
    by (simp add: calls_view_def call_view_def put_begin_def)
next
  case (delete oid calls s)
  then show ?thesis using atomic_step.remove[of oid "map call_view calls" "os_view s"] by (simp add: calls_view_def)
next
  case (remove_ref oid calls s)
  then show ?thesis
    using atomic_step.unreference[OF remove_reference_view[of oid s], where cs = "map call_view calls"]
    by (simp add: calls_view_def)
qed

lemma conc_silent_atomic:
  assumes "conc_step n limit None c c'" "os_inv (snd c)"
  shows "atomic_step None (calls_view c) (calls_view c') \<or> calls_view c' = calls_view c"
  using assms(1)
proof (cases rule: conc_step.cases)
  case (turn i)
  then show ?thesis using turn_atomic[OF assms(2), of "fst c" i] by simp
qed (auto simp: calls_view_def)

interpretation puts: refinement "conc_step n limit" atomic_step calls_view "\<lambda>c. os_inv (snd c)" for n limit
  by unfold_locales (auto intro: conc_step_store_inv conc_event_atomic dest: conc_silent_atomic)

section \<open>Properties\<close>

text \<open>
  C11. However \<^verbatim>\<open>put\<close> calls overlap with each other and with deletions and reference counting, with at
  most \<open>n\<close> of them in progress at any moment and objects of at most \<open>limit\<close> bytes, the stored bytes
  exceed the budget by at most \<open>n - 1\<close> objects (so calls that do not overlap never exceed it); and the
  bound is reached: two overlapping calls can fill the budget twice.
\<close>

theorem concurrent_puts_bounded:
  assumes "0 < cap"
  shows "(\<forall>tr calls s. traced (conc_step n limit) tr ([], os_new cap) (calls, s) \<longrightarrow>
       total_size s \<le> cap + (n - 1) * limit \<and> os_inv s)
    \<and> (\<exists>tr calls s. traced (conc_step 2 cap) tr ([], os_new cap) (calls, s) \<and> total_size s = cap + (2 - 1) * cap)"
proof (intro conjI allI impI)
  fix tr calls s assume "traced (conc_step n limit) tr ([], os_new cap) (calls, s)"
  from conc_steps_inv[OF this conc_inv_new assms] show "total_size s \<le> cap + (n - 1) * limit" "os_inv s"
    by (auto simp: conc_inv_def)
next
  obtain calls s where "budget_race cap = (calls, s)" by force
  then show "\<exists>tr calls s. traced (conc_step 2 cap) tr ([], os_new cap) (calls, s) \<and> total_size s = cap + (2 - 1) * cap"
    using budget_race_reachable[of cap] budget_race_size[of cap]
    by (intro exI[of _ "race_events cap"] exI[of _ calls] exI[of _ s]) simp
qed

theorem concurrent_puts_bounded_witness:
  "total_size (snd (budget_race 10)) \<le> 10 + (2 - 1) * 10 \<and> os_inv (snd (budget_race 10))"
proof -
  obtain calls s where "budget_race 10 = (calls, s)" by force
  then show ?thesis using concurrent_puts_bounded[of 10 2 10] budget_race_reachable[of 10]
    by (metis snd_conv zero_less_numeral)
qed

text \<open>
  C12. Overlapping \<^verbatim>\<open>put\<close> calls are linearizable: whatever the interleaving of their lock sections, each
  call takes effect in one atomic step after it began, either by updating the map at its identifier
  and then reporting success, or by changing nothing and then reporting an error; objects disappear
  only by the deletions and releases of references that clients ask for, in the same order.
\<close>

theorem overlapping_puts_linearize:
  assumes "traced (conc_step n limit) events ([], os_new cap) (calls, s)"
  shows "traced atomic_step events ([], Map.empty) (map call_view calls, os_view s)"
proof -
  have "os_inv (snd ([], os_new cap))" by (simp add: os_inv_def os_new_def)
  from puts.abstract_run[OF assms this] show ?thesis by (simp add: calls_view_def os_new_def os_view_def)
qed

theorem overlapping_puts_linearize_witness:
  "traced atomic_step (race_events 10) ([], Map.empty) (map call_view (fst (budget_race 10)), os_view (snd (budget_race 10)))"
proof -
  obtain calls s where "budget_race 10 = (calls, s)" by force
  then show ?thesis using overlapping_puts_linearize[of 2 10 "race_events 10" 10] budget_race_reachable[of 10] by simp
qed

end
