(* ===== verification/Scheduler_Spec.thy ===== *)
theory Scheduler_Spec
  imports Scheduler_Runs Refinement
begin

text \<open>
  An abstract specification of the local scheduler and the proof that the interleaved system
  of \<^verbatim>\<open>crates/ray-raylet/src/scheduler.rs\<close> refines it. Abstractly a task is queued, then running, then
  finished, and starting it takes what it needs from the free resources; queued tasks leave the
  queue unstarted only by a cancellation that a client asked for. Submissions and requests to cancel
  are the events of both systems; everything else is silent. There is no channel, no loop position, no worker pool and no lock: where the event
  loop is in its iteration and how far a background task has come is not visible.
\<close>

section \<open>The specification\<close>

record Spec =
  ss_queued :: "TaskSpec multiset"
  ss_running :: "TaskSpec multiset"
  ss_finished :: "TaskSpec multiset"
  ss_free :: "string \<Rightarrow> int"
  ss_cancels :: "TaskId multiset"

definition needs :: "TaskSpec \<Rightarrow> string \<Rightarrow> int" where
  "needs t = res_units (ts_required_resources t)"

inductive spec_step :: "Spec \<Rightarrow> Spec \<Rightarrow> bool" where
  start: "t \<in># ss_queued a \<Longrightarrow> (\<And>n. needs t n \<le> ss_free a n) \<Longrightarrow>
    spec_step a (a\<lparr>ss_queued := ss_queued a - {#t#}, ss_running := add_mset t (ss_running a),
      ss_free := (\<lambda>n. ss_free a n - needs t n)\<rparr>)"
| finish: "t \<in># ss_running a \<Longrightarrow>
    spec_step a (a\<lparr>ss_running := ss_running a - {#t#}, ss_finished := add_mset t (ss_finished a),
      ss_free := (\<lambda>n. ss_free a n + needs t n)\<rparr>)"
| cancel: "tid \<in># ss_cancels a \<Longrightarrow> dropped \<subseteq># ss_queued a \<Longrightarrow> (\<And>t. t \<in># dropped \<Longrightarrow> ts_task_id t = tid) \<Longrightarrow>
    spec_step a (a\<lparr>ss_queued := ss_queued a - dropped, ss_cancels := ss_cancels a - {#tid#}\<rparr>)"

datatype client_event = Submitted TaskSpec | CancelRequested TaskId

inductive spec_event :: "(TaskSpec \<Rightarrow> bool) \<Rightarrow> client_event option \<Rightarrow> Spec \<Rightarrow> Spec \<Rightarrow> bool" for submits where
  submit: "submits t \<Longrightarrow> spec_event submits (Some (Submitted t)) a (a\<lparr>ss_queued := add_mset t (ss_queued a)\<rparr>)"
| request: "spec_event submits (Some (CancelRequested tid)) a (a\<lparr>ss_cancels := add_mset tid (ss_cancels a)\<rparr>)"
| internal: "spec_step a a' \<Longrightarrow> spec_event submits None a a'"

text \<open>The system with the same events: an accepted send of a submission or of a cancellation; the rest is silent.\<close>

inductive sys_event :: "(TaskSpec \<Rightarrow> bool) \<Rightarrow> client_event option \<Rightarrow> System \<Rightarrow> System \<Rightarrow> bool" for submits where
  submit: "submits t \<Longrightarrow> submit_task t s = (Some (Inr ()), s') \<Longrightarrow> sys_event submits (Some (Submitted t)) s s'"
| request: "cancel_task tid s = (Some (Inr ()), s') \<Longrightarrow> sys_event submits (Some (CancelRequested tid)) s s'"
| query: "sys_event submits None s (snd (get_task_status_send tid ch s))"
| drop_senders: "sys_event submits None s (s\<lparr>sy_senders_dropped := True\<rparr>)"
| loop: "sys_event submits None s (loop_step s)"
| task: "sys_event submits None s (task_step wid pid now i s)"
| store: "os_inv store \<Longrightarrow> sys_event submits None s (s\<lparr>sy_store := store\<rparr>)"
| register: "sys_event submits None s (s\<lparr>sy_executor := ex\<rparr>)"

lemma sys_event_step: "sys_event submits l s s' \<Longrightarrow> sys_step submits s s'"
proof (induction rule: sys_event.induct)
  case (submit t s s')
  then show ?case using sys_step.send[of "SubmitTask t" submits s] by (simp add: submit_task_def)
next
  case (request tid s s')
  then show ?case using sys_step.send[of "CancelTask tid" submits s] by (simp add: cancel_task_def)
next
  case (query s tid ch)
  then show ?case using sys_step.send[of "GetStatus tid ch" submits s] by (simp add: get_task_status_send_def)
qed (auto intro: sys_step.intros)

definition cancel_requests :: "SchedulerCommand list \<Rightarrow> TaskId list" where
  "cancel_requests cmds = List.map_filter (\<lambda>c. case c of CancelTask tid \<Rightarrow> Some tid | _ \<Rightarrow> None) cmds"

lemma cancel_requests_simps [simp]:
  "cancel_requests [] = []"
  "cancel_requests (SubmitTask spec # cmds) = cancel_requests cmds"
  "cancel_requests (CancelTask tid # cmds) = tid # cancel_requests cmds"
  "cancel_requests (GetStatus tid ch # cmds) = cancel_requests cmds"
  "cancel_requests (cmds @ cmds') = cancel_requests cmds @ cancel_requests cmds'"
  by (simp_all add: cancel_requests_def List.map_filter_def)

definition abs_system :: "System \<Rightarrow> Spec" where
  "abs_system s =
     \<lparr>ss_queued = mset (waiting s), ss_running = mset (map d_spec (live_tasks s)),
      ss_finished = mset (map d_spec (filter (\<lambda>d. d_pc d = DDone) (sy_tasks s))),
      ss_free = res_units (rm_available (sy_rm s)), ss_cancels = mset (cancel_requests (sy_channel s))\<rparr>"

section \<open>Simulation\<close>

text \<open>While the drain loop runs, the queue it took is the local of the loop and the pending queue is empty.\<close>

definition sched_inv :: "nat \<Rightarrow> System \<Rightarrow> bool" where
  "sched_inv g s \<longleftrightarrow> sys_accounts g {#} s \<and> (\<forall>todo still. sy_loop s = LoopDrain todo still \<longrightarrow> sy_pending s = [])"

lemma handle_command_loop_pending:
  "sy_loop (begin_drain s) = LoopDrain (sy_pending s) []" "sy_pending (begin_drain s) = []"
  by (simp_all add: begin_drain_def)

lemma loop_step_drain_pending:
  "(\<And>todo still. sy_loop s = LoopDrain todo still \<Longrightarrow> sy_pending s = []) \<Longrightarrow>
   sy_loop (loop_step s) = LoopDrain todo' still' \<Longrightarrow> sy_pending (loop_step s) = []"
  by (auto simp: loop_step_def handle_command_loop_pending Let_def split_beta
      split: loop_pc.splits list.splits if_splits)

lemma sched_inv_step:
  assumes "sched_inv g s" "sys_step (\<lambda>spec. res_grid g (ts_required_resources spec)) s s'"
  shows "sched_inv g s'"
proof -
  have acc: "sys_accounts g {#} s'" using sys_step_accounts[OF assms(2)] assms(1) by (simp add: sched_inv_def)
  have clear: "\<And>todo still. sy_loop s = LoopDrain todo still \<Longrightarrow> sy_pending s = []"
    using assms(1) by (simp add: sched_inv_def)
  have "sy_loop (loop_step s) = LoopDrain todo still \<Longrightarrow> sy_pending (loop_step s) = []" for todo still
    by (rule loop_step_drain_pending[OF clear])
  with assms(2) have "sy_loop s' = LoopDrain todo still \<Longrightarrow> sy_pending s' = []" for todo still
    by cases (auto simp: send_command_def clear split: if_splits)
  with acc show ?thesis by (simp add: sched_inv_def)
qed

text \<open>A successful \<^verbatim>\<open>try_start\<close> of a queued task is the abstract start, once the task has left the queue.\<close>

lemma try_start_simulates:
  assumes "sys_accounts g {#} s" "res_grid g (ts_required_resources spec)" "try_start spec s = (True, s1)"
    and "mset (waiting s') + {#spec#} = mset (waiting s)" "sy_tasks s' = sy_tasks s1" "sy_rm s' = sy_rm s1"
    and "cancel_requests (sy_channel s') = cancel_requests (sy_channel s)"
  shows "spec_step (abs_system s) (abs_system s')"
proof -
  have grid: "res_grid g (rm_available (sy_rm s))" using assms(1) by (simp add: sys_accounts_def rm_accounts_def)
  have cs: "can_satisfy (rm_available (sy_rm s)) (ts_required_resources spec)"
    and s1: "sy_tasks s1 = sy_tasks s @ [\<lparr>d_spec = spec, d_pc = DGet GetRead\<rparr>]"
      "rm_available (sy_rm s1) = res_subtract (rm_available (sy_rm s)) (ts_required_resources spec)"
    using assms(3)
    by (auto simp: try_start_def try_allocate_def Let_def dispatch_task_def set_status_def split: if_splits)
  have q: "mset (waiting s') = mset (waiting s) - {#spec#}" "spec \<in># mset (waiting s)"
    using assms(4) by (metis add_diff_cancel_right', metis union_single_eq_member add_mset_add_single)
  have "abs_system s' = (abs_system s)\<lparr>ss_queued := ss_queued (abs_system s) - {#spec#},
      ss_running := add_mset spec (ss_running (abs_system s)),
      ss_free := (\<lambda>n. ss_free (abs_system s) n - needs spec n)\<rparr>"
    using q(1) assms(5-7) s1 res_units_subtract[OF grid assms(2) cs]
    by (simp add: abs_system_def live_tasks_def needs_def fun_eq_iff)
  moreover have "needs spec n \<le> ss_free (abs_system s) n" for n
    using cs can_satisfy_grid[OF grid assms(2)] by (simp add: abs_system_def needs_def)
  ultimately show ?thesis using spec_step.start[of spec "abs_system s"] q(2) by (simp add: abs_system_def)
qed


lemma abs_system_cong:
  "mset (waiting s') = mset (waiting s) \<Longrightarrow> sy_tasks s' = sy_tasks s \<Longrightarrow> sy_rm s' = sy_rm s \<Longrightarrow>
   cancel_requests (sy_channel s') = cancel_requests (sy_channel s) \<Longrightarrow> abs_system s' = abs_system s"
  by (simp add: abs_system_def live_tasks_def)

lemma cancel_simulates:
  assumes "mset (waiting s) = mset (waiting s') + mset (filter (\<lambda>t. ts_task_id t = tid) ts)"
    and "sy_tasks s' = sy_tasks s" "sy_rm s' = sy_rm s"
    and "cancel_requests (sy_channel s) = tid # cancel_requests (sy_channel s')"
  shows "spec_step (abs_system s) (abs_system s')"
proof -
  let ?d = "mset (filter (\<lambda>t. ts_task_id t = tid) ts)"
  have "mset (waiting s') = mset (waiting s) - ?d" using assms(1) by simp
  then have "abs_system s' = (abs_system s)\<lparr>ss_queued := ss_queued (abs_system s) - ?d,
      ss_cancels := ss_cancels (abs_system s) - {#tid#}\<rparr>"
    using assms(2-4) by (simp add: abs_system_def live_tasks_def)
  moreover have "spec_step (abs_system s) ((abs_system s)\<lparr>ss_queued := ss_queued (abs_system s) - ?d,
      ss_cancels := ss_cancels (abs_system s) - {#tid#}\<rparr>)"
    by (rule spec_step.cancel[where tid = tid]) (auto simp: abs_system_def assms(1,4) simp del: mset_filter)
  ultimately show ?thesis by (simp only:)
qed

lemma submit_simulates:
  assumes "sys_accounts g {#} s" "sy_loop s = LoopRecv" "sy_channel s = SubmitTask spec # rest"
  shows "spec_step (abs_system s) (abs_system (loop_step s)) \<or> abs_system (loop_step s) = abs_system s"
proof -
  let ?s = "s\<lparr>sy_channel := rest\<rparr>"
  have loop: "loop_step s = begin_drain (submit_command spec ?s)" using assms(2,3) by (simp add: loop_step_def)
  have w: "waiting (loop_step s) = sy_pending (submit_command spec ?s) @ submitted rest" and ch: "sy_channel (loop_step s) = rest"
    using handle_command_frame(2)[of "SubmitTask spec" ?s] by (simp_all add: loop waiting_def begin_drain_def)
  have ws: "waiting s = sy_pending s @ spec # submitted rest" using assms(2,3) by (simp add: waiting_def)
  have grid: "res_grid g (ts_required_resources spec)" using assms by (simp add: sys_accounts_def waiting_def)
  obtain started s1 where s1: "try_start spec s = (started, s1)" by force
  have st: "try_start spec ?s = (started, s1\<lparr>sy_channel := rest\<rparr>)"
    using s1 by (auto simp: try_start_def Let_def dispatch_task_def set_status_def split: prod.splits if_splits)
  have frame: "sy_pending s1 = sy_pending s" "started \<or> s1 = s"
    using try_start_frame(1)[of spec s] s1
    by (auto simp: try_start_def try_allocate_def Let_def dispatch_task_def set_status_def split: if_splits)
  show ?thesis
  proof (cases started)
    case True
    have "mset (waiting (loop_step s)) + {#spec#} = mset (waiting s)"
      using st True frame by (simp add: w ws submit_command_def)
    moreover have "sy_tasks (loop_step s) = sy_tasks s1" "sy_rm (loop_step s) = sy_rm s1"
      using st True by (simp_all add: loop begin_drain_def submit_command_def)
    ultimately show ?thesis using try_start_simulates[OF assms(1) grid, of s1] s1 True assms(3) by (simp add: ch)
  next
    case False
    then have "mset (waiting (loop_step s)) = mset (waiting s)"
      "sy_tasks (loop_step s) = sy_tasks s" "sy_rm (loop_step s) = sy_rm s"
      using st frame by (simp_all add: w ws submit_command_def set_status_def) (simp_all add: loop begin_drain_def submit_command_def set_status_def)
    then have "abs_system (loop_step s) = abs_system s" using assms(3) by (intro abs_system_cong) (simp_all add: ch)
    then show ?thesis ..
  qed
qed

lemma recv_simulates:
  assumes "sys_accounts g {#} s" "sy_loop s = LoopRecv" "sy_channel s = cmd # rest"
  shows "spec_step (abs_system s) (abs_system (loop_step s)) \<or> abs_system (loop_step s) = abs_system s"
proof -
  let ?s = "s\<lparr>sy_channel := rest\<rparr>"
  have loop: "loop_step s = begin_drain (handle_command cmd ?s)" using assms(2,3) by (simp add: loop_step_def)
  have w: "waiting (loop_step s) = sy_pending (handle_command cmd ?s) @ submitted rest"
    by (simp add: loop waiting_def begin_drain_def)
  have ws: "waiting s = sy_pending s @ submitted (cmd # rest)" using assms(2,3) by (simp add: waiting_def)
  have ch: "sy_channel (loop_step s) = rest" by (simp add: loop begin_drain_def)
  show ?thesis
  proof (cases cmd)
    case (SubmitTask spec)
    then show ?thesis using submit_simulates assms by blast
  next
    case (CancelTask tid)
    have "mset (filter (\<lambda>t. ts_task_id t \<noteq> tid) ts) + mset (filter (\<lambda>t. ts_task_id t = tid) ts) = mset ts" for ts
      by (induction ts) auto
    from this[of "sy_pending s"] have "mset (waiting s) =
        mset (waiting (loop_step s)) + mset (filter (\<lambda>t. ts_task_id t = tid) (sy_pending s))"
      using CancelTask by (simp add: w ws cancel_command_def ac_simps)
    then have "spec_step (abs_system s) (abs_system (loop_step s))"
      by (rule cancel_simulates) (use CancelTask assms(3) in \<open>simp_all add: loop begin_drain_def cancel_command_def\<close>)
    then show ?thesis ..
  next
    case (GetStatus tid ch)
    then have "abs_system (loop_step s) = abs_system s"
      by (intro abs_system_cong) (simp_all add: w ws ch assms(3), simp_all add: loop begin_drain_def status_command_def)
    then show ?thesis ..
  qed
qed

lemma drain_simulates:
  assumes "sched_inv g s" "sy_loop s = LoopDrain todo still"
  shows "spec_step (abs_system s) (abs_system (loop_step s)) \<or> abs_system (loop_step s) = abs_system s"
proof -
  have acc: "sys_accounts g {#} s" and p: "sy_pending s = []" using assms by (auto simp: sched_inv_def)
  have ws: "waiting s = todo @ still @ submitted (sy_channel s)" using assms(2) p by (simp add: waiting_def)
  show ?thesis
  proof (cases todo)
    case Nil
    then have "abs_system (loop_step s) = abs_system s"
      using assms(2) by (intro abs_system_cong) (simp_all add: ws, simp_all add: loop_step_def waiting_def)
    then show ?thesis ..
  next
    case (Cons spec rest)
    have grid: "res_grid g (ts_required_resources spec)" using acc Cons by (simp add: sys_accounts_def ws)
    obtain started s1 where st: "try_start spec s = (started, s1)" by force
    have s1: "sy_pending s1 = []" "sy_channel s1 = sy_channel s"
      using try_start_frame(1,3)[of spec s] st p by simp_all
    have loop: "loop_step s = s1\<lparr>sy_loop := LoopDrain rest (if started then still else still @ [spec])\<rparr>"
      using assms(2) Cons st by (simp add: loop_step_def)
    show ?thesis
    proof (cases started)
      case True
      have "mset (waiting (loop_step s)) + {#spec#} = mset (waiting s)"
        by (simp add: ws Cons) (simp add: loop True waiting_def s1)
      then show ?thesis using try_start_simulates[OF acc grid, of s1] st True s1 by (simp add: loop)
    next
      case False
      then have "s1 = s" using st by (auto simp: try_start_def try_allocate_def Let_def split: if_splits)
      then have "abs_system (loop_step s) = abs_system s"
        by (intro abs_system_cong) (simp_all add: ws Cons, simp_all add: loop False waiting_def p)
      then show ?thesis ..
    qed
  qed
qed

lemma loop_simulates:
  assumes "sched_inv g s"
  shows "spec_step (abs_system s) (abs_system (loop_step s)) \<or> abs_system (loop_step s) = abs_system s"
proof (cases "sy_loop s")
  case LoopRecv
  show ?thesis
  proof (cases "sy_channel s")
    case Nil
    with LoopRecv have "abs_system (loop_step s) = abs_system s"
      by (intro abs_system_cong) (simp_all add: loop_step_def waiting_def)
    then show ?thesis ..
  qed (use recv_simulates LoopRecv assms in \<open>auto simp: sched_inv_def\<close>)
next
  case (LoopDrain todo still)
  from drain_simulates[OF assms this] show ?thesis .
qed (simp add: loop_step_def)

lemma released_units:
  assumes "sys_accounts g {#} s" "req \<in># held_requests s"
  shows "res_units (res_add (rm_available (sy_rm s)) req) n = res_units (rm_available (sy_rm s)) n + res_units req n"
proof -
  obtain held where held: "held_requests s = add_mset req held" using assms(2) by (meson mset_add)
  have "rm_accounts g (rm_release req (sy_rm s)) held"
    using rm_accounts_release[of g "sy_rm s" "held_requests s" req] assms held by (simp add: sys_accounts_def)
  then have "res_units (res_add (rm_available (sy_rm s)) req) n + held_units held n = res_units (rm_total (sy_rm s)) n"
    by (simp add: rm_accounts_def rm_release_def)
  moreover have "res_units (rm_available (sy_rm s)) n + (res_units req n + held_units held n) = res_units (rm_total (sy_rm s)) n"
    using assms held by (simp add: sys_accounts_def rm_accounts_def)
  ultimately show ?thesis by linarith
qed

lemma task_simulates:
  assumes "sys_accounts g {#} s"
  shows "spec_step (abs_system s) (abs_system (task_step wid pid now i s)) \<or>
    abs_system (task_step wid pid now i s) = abs_system s"
proof (cases "i < length (sy_tasks s)")
  case i: True
  let ?d = "sy_tasks s ! i" and ?s' = "task_step wid pid now i s"
  let ?a = "advance_task wid pid now (d_spec ?d) (d_pc ?d) s"
  have tasks: "sy_tasks ?s' = (sy_tasks s)[i := ?d\<lparr>d_pc := fst ?a\<rparr>]" and rm: "sy_rm ?s' = sy_rm (snd ?a)"
    by (simp_all add: task_step_eq[OF i])
  obtain live where live:
    "mset (map d_spec (live_tasks s)) = (if d_pc ?d \<noteq> DDone then {#d_spec ?d#} else {#}) + live"
    "mset (map d_spec (live_tasks ?s')) = (if fst ?a \<noteq> DDone then {#d_spec ?d#} else {#}) + live"
    using mset_map_filter_update[OF i, of d_spec "\<lambda>d. d_pc d \<noteq> DDone"] by (auto simp: live_tasks_def tasks)
  obtain fin where fin:
    "mset (map d_spec (filter (\<lambda>d. d_pc d = DDone) (sy_tasks s))) = (if d_pc ?d = DDone then {#d_spec ?d#} else {#}) + fin"
    "mset (map d_spec (filter (\<lambda>d. d_pc d = DDone) (sy_tasks ?s'))) = (if fst ?a = DDone then {#d_spec ?d#} else {#}) + fin"
    using mset_map_filter_update[OF i, of d_spec "\<lambda>d. d_pc d = DDone"] by (auto simp: tasks)
  show ?thesis
  proof (cases rule: advance_task_cases[of "d_pc ?d" wid pid now "d_spec ?d" s])
    case release
    let ?req = "ts_required_resources (d_spec ?d)"
    have "?req \<in># held_requests s" using release(1) i by (auto simp: held_requests_def live_tasks_def)
    note released_units[OF assms this]
    then have "abs_system ?s' = (abs_system s)\<lparr>ss_running := ss_running (abs_system s) - {#d_spec ?d#},
        ss_finished := add_mset (d_spec ?d) (ss_finished (abs_system s)),
        ss_free := (\<lambda>n. ss_free (abs_system s) n + needs (d_spec ?d) n)\<rparr>"
      using live fin release rm by (simp add: abs_system_def needs_def rm_release_def fun_eq_iff)
    moreover have "d_spec ?d \<in># ss_running (abs_system s)" using live(1) release(1) by (simp add: abs_system_def)
    ultimately show ?thesis using spec_step.finish[of "d_spec ?d" "abs_system s"] by simp
  next
    case finished
    then show ?thesis using live fin rm by (simp add: abs_system_def)
  next
    case working
    then show ?thesis using live fin rm by (simp add: abs_system_def)
  qed
qed (simp add: task_step_out)

lemma sys_silent_simulates:
  assumes "sched_inv g s" "sys_event submits None s s'"
  shows "spec_event submits None (abs_system s) (abs_system s') \<or> abs_system s' = abs_system s"
  using assms(2)
proof (cases rule: sys_event.cases)
  case (query tid ch)
  then have "abs_system s' = abs_system s"
    by (auto simp: get_task_status_send_def send_command_def waiting_def intro!: abs_system_cong)
  then show ?thesis ..
next
  case loop
  then show ?thesis using loop_simulates[OF assms(1)] by (auto intro: spec_event.internal)
next
  case (task wid pid now i)
  then show ?thesis using task_simulates[of g s wid pid now i] assms(1) by (auto simp: sched_inv_def intro: spec_event.internal)
qed (auto simp: waiting_def intro!: abs_system_cong)

lemma sys_event_simulates:
  assumes "sys_event submits (Some e) s s'"
  shows "spec_event submits (Some e) (abs_system s) (abs_system s')"
  using assms
proof (cases rule: sys_event.cases)
  case (submit t)
  then have "s' = s\<lparr>sy_channel := sy_channel s @ [SubmitTask t]\<rparr>"
    by (auto simp: submit_task_def send_command_def split: if_splits)
  then have "abs_system s' = (abs_system s)\<lparr>ss_queued := add_mset t (ss_queued (abs_system s))\<rparr>"
    by (simp add: abs_system_def waiting_def live_tasks_def)
  then show ?thesis using spec_event.submit[of submits t "abs_system s"] submit by simp
next
  case (request tid)
  then have "s' = s\<lparr>sy_channel := sy_channel s @ [CancelTask tid]\<rparr>"
    by (auto simp: cancel_task_def send_command_def split: if_splits)
  then have "abs_system s' = (abs_system s)\<lparr>ss_cancels := add_mset tid (ss_cancels (abs_system s))\<rparr>"
    by (simp add: abs_system_def waiting_def live_tasks_def)
  then show ?thesis using spec_event.request[of submits tid "abs_system s"] request by simp
qed

interpretation sched: refinement "sys_event (\<lambda>spec. res_grid g (ts_required_resources spec))"
  "spec_event (\<lambda>spec. res_grid g (ts_required_resources spec))" abs_system "sched_inv g" for g
  by unfold_locales
     (auto intro: sched_inv_step sys_event_step sys_event_simulates dest: sys_silent_simulates)

lemma sched_inv_new: "res_grid g tot \<Longrightarrow> sched_inv g (scheduler_new (rm_new tot) ex store pool)"
  using sys_accounts_new[of g tot ex store pool] by (simp add: sched_inv_def scheduler_new_def)

definition spec_init :: "Resources \<Rightarrow> Spec" where
  "spec_init tot = \<lparr>ss_queued = {#}, ss_running = {#}, ss_finished = {#}, ss_free = res_units tot, ss_cancels = {#}\<rparr>"

lemma abs_system_new: "abs_system (scheduler_new (rm_new tot) ex store pool) = spec_init tot"
  by (simp add: abs_system_def scheduler_new_def waiting_def live_tasks_def rm_new_def spec_init_def)

definition spec_balanced :: "Resources \<Rightarrow> Spec \<Rightarrow> bool" where
  "spec_balanced tot a \<longleftrightarrow> (\<forall>n. ss_free a n + (\<Sum>t\<in>#ss_running a. needs t n) = res_units tot n)"

lemma spec_balanced_step: "spec_balanced tot a \<Longrightarrow> spec_event P l a a' \<Longrightarrow> spec_balanced tot a'"
  by (erule spec_event.cases; (erule spec_step.cases)?)
     (auto simp: spec_balanced_def algebra_simps dest!: multi_member_split)

text \<open>Every task the abstract scheduler knows was submitted, as often as it was submitted.\<close>

definition submissions :: "client_event list \<Rightarrow> TaskSpec multiset" where
  "submissions events = mset (List.map_filter (\<lambda>e. case e of Submitted t \<Rightarrow> Some t | _ \<Rightarrow> None) events)"

lemma submissions_snoc [simp]:
  "submissions [] = {#}" "submissions (events @ [Submitted t]) = add_mset t (submissions events)"
  "submissions (events @ [CancelRequested tid]) = submissions events"
  by (simp_all add: submissions_def List.map_filter_def)

definition spec_known :: "Spec \<Rightarrow> TaskSpec multiset" where
  "spec_known a = ss_queued a + ss_running a + ss_finished a"

lemma spec_step_known: "spec_step a a' \<Longrightarrow> spec_known a' \<subseteq># spec_known a"
proof (induction rule: spec_step.induct)
  case (cancel tid a dropped)
  then show ?case by (simp add: spec_known_def subset_mset.add_right_mono)
qed (auto simp: spec_known_def dest!: multi_member_split)

lemma spec_run_known:
  "traced (spec_event P) events a a' \<Longrightarrow> spec_known a \<subseteq># {#} \<Longrightarrow> spec_known a' \<subseteq># submissions events"
proof (induction rule: traced.induct)
  case (silent tr s s' s'')
  from silent.hyps(2) have "spec_step s' s''" by cases
  with spec_step_known silent.IH[OF silent.prems] show ?case by (blast intro: subset_mset.order_trans)
next
  case (event tr s s' l s'')
  from event.hyps(2) event.IH[OF event.prems] show ?case by cases (auto simp: spec_known_def add.assoc)
qed simp

section \<open>Properties\<close>

text \<open>
  C2. The scheduler refines its specification: every interleaving of the event loop, the background
  tasks and the clients is, seen through the abstraction, a run with the same submissions and
  requests to cancel in the same order, in which each task is started only when its request fits
  what is free and finished once, giving back what it took, and leaves the queue unstarted only by a
  cancellation that was requested; no task is invented or started twice; and what is free plus what
  the running tasks need is the node's total.
\<close>

theorem scheduler_refines_spec:
  assumes "res_grid g tot"
    and "traced (sys_event (\<lambda>spec. res_grid g (ts_required_resources spec))) events (scheduler_new (rm_new tot) ex store pool) s"
  shows "traced (spec_event (\<lambda>spec. res_grid g (ts_required_resources spec))) events (spec_init tot) (abs_system s)
    \<and> spec_known (abs_system s) \<subseteq># submissions events \<and> spec_balanced tot (abs_system s)"
proof -
  note inv = sched_inv_new[OF assms(1), of ex store pool]
  have run: "traced (spec_event (\<lambda>spec. res_grid g (ts_required_resources spec))) events (spec_init tot) (abs_system s)"
    using sched.abstract_run[OF assms(2) inv] by (simp add: abs_system_new)
  moreover have "spec_known (abs_system s) \<subseteq># submissions events"
    by (rule spec_run_known[OF run]) (simp add: spec_known_def spec_init_def)
  moreover have "spec_balanced tot (abs_system s)"
    by (rule traced_invariant[OF run]) (auto simp: spec_init_def intro: spec_balanced_step, simp add: spec_balanced_def)
  ultimately show ?thesis by blast
qed

theorem scheduler_refines_spec_witness:
  "let t = cpu_task 1 1 []; s = loop_step (snd (send_command (SubmitTask t) (cpu_system 4)))
   in traced (spec_event (\<lambda>spec. res_grid 1074 (ts_required_resources spec))) [Submitted t]
        (spec_init (res_set resources_new ''CPU'' (f64_of_nat 4))) (abs_system s)
      \<and> ss_running (abs_system s) = {#t#}"
  unfolding Let_def
proof
  let ?P = "\<lambda>spec. res_grid 1074 (ts_required_resources spec)"
  let ?tot = "res_set resources_new ''CPU'' (f64_of_nat 4)" and ?t = "cpu_task 1 1 []"
  let ?s1 = "snd (send_command (SubmitTask ?t) (cpu_system 4))"
  have "submit_task ?t (cpu_system 4) = (Some (Inr ()), ?s1)"
    by (simp add: submit_task_def send_command_def cpu_system_def scheduler_new_def)
  then have "sys_event ?P (Some (Submitted ?t)) (cpu_system 4) ?s1" by (intro sys_event.submit) (simp add: cpu_task_def)
  then have "traced (sys_event ?P) [Submitted ?t] (cpu_system 4) ?s1"
    using traced.event[of "sys_event ?P" "[]" "cpu_system 4" "cpu_system 4", OF traced.start] by simp
  then have run: "traced (sys_event ?P) [Submitted ?t] (cpu_system 4) (loop_step ?s1)"
    by (rule traced.silent) (rule sys_event.loop)
  show "traced (spec_event ?P) [Submitted ?t] (spec_init ?tot) (abs_system (loop_step ?s1))"
    using scheduler_refines_spec[of 1074 ?tot, OF _ run[unfolded cpu_system_def]] by (simp add: cpu_system_def)
  have "loop_step ?s1 = ?s1\<lparr>sy_channel := [], sy_statuses := hm_insert (ts_task_id ?t) TS_Running (sy_statuses ?s1),
     sy_rm := snd (try_allocate (ts_required_resources ?t) (sy_rm ?s1)),
     sy_tasks := sy_tasks ?s1 @ [\<lparr>d_spec = ?t, d_pc = DGet GetRead\<rparr>],
     sy_loop := LoopDrain (sy_pending ?s1) [], sy_pending := []\<rparr>"
    by (rule loop_step_submit)
       (simp_all add: cpu_system_def scheduler_new_def send_command_def rm_new_def cpu_task_def f64_of_nat_cmp)
  then show "ss_running (abs_system (loop_step ?s1)) = {#?t#}"
    by (simp add: abs_system_def live_tasks_def) (simp add: cpu_system_def scheduler_new_def send_command_def)
qed

section \<open>The code without interference\<close>

lemma try_start_loop: "try_start spec (s\<lparr>sy_loop := l\<rparr>) = map_prod id (\<lambda>s. s\<lparr>sy_loop := l\<rparr>) (try_start spec s)"
  by (simp add: try_start_def Let_def dispatch_task_def set_status_def split_beta)

lemma drain_loop: "drain todo (s\<lparr>sy_loop := l\<rparr>) = map_prod id (\<lambda>s. s\<lparr>sy_loop := l\<rparr>) (drain todo s)"
proof (induction todo arbitrary: s)
  case (Cons spec rest)
  then show ?case by (simp add: try_start_loop split_beta)
qed simp

lemma drain_loop_keeps: "sy_loop (snd (drain todo s)) = sy_loop s"
proof (induction todo arbitrary: s)
  case (Cons spec rest)
  then show ?case by (simp add: split_beta)
qed simp

lemma drain_steps:
  assumes "sy_loop s = LoopDrain todo still" "sy_pending s = []"
  shows "(loop_step ^^ Suc (length todo)) s =
    (case drain todo s of (kept, s') \<Rightarrow> s'\<lparr>sy_pending := still @ kept, sy_loop := LoopRecv\<rparr>)"
  using assms
proof (induction todo arbitrary: s still)
  case Nil
  then show ?case by (simp add: loop_step_def)
next
  case (Cons spec rest)
  obtain started s1 where st: "try_start spec s = (started, s1)" by force
  let ?still = "if started then still else still @ [spec]"
  let ?s1 = "s1\<lparr>sy_loop := LoopDrain rest ?still\<rparr>"
  have step: "loop_step s = ?s1" using Cons.prems st by (simp add: loop_step_def)
  have p: "sy_pending ?s1 = []" using try_start_frame(1)[of spec s] st Cons.prems by simp
  have "(loop_step ^^ Suc (length (spec # rest))) s = (loop_step ^^ Suc (length rest)) ?s1"
    by (simp add: funpow_swap1 step)
  also have "\<dots> = (case drain rest ?s1 of (kept, s') \<Rightarrow> s'\<lparr>sy_pending := ?still @ kept, sy_loop := LoopRecv\<rparr>)"
    using Cons.IH[of ?s1 ?still] p by simp
  also have "\<dots> = (case drain rest s1 of (kept, s') \<Rightarrow> s'\<lparr>sy_pending := ?still @ kept, sy_loop := LoopRecv\<rparr>)"
    by (simp add: drain_loop split_beta)
  finally show ?case by (simp add: st split_beta)
qed


lemma iteration_steps:
  assumes "sy_loop s = LoopRecv" "sy_channel s = cmd # rest"
  shows "(loop_step ^^ Suc (Suc (length (sy_pending (handle_command cmd (s\<lparr>sy_channel := rest\<rparr>)))))) s =
    loop_iteration cmd (s\<lparr>sy_channel := rest\<rparr>)"
proof -
  let ?h = "handle_command cmd (s\<lparr>sy_channel := rest\<rparr>)"
  have first: "loop_step s = begin_drain ?h" using assms(1,2) by (simp add: loop_step_def)
  have l: "sy_loop ?h = LoopRecv" using assms(1) by simp
  have "(loop_step ^^ Suc (Suc (length (sy_pending ?h)))) s = (loop_step ^^ Suc (length (sy_pending ?h))) (begin_drain ?h)"
    by (simp add: funpow_swap1 first)
  also have "\<dots> = (case drain (sy_pending ?h) (begin_drain ?h) of (kept, s') \<Rightarrow> s'\<lparr>sy_pending := kept, sy_loop := LoopRecv\<rparr>)"
    by (subst drain_steps[where still = "[]"]) (simp_all add: begin_drain_def)
  also have "\<dots> = loop_iteration cmd (s\<lparr>sy_channel := rest\<rparr>)"
  proof -
    let ?q = "?h\<lparr>sy_pending := []\<rparr>"
    obtain kept s' where d: "drain (sy_pending ?h) ?q = (kept, s')" by force
    have "begin_drain ?h = ?q\<lparr>sy_loop := LoopDrain (sy_pending ?h) []\<rparr>" by (simp add: begin_drain_def)
    moreover have "sy_loop s' = LoopRecv" using drain_loop_keeps[of "sy_pending ?h" ?q] d l by simp
    then have "s'\<lparr>sy_pending := kept, sy_loop := LoopRecv\<rparr> = s'\<lparr>sy_pending := kept\<rparr>" by (cases s') simp
    ultimately show ?thesis by (simp add: loop_iteration_def d drain_loop)
  qed
  finally show ?thesis .
qed




end
