(* ===== verification/System_Invariants.thy ===== *)
theory System_Invariants
  imports Scheduler_Runs
begin

text \<open>
  What is true of every reachable state of a node, whatever the clients submit: the tables have
  unique keys, every resource quantity is a representable double, the channel is bounded, the
  object store is consistent and the worker pool is within its capacity. The pool's part is
  inherited from the pool's own step relation, since the scheduler only takes steps of it.
\<close>

section \<open>Resource quantities\<close>

definition res_wf :: "Resources \<Rightarrow> bool" where
  "res_wf r \<longleftrightarrow> hm_ok (res_map r) \<and> (\<forall>n q. hm_get (res_map r) n = Some q \<longrightarrow> f64_wf q)"

lemma subtract_loop_wf:
  "hm_ok m \<Longrightarrow> \<forall>n q. hm_get m n = Some q \<longrightarrow> f64_wf q \<Longrightarrow>
   hm_ok (subtract_loop m rs) \<and> (\<forall>n q. hm_get (subtract_loop m rs) n = Some q \<longrightarrow> f64_wf q)"
proof (induction m rs rule: subtract_loop.induct)
  case (2 m name qty rest)
  have "hm_ok (subtract_entry m name qty)" using 2(2) by (simp add: subtract_entry_def Let_def)
  moreover have "\<forall>n q. hm_get (subtract_entry m name qty) n = Some q \<longrightarrow> f64_wf q"
    using 2(3) by (auto simp: subtract_entry_def Let_def)
  ultimately show ?case using "2.IH" by simp
qed simp

lemma add_loop_wf:
  "hm_ok m \<Longrightarrow> \<forall>n q. hm_get m n = Some q \<longrightarrow> f64_wf q \<Longrightarrow>
   hm_ok (add_loop m rs) \<and> (\<forall>n q. hm_get (add_loop m rs) n = Some q \<longrightarrow> f64_wf q)"
proof (induction m rs rule: add_loop.induct)
  case (2 m name qty rest)
  have "hm_ok (add_entry m name qty)" using 2(2) by (simp add: add_entry_def Let_def)
  moreover have "\<forall>n q. hm_get (add_entry m name qty) n = Some q \<longrightarrow> f64_wf q"
    using 2(3) by (auto simp: add_entry_def Let_def)
  ultimately show ?case using "2.IH" by simp
qed simp

lemma res_wf_ops [ray_inv]:
  "res_wf r \<Longrightarrow> res_wf (res_subtract r req)" "res_wf r \<Longrightarrow> res_wf (res_add r req)"
  using subtract_loop_wf[of "res_map r" "res_map req"] add_loop_wf[of "res_map r" "res_map req"]
  by (simp_all add: res_wf_def res_subtract_def res_add_def)

lemma rm_wf_ops [ray_inv]:
  "res_wf (rm_available rm) \<Longrightarrow> res_wf (rm_available (snd (try_allocate req rm)))"
  "res_wf (rm_available rm) \<Longrightarrow> res_wf (rm_available (rm_release req rm))"
  by (simp_all add: try_allocate_def rm_release_def ray_inv)

section \<open>The scheduler\<close>

text \<open>What is true of every state: unique keys, representable quantities, a bounded channel.\<close>

definition sys_wf :: "System \<Rightarrow> bool" where
  "sys_wf s \<longleftrightarrow> hm_ok (sy_statuses s) \<and> res_wf (rm_available (sy_rm s)) \<and> length (sy_channel s) \<le> 4096"

lemma try_start_wf [ray_inv]: "sys_wf s \<Longrightarrow> sys_wf (snd (try_start spec s))"
  using rm_wf_ops(1)[of "sy_rm s" "ts_required_resources spec"]
  by (simp add: sys_wf_def try_start_def Let_def dispatch_task_def set_status_def split_beta)

lemma handle_command_wf [ray_inv]: "sys_wf s \<Longrightarrow> sys_wf (handle_command cmd s)"
proof (cases cmd)
  case (SubmitTask spec)
  assume "sys_wf s"
  from try_start_wf[OF this, of spec] SubmitTask show ?thesis
    by (simp add: submit_command_def Let_def split_beta set_status_def sys_wf_def)
qed (simp_all add: sys_wf_def cancel_command_def status_command_def)

lemma loop_step_wf: "sys_wf s \<Longrightarrow> sys_wf (loop_step s)"
proof -
  assume wf: "sys_wf s"
  have "sys_wf (s\<lparr>sy_channel := rest\<rparr>)" if "sy_channel s = cmd # rest" for cmd rest
    using wf that by (simp add: sys_wf_def)
  from handle_command_wf[OF this] try_start_wf[OF wf] wf show ?thesis
    by (auto simp: loop_step_def begin_drain_def Let_def split_beta sys_wf_def split: loop_pc.split list.split)
qed

lemma task_step_wf: "sys_wf s \<Longrightarrow> sys_wf (task_step wid pid now i s)"
proof (cases "i < length (sy_tasks s)")
  case True
  assume wf: "sys_wf s"
  let ?d = "sy_tasks s ! i"
  have "res_wf (rm_available (sy_rm (snd (advance_task wid pid now (d_spec ?d) (d_pc ?d) s))))"
    using wf rm_wf_ops(2)[of "sy_rm s" "ts_required_resources (d_spec ?d)"]
    by (cases rule: advance_task_cases[of "d_pc ?d" wid pid now "d_spec ?d" s]) (simp_all add: sys_wf_def)
  with wf True show ?thesis by (simp add: sys_wf_def) (simp add: task_step_eq)
qed (simp add: task_step_out)

lemma sys_step_wf: "sys_step P s s' \<Longrightarrow> sys_wf s \<Longrightarrow> sys_wf s'"
proof (induction rule: sys_step.induct)
  case (loop s)
  then show ?case by (rule loop_step_wf)
next
  case (task s wid pid now i)
  then show ?case by (rule task_step_wf)
qed (auto simp: send_command_def sys_wf_def)

lemma sys_steps_wf: "(sys_step P)\<^sup>*\<^sup>* s s' \<Longrightarrow> sys_wf s \<Longrightarrow> sys_wf s'"
  by (induction rule: rtranclp_induct) (auto intro: sys_step_wf)

text \<open>The scheduler uses the worker pool through the pool's own steps only.\<close>

lemma advance_task_pool:
  "sy_pool (snd (advance_task wid pid now spec pc s)) = sy_pool s \<or>
   wp_step (sy_pool s) (sy_pool (snd (advance_task wid pid now spec pc s)))"
  by (auto simp: advance_task_def Let_def split_beta wp_step.get wp_step.ret simp del: get_step.simps ret_step.simps
      split: dispatch_pc.splits get_pc.splits put_pc.splits ret_pc.splits)

lemma loop_step_pool [simp]: "sy_pool (loop_step s) = sy_pool s"
  by (auto simp: loop_step_def begin_drain_def Let_def split_beta split: loop_pc.split list.split)

lemma sys_step_pool: "sys_step P s s' \<Longrightarrow> sy_pool s' = sy_pool s \<or> wp_step (sy_pool s) (sy_pool s')"
proof (induction rule: sys_step.induct)
  case (task s wid pid now i)
  then show ?case
    using advance_task_pool[of wid pid now "d_spec (sy_tasks s ! i)" "d_pc (sy_tasks s ! i)" s]
    by (cases "i < length (sy_tasks s)") (simp_all add: task_step_eq task_step_out)
qed (auto simp: send_command_def)

lemma sys_steps_pool: "(sys_step P)\<^sup>*\<^sup>* s s' \<Longrightarrow> wp_step\<^sup>*\<^sup>* (sy_pool s) (sy_pool s')"
  by (induction rule: rtranclp_induct) (auto dest: sys_step_pool intro: rtranclp.rtrancl_into_rtrancl)

section \<open>Properties\<close>

text \<open>
  C10. Every reachable state of a node is well formed, for arbitrary requests (NaN and infinities
  included): statuses and resources have unique keys, available quantities are representable
  doubles, at most 4096 commands wait in the channel, the object store is consistent, and the pool
  holds at most its capacity of pairwise distinct, allocated workers.
\<close>

theorem system_well_formed:
  assumes "res_wf tot" "os_inv store" "(sys_step P)\<^sup>*\<^sup>* (scheduler_new (rm_new tot) ex store (wp_new n)) s"
  shows "sys_wf s \<and> os_inv (sy_store s) \<and> total_count (sy_pool s) \<le> n \<and> distinct (wp_workers (sy_pool s))
    \<and> (\<forall>a\<in>set (wp_workers (sy_pool s)). a < length (wp_heap (sy_pool s)))"
proof -
  have "sys_wf (scheduler_new (rm_new tot) ex store (wp_new n))"
    using assms(1) by (simp add: sys_wf_def scheduler_new_def rm_new_def)
  then have "sys_wf s" by (rule sys_steps_wf[OF assms(3)])
  moreover have "wp_step\<^sup>*\<^sup>* (wp_new n) (sy_pool s)"
    using sys_steps_pool[OF assms(3)] by (simp add: scheduler_new_def)
  from wp_steps_inv[OF this wp_inv_new] have "total_count (sy_pool s) \<le> n" "distinct (wp_workers (sy_pool s))"
    "\<forall>a\<in>set (wp_workers (sy_pool s)). a < length (wp_heap (sy_pool s))"
    by (auto simp: wp_inv_def total_count_def list_all_iff wp_new_def)
  moreover have "os_inv (sy_store s)"
    by (rule locks_okD(2)[OF sys_steps_locks[OF assms(3) locks_ok_new[OF assms(2)]]])
  ultimately show ?thesis by blast
qed

theorem system_well_formed_witness:
  "sys_wf (loop_step (snd (send_command (SubmitTask (cpu_task 1 1 [])) (cpu_system 4))))"
proof -
  let ?s = "snd (send_command (SubmitTask (cpu_task 1 1 [])) (cpu_system 4))"
  have "sys_step (\<lambda>_. True) (cpu_system 4) ?s" by (rule sys_step.send) simp
  then have "(sys_step (\<lambda>_. True))\<^sup>*\<^sup>* (cpu_system 4) (loop_step ?s)"
    by (meson sys_step.loop rtranclp.rtrancl_into_rtrancl rtranclp.rtrancl_refl)
  moreover have "res_wf (res_set resources_new ''CPU'' (f64_of_nat 4))"
    by (simp add: res_wf_def res_set_def resources_new_def f64_of_nat_def)
  moreover have "os_inv (os_new 0)" by (simp add: os_inv_def os_new_def)
  ultimately show ?thesis using system_well_formed by (metis cpu_system_def)
qed

end
