(* ===== verification/Task_Results.thy ===== *)
theory Task_Results
  imports Local_Runtime
begin

text \<open>
  Tasks that run at the same time. \<open>node_step\<close> is what a node does on its own: a step of the event
  loop of \<^verbatim>\<open>crates/ray-raylet/src/scheduler.rs\<close> or of any background task, in any order. The
  invariant \<open>node_inv\<close> says what the object store holds while tasks that store under different
  identifiers are at different points of their code; \<open>settled_results\<close> is what it says once all of
  them have ended: the store is a function of the tasks that ran, not of the order of their steps.
\<close>

section \<open>Steps of the node alone\<close>

inductive node_step :: "System \<Rightarrow> System \<Rightarrow> bool" where
  loop: "node_step s (loop_step s)"
| task: "node_step s (task_step wid pid now i s)"

lemma node_sys_steps: "node_step\<^sup>*\<^sup>* s s' \<Longrightarrow> (sys_step P)\<^sup>*\<^sup>* s s'"
proof (induction rule: rtranclp_induct)
  case (step s1 s2)
  from step.hyps(2) have "sys_step P s1 s2" by cases (auto intro: sys_step.intros)
  with step.IH show ?case by simp
qed simp

section \<open>The results of interleaved tasks\<close>

definition result_entry :: "TaskExecutor \<Rightarrow> TaskSpec \<Rightarrow> (ObjectId \<times> bytes) option" where
  "result_entry ex spec =
     (case (ts_return_ids spec, execute ex spec) of (r # _, Inr data) \<Rightarrow> Some (r, data) | _ \<Rightarrow> None)"

definition past_put :: "dispatch_pc \<Rightarrow> bool" where
  "past_put pc =
     (case pc of DGet _ \<Rightarrow> False | DExecute _ \<Rightarrow> False | DPut _ c \<Rightarrow> pc_at c = PutDone (Inr ()) | _ \<Rightarrow> True)"

definition delivered :: "TaskExecutor \<Rightarrow> dispatch \<Rightarrow> (ObjectId \<times> bytes) option" where
  "delivered ex d = (if past_put (d_pc d) then result_entry ex (d_spec d) else None)"

definition put_ready :: "TaskExecutor \<Rightarrow> dispatch \<Rightarrow> bool" where
  "put_ready ex d =
     (case d_pc d of
        DPut _ c \<Rightarrow> result_entry ex (d_spec d) = Some (pc_object_id c, pc_data c)
          \<and> pc_at c \<in> {PutStart, PutInsert, PutDone (Inr ())}
      | _ \<Rightarrow> True)"

text \<open>
  The bytes that tasks will store, those that a dispatched task still has to store, and a store that
  has room for so many bytes more.
\<close>

definition result_size :: "TaskExecutor \<Rightarrow> TaskSpec \<Rightarrow> nat" where
  "result_size ex spec = (case result_entry ex spec of Some (oid, data) \<Rightarrow> length data | None \<Rightarrow> 0)"

definition demand :: "TaskExecutor \<Rightarrow> TaskSpec list \<Rightarrow> nat" where
  "demand ex specs = sum_list (map (result_size ex) specs)"

definition owed :: "TaskExecutor \<Rightarrow> dispatch \<Rightarrow> nat" where
  "owed ex d = (if past_put (d_pc d) then 0 else result_size ex (d_spec d))"

definition room_for :: "nat \<Rightarrow> InMemoryObjectStore \<Rightarrow> bool" where
  "room_for n store \<longleftrightarrow> os_max_memory_bytes store = 0 \<or> total_size store + n \<le> os_max_memory_bytes store"

text \<open>
  The results of the tasks \<open>ds\<close>, on a store that held \<open>before\<close> when they began, with room for what
  they still have to store and for \<open>n\<close> more bytes.
\<close>

definition results_inv ::
  "TaskExecutor \<Rightarrow> (ObjectId \<rightharpoonup> bytes) \<Rightarrow> nat \<Rightarrow> dispatch list \<Rightarrow> InMemoryObjectStore \<Rightarrow> bool" where
  "results_inv ex before n ds store \<longleftrightarrow>
     os_inv store \<and> room_for (n + sum_list (map (owed ex) ds)) store \<and> (\<forall>d\<in>set ds. put_ready ex d) \<and>
     (\<forall>d\<in>set ds. \<forall>oid data. delivered ex d = Some (oid, data) \<longrightarrow> os_view store oid = Some data) \<and>
     (\<forall>oid. (\<forall>d\<in>set ds. \<forall>data. delivered ex d \<noteq> Some (oid, data)) \<longrightarrow> os_view store oid = before oid)"

text \<open>The identifiers under which tasks store: the first return identifier of each.\<close>

definition return_keys :: "TaskSpec list \<Rightarrow> ObjectId list" where
  "return_keys specs = concat (map (\<lambda>t. take 1 (ts_return_ids t)) specs)"

lemma return_keys_simps [simp]:
  "return_keys [] = []" "return_keys (t # ts) = take 1 (ts_return_ids t) @ return_keys ts"
  "return_keys (ts @ ts') = return_keys ts @ return_keys ts'"
  by (simp_all add: return_keys_def)

lemma result_entry_key: "result_entry ex t = Some (oid, data) \<Longrightarrow> oid \<in> set (take 1 (ts_return_ids t))"
  by (auto simp: result_entry_def split: list.splits sum.splits)

lemma distinct_concat_nth:
  assumes "distinct (concat (map f xs))" "i < length xs" "j < length xs" "x \<in> set (f (xs ! i))" "x \<in> set (f (xs ! j))"
  shows "i = j"
proof -
  have no: False if "i < j" "j < length xs" "x \<in> set (f (xs ! i))" "x \<in> set (f (xs ! j))" for i j
  proof -
    have "xs = take j xs @ xs ! j # drop (Suc j) xs" using that(2) by (simp add: id_take_nth_drop)
    then have "distinct (concat (map f (take j xs @ xs ! j # drop (Suc j) xs)))" using assms(1) by simp
    then have "set (concat (map f (take j xs))) \<inter> set (f (xs ! j)) = {}" by auto
    moreover have "xs ! i \<in> set (take j xs)" using that(1,2) by (auto simp: in_set_conv_nth intro!: exI[of _ i])
    ultimately show False using that(3,4) by auto
  qed
  show ?thesis using no[of i j] no[of j i] assms by (cases i j rule: linorder_cases) auto
qed

lemma return_keys_mono: "mset xs \<subseteq># mset ys \<Longrightarrow> distinct (return_keys ys) \<Longrightarrow> distinct (return_keys xs)"
proof -
  let ?f = "\<lambda>t. mset (take 1 (ts_return_ids t))"
  have eq: "mset (return_keys xs) = (\<Sum>t\<in>#mset xs. ?f t)" for xs
    by (induction xs) simp_all
  assume "mset xs \<subseteq># mset ys" "distinct (return_keys ys)"
  moreover then obtain zs where "mset ys = mset (xs @ zs)" by (metis mset_append ex_mset subset_mset.add_diff_inverse)
  then have "mset (return_keys ys) = mset (return_keys (xs @ zs))" by (simp only: eq)
  ultimately show ?thesis using mset_eq_imp_distinct_iff by fastforce
qed


lemma demand_mono: "mset xs \<subseteq># mset ys \<Longrightarrow> demand ex xs \<le> demand ex ys"
proof -
  assume "mset xs \<subseteq># mset ys"
  then obtain zs where "mset ys = mset (xs @ zs)" by (metis mset_append ex_mset subset_mset.add_diff_inverse)
  then have "mset (map (result_size ex) ys) = mset (map (result_size ex) (xs @ zs))" by (metis mset_map)
  then have "demand ex ys = demand ex (xs @ zs)" unfolding demand_def by (metis sum_mset_sum_list)
  then show ?thesis by (simp add: demand_def)
qed

lemma room_for_mono: "room_for n store \<Longrightarrow> m \<le> n \<Longrightarrow> room_for m store"
  by (auto simp: room_for_def)

lemma room_update:
  assumes "room_for (n + sum_list (map (owed ex) ds)) store" "i < length ds"
    and "total_size store' + owed ex d' \<le> total_size store + owed ex (ds ! i)"
    and "os_max_memory_bytes store' = os_max_memory_bytes store"
  shows "room_for (n + sum_list (map (owed ex) (ds[i := d']))) store'"
proof -
  have "sum_list (map (owed ex) (ds[i := d'])) + owed ex (ds ! i) = sum_list (map (owed ex) ds) + owed ex d'"
    using assms(2) elem_le_sum_list[of i "map (owed ex) ds"] by (simp add: map_update sum_list_update)
  then show ?thesis using assms(1,3,4) unfolding room_for_def by linarith
qed

lemma results_inv_same:
  assumes "results_inv ex before n ds store" "i < length ds" "delivered ex d' = delivered ex (ds ! i)"
    and "put_ready ex d'" "os_view store' = os_view store" "os_inv store'"
    and "room_for (n + sum_list (map (owed ex) (ds[i := d']))) store'"
  shows "results_inv ex before n (ds[i := d']) store'"
proof -
  have new_old: "\<exists>e\<in>set ds. delivered ex e = delivered ex d" if "d \<in> set (ds[i := d'])" for d
    using that assms(2,3) set_update_subset_insert[of ds i d'] by (metis insertE nth_mem subsetD)
  have old_new: "\<exists>e\<in>set (ds[i := d']). delivered ex e = delivered ex d" if d: "d \<in> set ds" for d
  proof -
    obtain j where "j < length ds" "d = ds ! j" using d by (auto simp: in_set_conv_nth)
    moreover then have "ds[i := d'] ! j \<in> set (ds[i := d'])" by simp
    ultimately show ?thesis using assms(2,3) by (intro bexI[of _ "ds[i := d'] ! j"]) (simp_all add: nth_list_update)
  qed
  have "\<forall>d\<in>set (ds[i := d']). put_ready ex d"
    using assms(1,4) set_update_subset_insert[of ds i d'] by (auto simp: results_inv_def)
  then show ?thesis
    using assms(1,5-7) new_old old_new unfolding results_inv_def by metis
qed

lemma delivered_key: "delivered ex d = Some (oid, data) \<Longrightarrow> oid \<in> set (take 1 (ts_return_ids (d_spec d)))"
  by (auto simp: delivered_def split: if_splits dest: result_entry_key)

lemma delivered_distinct:
  assumes "distinct (return_keys (map d_spec ds))" "i < length ds" "j < length ds" "j \<noteq> i"
    and "oid \<in> set (take 1 (ts_return_ids (d_spec (ds ! i))))" "delivered ex (ds ! j) = Some (oid', data)"
  shows "oid' \<noteq> oid"
  using distinct_concat_nth[of "\<lambda>d. take 1 (ts_return_ids (d_spec d))" ds i j oid] assms delivered_key[OF assms(6)]
  by (auto simp: return_keys_def comp_def)

lemma results_inv_put:
  assumes "results_inv ex before n ds store" "i < length ds" "d_spec d' = d_spec (ds ! i)"
    and "delivered ex (ds ! i) = None" "delivered ex d' = Some (oid, data)" "put_ready ex d'"
    and "os_view store' = (os_view store)(oid \<mapsto> data)" "os_inv store'"
    and "distinct (return_keys (map d_spec ds))"
    and "room_for (n + sum_list (map (owed ex) (ds[i := d']))) store'"
  shows "results_inv ex before n (ds[i := d']) store'"
proof -
  have key: "oid \<in> set (take 1 (ts_return_ids (d_spec (ds ! i))))" using assms(3) delivered_key[OF assms(5)] by simp
  have view: "os_view store' oid' = Some data'"
    if d: "d \<in> set (ds[i := d'])" "delivered ex d = Some (oid', data')" for d oid' data'
  proof -
    obtain j where j: "j < length ds" "d = ds[i := d'] ! j" using d(1) by (auto simp: in_set_conv_nth)
    show ?thesis
    proof (cases "j = i")
      case True
      then show ?thesis using d(2) j assms(5,7) by simp
    next
      case False
      then have dj: "delivered ex (ds ! j) = Some (oid', data')" using d(2) j by simp
      moreover have "ds ! j \<in> set ds" using j(1) by simp
      ultimately have "os_view store oid' = Some data'" using assms(1) unfolding results_inv_def by blast
      then show ?thesis using delivered_distinct[OF assms(9,2) j(1) False key dj] assms(7) by simp
    qed
  qed
  have rest: "os_view store' oid' = before oid'"
    if "\<forall>d\<in>set (ds[i := d']). \<forall>data. delivered ex d \<noteq> Some (oid', data)" for oid'
  proof -
    have "d' \<in> set (ds[i := d'])" using assms(2) by (simp add: set_update_memI)
    then have ne: "oid' \<noteq> oid" using that assms(5) by auto
    have "delivered ex d \<noteq> Some (oid', data)" if "d \<in> set ds" for d data
    proof -
      obtain j where "j < length ds" "d = ds ! j" using \<open>d \<in> set ds\<close> by (auto simp: in_set_conv_nth)
      moreover have "j \<noteq> i \<Longrightarrow> ds ! j \<in> set (ds[i := d'])" using calculation(1) by (metis nth_list_update_neq length_list_update nth_mem)
      ultimately show ?thesis using \<open>\<forall>d\<in>set (ds[i := d']). _ d\<close> assms(4) by (cases "j = i") auto
    qed
    then have "os_view store oid' = before oid'" using assms(1) by (auto simp: results_inv_def)
    then show ?thesis using ne assms(7) by simp
  qed
  have "\<forall>d\<in>set (ds[i := d']). put_ready ex d"
    using assms(1,6) set_update_subset_insert[of ds i d'] by (auto simp: results_inv_def)
  then show ?thesis using view rest assms(1,8,10) by (auto simp: results_inv_def)
qed

lemma finish_with_past [simp]: "past_put (finish_with w)" "\<not> (\<exists>v c. finish_with w = DPut v c)"
  by (auto simp: finish_with_def past_put_def split: option.splits)

lemma finish_with_ready [simp]: "d_pc d = finish_with w \<Longrightarrow> put_ready ex d"
  by (auto simp: put_ready_def finish_with_def split: option.splits)

text \<open>
  One step of a task: its result was delivered before or after it, or the step stores it; and what is stored plus what is
  owed does not grow.
\<close>

definition result_step :: "dispatch \<Rightarrow> System \<Rightarrow> dispatch_pc \<times> System \<Rightarrow> bool" where
  "result_step d s r \<longleftrightarrow>
     (let ex = sy_executor s; d' = d\<lparr>d_pc := fst r\<rparr>; store = sy_store s; store' = sy_store (snd r)
      in put_ready ex d' \<and> os_inv store' \<and> os_max_memory_bytes store' = os_max_memory_bytes store \<and>
         total_size store' + owed ex d' \<le> total_size store + owed ex d \<and>
         (delivered ex d' = delivered ex d \<and> os_view store' = os_view store \<or>
          (\<exists>oid data. delivered ex d = None \<and> delivered ex d' = Some (oid, data)
             \<and> os_view store' = (os_view store)(oid \<mapsto> data))))"

lemma execute_result_step:
  assumes "os_inv (sy_store s)" "d_pc d = DExecute w"
  shows "result_step d s (advance_task wid pid now (d_spec d) (DExecute w) s)"
proof -
  let ?pc = "after_execute now (d_spec d) w (execute (sy_executor s) (d_spec d))"
  have step: "advance_task wid pid now (d_spec d) (DExecute w) s = (?pc, s)" by (simp add: advance_task_def)
  show ?thesis
  proof (cases "result_entry (sy_executor s) (d_spec d)")
    case None
    then have "?pc = finish_with w" by (auto simp: after_execute_def result_entry_def split: sum.splits list.splits)
    then show ?thesis using None step assms(1)
      by (simp add: result_step_def delivered_def owed_def finish_with_ready[of _ w] Let_def)
  next
    case (Some e)
    then have "?pc = DPut w (put_begin now (fst e) (snd e))"
      by (auto simp: after_execute_def result_entry_def split: sum.splits list.splits)
    then show ?thesis using Some step assms
      by (simp add: result_step_def delivered_def put_ready_def past_put_def owed_def put_begin_def Let_def)
  qed
qed

lemma put_result_step:
  assumes "put_ready (sy_executor s) d" "os_inv (sy_store s)" "room_for (owed (sy_executor s) d) (sy_store s)" "d_pc d = DPut w c"
  shows "result_step d s (advance_task wid pid now (d_spec d) (DPut w c) s)"
proof -
  have c: "pc_at c \<in> {PutStart, PutInsert, PutDone (Inr ())}"
    "result_entry (sy_executor s) (d_spec d) = Some (pc_object_id c, pc_data c)"
    using assms(1,4) by (simp_all add: put_ready_def)
  show ?thesis
  proof (cases "\<exists>r. pc_at c = PutDone r")
    case True
    then have "advance_task wid pid now (d_spec d) (DPut w c) s = (finish_with w, s)" by (auto simp: advance_task_def)
    moreover have "past_put (d_pc d)" using True c(1) assms(4) by (auto simp: past_put_def)
    ultimately show ?thesis using assms(2) by (simp add: result_step_def delivered_def owed_def finish_with_ready[of _ w] Let_def)
  next
    case False
    have step: "advance_task wid pid now (d_spec d) (DPut w c) s =
        (DPut w (fst (put_step (c, sy_store s))), s\<lparr>sy_store := snd (put_step (c, sy_store s))\<rparr>)"
      using False by (auto simp: advance_task_def split_beta split: put_pc.splits)
    have "owed (sy_executor s) d = length (pc_data c)"
      using False c assms(4) by (auto simp: owed_def result_size_def past_put_def)
    moreover then have "\<not> (0 < os_max_memory_bytes (sy_store s) \<and> put_check (sy_store s) (pc_data c))"
      using assms(3) by (auto simp: room_for_def put_check_def)
    ultimately show ?thesis using False assms(2,4) c put_step_inv[of "sy_store s" c]
      put_insert_size[OF os_invD(1)[OF assms(2)], of "pc_now c" "pc_object_id c" "pc_data c"]
      by (auto simp: step result_step_def put_step_def put_ready_def delivered_def past_put_def owed_def result_size_def Let_def)
  qed
qed

lemma advance_results:
  assumes "put_ready (sy_executor s) d" "os_inv (sy_store s)" "room_for (owed (sy_executor s) d) (sy_store s)"
  shows "result_step d s (advance_task wid pid now (d_spec d) (d_pc d) s)"
proof (cases "d_pc d")
  case (DGet c)
  then show ?thesis using assms
    by (cases c) (auto simp: result_step_def advance_task_def put_ready_def delivered_def past_put_def owed_def Let_def split_beta)
next
  case (DReturn a c)
  then show ?thesis using assms
    by (cases c) (auto simp: result_step_def advance_task_def put_ready_def delivered_def past_put_def owed_def Let_def split_beta)
next
  case (DExecute w)
  then show ?thesis using execute_result_step[OF assms(2)] by simp
next
  case (DPut w c)
  then show ?thesis using put_result_step[OF assms] by simp
qed (use assms in \<open>auto simp: result_step_def advance_task_def put_ready_def delivered_def past_put_def owed_def Let_def\<close>)

lemma results_inv_step:
  assumes "results_inv ex before n ds (sy_store s)" "sy_executor s = ex" "j < length ds" "distinct (return_keys (map d_spec ds))"
    and "advance_task wid pid now (d_spec (ds ! j)) (d_pc (ds ! j)) s = (pc', s')"
  shows "results_inv ex before n (ds[j := (ds ! j)\<lparr>d_pc := pc'\<rparr>]) (sy_store s')"
proof -
  let ?d = "ds ! j" and ?d' = "(ds ! j)\<lparr>d_pc := pc'\<rparr>"
  have room: "room_for (n + sum_list (map (owed ex) ds)) (sy_store s)" using assms(1) by (simp add: results_inv_def)
  have ready: "put_ready (sy_executor s) ?d" "os_inv (sy_store s)" "room_for (owed (sy_executor s) ?d) (sy_store s)"
    using assms(1-3) room_for_mono[OF room] elem_le_sum_list[of j "map (owed ex) ds"] by (auto simp: results_inv_def)
  note adv = advance_results[OF ready, of wid pid now, unfolded assms(5) result_step_def Let_def assms(2) fst_conv snd_conv]
  note room = room_update[OF room assms(3), of "sy_store s'" ?d']
  show ?thesis
  proof (cases "delivered ex ?d' = delivered ex ?d \<and> os_view (sy_store s') = os_view (sy_store s)")
    case True
    then show ?thesis using results_inv_same[OF assms(1,3), of ?d' "sy_store s'"] adv room by simp
  next
    case False
    with adv obtain oid data where "delivered ex ?d = None" "delivered ex ?d' = Some (oid, data)"
      "os_view (sy_store s') = (os_view (sy_store s))(oid \<mapsto> data)" by blast
    with results_inv_put[OF assms(1,3), of ?d' oid data "sy_store s'"] adv assms(4) room show ?thesis by simp
  qed
qed

section \<open>The whole node\<close>

text \<open>The tasks of \<open>old\<close> were done before; the later ones and the waiting ones store under distinct identifiers.\<close>

definition node_inv :: "TaskExecutor \<Rightarrow> (ObjectId \<rightharpoonup> bytes) \<Rightarrow> dispatch list \<Rightarrow> System \<Rightarrow> bool" where
  "node_inv ex before old s \<longleftrightarrow>
     sy_executor s = ex \<and> (\<forall>d\<in>set old. d_pc d = DDone) \<and>
     (\<exists>ds. sy_tasks s = old @ ds \<and> results_inv ex before (demand ex (waiting s)) ds (sy_store s) \<and>
        distinct (return_keys (map d_spec ds @ waiting s)))"

definition new_dispatch :: "TaskSpec \<Rightarrow> dispatch" where
  "new_dispatch t = \<lparr>d_spec = t, d_pc = DGet GetRead\<rparr>"

lemma owed_new: "sum_list (map (owed ex) (map new_dispatch ts)) = demand ex ts"
  by (simp add: owed_def new_dispatch_def past_put_def demand_def comp_def)

lemma results_inv_new:
  assumes "results_inv ex before n ds store" "demand ex ts + m \<le> n"
  shows "results_inv ex before m (ds @ map new_dispatch ts) store"
proof -
  have "room_for (m + sum_list (map (owed ex) (ds @ map new_dispatch ts))) store"
    using assms unfolding results_inv_def map_append sum_list_append owed_new by (elim conjE room_for_mono) simp
  then show ?thesis using assms(1)
    by (auto simp: results_inv_def new_dispatch_def put_ready_def delivered_def past_put_def)
qed

lemma try_start_new:
  "sy_tasks (snd (try_start t s)) = sy_tasks s @ map new_dispatch (if fst (try_start t s) then [t] else [])"
  by (simp add: try_start_def Let_def dispatch_task_def set_status_def new_dispatch_def split_beta)

lemma handle_command_new:
  "\<exists>new. sy_tasks (handle_command cmd s) = sy_tasks s @ map new_dispatch new \<and>
     mset new + mset (sy_pending (handle_command cmd s)) \<subseteq># mset (sy_pending s) + mset (submitted [cmd])"
proof (cases cmd)
  case (SubmitTask t)
  then show ?thesis using try_start_new[of t s]
    by (intro exI[of _ "if fst (try_start t s) then [t] else []"])
       (simp add: submit_command_def set_status_def split_beta Let_def)
next
  case (CancelTask tid)
  then show ?thesis by (intro exI[of _ "[]"]) (simp add: cancel_command_def)
qed (simp add: status_command_def)

lemma loop_step_new:
  "\<exists>new. sy_tasks (loop_step s) = sy_tasks s @ map new_dispatch new \<and>
     mset new + mset (waiting (loop_step s)) \<subseteq># mset (waiting s)"
proof (cases "sy_loop s")
  case LoopRecv
  show ?thesis
  proof (cases "sy_channel s")
    case (Cons cmd rest)
    let ?h = "handle_command cmd (s\<lparr>sy_channel := rest\<rparr>)"
    obtain new where new: "sy_tasks ?h = sy_tasks s @ map new_dispatch new"
        "mset new + mset (sy_pending ?h) \<subseteq># mset (sy_pending s) + mset (submitted [cmd])"
      using handle_command_new[of cmd "s\<lparr>sy_channel := rest\<rparr>"] by auto
    have step: "loop_step s = begin_drain ?h" using LoopRecv Cons by (simp add: loop_step_def)
    have "mset (waiting s) = mset (sy_pending s) + mset (submitted [cmd]) + mset (submitted rest)"
      using LoopRecv Cons submitted_simps(5)[of "[cmd]" rest] by (simp add: waiting_def)
    moreover have "mset (waiting (loop_step s)) = mset (sy_pending ?h) + mset (submitted rest)"
      unfolding step by (simp add: begin_drain_def waiting_def)
    ultimately show ?thesis
      using new by (intro exI[of _ new]) (simp add: step begin_drain_def subset_mset.add_right_mono)
  qed (use LoopRecv in \<open>simp add: loop_step_def waiting_def\<close>)
next
  case (LoopDrain todo still)
  show ?thesis
  proof (cases todo)
    case (Cons t rest)
    then show ?thesis using LoopDrain try_start_new[of t s]
      by (intro exI[of _ "if fst (try_start t s) then [t] else []"]) (simp add: loop_step_def waiting_def split_beta Let_def)
  qed (use LoopDrain in \<open>simp add: loop_step_def waiting_def\<close>)
qed (simp add: loop_step_def)

lemma loop_step_store [simp]: "sy_store (loop_step s) = sy_store s" "sy_executor (loop_step s) = sy_executor s"
  by (auto simp: loop_step_def begin_drain_def Let_def split_beta split: loop_pc.split list.split)

lemma loop_step_node: "node_inv ex before old s \<Longrightarrow> node_inv ex before old (loop_step s)"
proof -
  assume inv: "node_inv ex before old s"
  then obtain ds where ds: "sy_tasks s = old @ ds" "results_inv ex before (demand ex (waiting s)) ds (sy_store s)"
      "distinct (return_keys (map d_spec ds @ waiting s))" by (auto simp: node_inv_def)
  obtain new where new: "sy_tasks (loop_step s) = sy_tasks s @ map new_dispatch new"
      "mset new + mset (waiting (loop_step s)) \<subseteq># mset (waiting s)"
    using loop_step_new[of s] by blast
  have keys: "mset (map d_spec (ds @ map new_dispatch new) @ waiting (loop_step s)) \<subseteq># mset (map d_spec ds @ waiting s)"
    using new(2) by (simp add: comp_def new_dispatch_def add.assoc subset_mset.add_left_mono)
  have "demand ex new + demand ex (waiting (loop_step s)) \<le> demand ex (waiting s)"
    using demand_mono[of "new @ waiting (loop_step s)" "waiting s" ex] new(2) by (simp add: demand_def)
  from results_inv_new[OF ds(2) this] show ?thesis using return_keys_mono[OF keys ds(3)] ds(1) new(1) inv
    unfolding node_inv_def by auto
qed

lemma task_step_node: "node_inv ex before old s \<Longrightarrow> node_inv ex before old (task_step wid pid now i s)"
proof -
  assume inv: "node_inv ex before old s"
  let ?n = "demand ex (waiting s)"
  from inv obtain ds where ds: "sy_tasks s = old @ ds" "results_inv ex before ?n ds (sy_store s)"
      "distinct (return_keys (map d_spec ds @ waiting s))" "sy_executor s = ex" by (auto simp: node_inv_def)
  show ?thesis
  proof (cases "length old \<le> i \<and> i < length (sy_tasks s)")
    case True
    then obtain j where j: "i = length old + j" "j < length ds" using ds(1) by (metis le_Suc_ex length_append nat_add_left_cancel_less)
    let ?d = "ds ! j"
    have d: "sy_tasks s ! i = ?d" using ds(1) j by (simp add: nth_append)
    obtain pc' s' where a: "advance_task wid pid now (d_spec ?d) (d_pc ?d) s = (pc', s')" by force
    let ?d' = "?d\<lparr>d_pc := pc'\<rparr>"
    have t: "task_step wid pid now i s = s'\<lparr>sy_tasks := old @ ds[j := ?d']\<rparr>"
      using task_step_eq[of i s wid pid now] True d a j ds(1) by (simp add: list_update_append)
    have "results_inv ex before ?n (ds[j := ?d']) (sy_store s')" using results_inv_step[OF ds(2,4) j(2) _ a] ds(3) by simp
    moreover have "waiting (task_step wid pid now i s) = waiting s" "sy_executor (task_step wid pid now i s) = ex"
      using ds(4) by simp_all
    moreover have "map d_spec (ds[j := ?d']) = map d_spec ds" using j(2) by (simp add: map_update list_update_same_conv)
    ultimately show ?thesis using inv ds(3) unfolding node_inv_def by (auto simp: t)
  next
    case False
    have "task_step wid pid now i s = s"
    proof (cases "i < length (sy_tasks s)")
      case i: True
      then have "sy_tasks s ! i \<in> set old" using False ds(1) by (simp add: nth_append)
      then have "d_pc (sy_tasks s ! i) = DDone" using inv by (auto simp: node_inv_def)
      then show ?thesis using i by (intro task_step_blocked) (simp_all add: blocked_def)
    qed (simp add: task_step_out)
    with inv show ?thesis by simp
  qed
qed

lemma node_steps_inv: "node_step\<^sup>*\<^sup>* s s' \<Longrightarrow> node_inv ex before old s \<Longrightarrow> node_inv ex before old s'"
proof (induction rule: rtranclp_induct)
  case (step s1 s2)
  from step.hyps(2) step.IH[OF step.prems] show ?case
    by cases (auto intro: loop_step_node task_step_node)
qed simp

lemma results_inv_done:
  assumes "results_inv ex before n ds store" "\<forall>d\<in>set ds. d_pc d = DDone"
  shows "os_view store = before ++ map_of (List.map_filter (result_entry ex) (map d_spec ds))"
proof
  fix oid
  let ?es = "List.map_filter (result_entry ex) (map d_spec ds)"
  have del: "delivered ex d = result_entry ex (d_spec d)" if "d \<in> set ds" for d
    using assms(2) that by (simp add: delivered_def past_put_def)
  have mem: "(oid, data) \<in> set ?es \<longleftrightarrow> (\<exists>d\<in>set ds. delivered ex d = Some (oid, data))" for data
    using del by (force simp: List.map_filter_def)
  show "os_view store oid = (before ++ map_of ?es) oid"
  proof (cases "map_of ?es oid")
    case None
    then have "\<forall>data. (oid, data) \<notin> set ?es" by (metis map_of_eq_None_iff fst_conv image_eqI)
    then have "os_view store oid = before oid" using assms(1) mem by (auto simp: results_inv_def)
    then show ?thesis using None by (simp add: map_add_def)
  next
    case (Some data)
    then have "os_view store oid = Some data" using assms(1) mem map_of_SomeD by (fastforce simp: results_inv_def)
    then show ?thesis using Some by simp
  qed
qed

lemma node_steps_new:
  "node_step\<^sup>*\<^sup>* s s' \<Longrightarrow> \<exists>started. map d_spec (sy_tasks s') = map d_spec (sy_tasks s) @ started
     \<and> mset started + mset (waiting s') \<subseteq># mset (waiting s)"
proof (induction rule: rtranclp_induct)
  case base
  show ?case by (intro exI[of _ "[]"]) simp
next
  case (step s1 s2)
  then obtain started where st: "map d_spec (sy_tasks s1) = map d_spec (sy_tasks s) @ started"
    "mset started + mset (waiting s1) \<subseteq># mset (waiting s)" by blast
  from step.hyps(2) show ?case
  proof cases
    case loop
    obtain new where new: "sy_tasks s2 = sy_tasks s1 @ map new_dispatch new" "mset new + mset (waiting s2) \<subseteq># mset (waiting s1)"
      using loop_step_new[of s1] loop by blast
    have "mset started + (mset new + mset (waiting s2)) \<subseteq># mset (waiting s)"
      using new(2) st(2) by (metis subset_mset.add_left_mono subset_mset.order_trans)
    then show ?thesis using st new(1) by (intro exI[of _ "started @ new"]) (simp add: comp_def new_dispatch_def add.assoc)
  qed (use st in simp)
qed

lemma put_step_max_memory [simp]: "os_max_memory_bytes (snd (put_step (c, st))) = os_max_memory_bytes st"
  by (auto simp: put_step_def evict_zero_ref_objects_def Let_def split: put_pc.splits)

lemma node_steps_max_memory:
  "node_step\<^sup>*\<^sup>* s s' \<Longrightarrow> os_max_memory_bytes (sy_store s') = os_max_memory_bytes (sy_store s)"
proof (induction rule: rtranclp_induct)
  case (step s1 s2)
  from step.hyps(2) step.IH show ?case
    by cases (auto simp: task_step_def advance_task_def Let_def split_beta
        split: dispatch_pc.splits get_pc.splits put_pc.splits ret_pc.splits)
qed simp

lemma node_inv_begin:
  assumes "live_tasks s = []" "os_inv (sy_store s)" "room_for (demand (sy_executor s) (waiting s)) (sy_store s)"
    and "distinct (return_keys (waiting s))"
  shows "node_inv (sy_executor s) (os_view (sy_store s)) (sy_tasks s) s"
  using assms by (auto simp: node_inv_def results_inv_def live_tasks_def filter_empty_conv)

lemma settled_results:
  assumes "live_tasks s = []" "os_inv (sy_store s)" "room_for (demand (sy_executor s) (waiting s)) (sy_store s)"
    and "distinct (return_keys (waiting s))" "node_step\<^sup>*\<^sup>* s s'" "live_tasks s' = []"
  shows "\<exists>started. map d_spec (sy_tasks s') = map d_spec (sy_tasks s) @ started
    \<and> mset started + mset (waiting s') \<subseteq># mset (waiting s)
    \<and> os_view (sy_store s') = os_view (sy_store s) ++ map_of (List.map_filter (result_entry (sy_executor s)) started)
    \<and> room_for (demand (sy_executor s) (waiting s')) (sy_store s')"
proof -
  from node_steps_inv[OF assms(5) node_inv_begin[OF assms(1-4)]] obtain ds where ds: "sy_tasks s' = sy_tasks s @ ds"
    "results_inv (sy_executor s) (os_view (sy_store s)) (demand (sy_executor s) (waiting s')) ds (sy_store s')"
    by (auto simp: node_inv_def)
  have "\<forall>d\<in>set ds. d_pc d = DDone" using assms(6) ds(1) by (auto simp: live_tasks_def filter_empty_conv)
  note view = results_inv_done[OF ds(2) this]
  have room: "room_for (demand (sy_executor s) (waiting s')) (sy_store s')"
    using ds(2) by (auto simp: results_inv_def intro: room_for_mono)
  obtain started where "map d_spec (sy_tasks s') = map d_spec (sy_tasks s) @ started"
    "mset started + mset (waiting s') \<subseteq># mset (waiting s)" using node_steps_new[OF assms(5)] by blast
  with view ds room show ?thesis by auto
qed

end
