(* ===== verification/Fair_Progress.thy ===== *)
theory Fair_Progress
  imports "HOL-Library.Countable"
begin

text \<open>
  Infinite behaviours of a system of actors under a fair schedule. In each step the schedule names an
  actor, which acts by a function of the state and of a choice that the environment makes for it
  (a fresh identifier, the time); an actor that can do nothing leaves the state as it is. The
  contract \<open>fair_progress\<close> has a measure of the work left that every effective step makes smaller; then a
  fair behaviour changes the state only finitely often and stays for ever in a state in which no
  actor can do anything.
\<close>

definition behaviour :: "('a \<Rightarrow> 'c \<Rightarrow> 's \<Rightarrow> 's) \<Rightarrow> (nat \<Rightarrow> 'a) \<Rightarrow> (nat \<Rightarrow> 's) \<Rightarrow> bool" where
  "behaviour act who run \<longleftrightarrow> (\<forall>n. \<exists>c. run (Suc n) = act (who n) c (run n))"

definition fair_schedule :: "(nat \<Rightarrow> 'a) \<Rightarrow> bool" where
  "fair_schedule who \<longleftrightarrow> (\<forall>a n. \<exists>m\<ge>n. who m = a)"

definition at_rest :: "('a \<Rightarrow> 'c \<Rightarrow> 's \<Rightarrow> 's) \<Rightarrow> 's \<Rightarrow> bool" where
  "at_rest act s \<longleftrightarrow> (\<forall>a c. act a c s = s)"

text \<open>There are behaviours for every schedule and every sequence of choices, and fair schedules.\<close>

primrec follow :: "('a \<Rightarrow> 'c \<Rightarrow> 's \<Rightarrow> 's) \<Rightarrow> (nat \<Rightarrow> 'a) \<Rightarrow> (nat \<Rightarrow> 'c) \<Rightarrow> 's \<Rightarrow> nat \<Rightarrow> 's" where
  "follow act who choices s 0 = s"
| "follow act who choices s (Suc n) = act (who n) (choices n) (follow act who choices s n)"

lemma behaviour_follow: "behaviour act who (follow act who choices s)"
  by (auto simp: behaviour_def)

lemma fair_schedule_nat:
  assumes "surj f" shows "fair_schedule (\<lambda>n. f (fst (prod_decode n)))"
proof -
  have "\<exists>m\<ge>n. f (fst (prod_decode m)) = a" for a n
  proof -
    obtain k where "f k = a" using surjD[OF assms, of a] by auto
    then show ?thesis by (intro exI[of _ "prod_encode (k, n)"]) (simp add: le_prod_encode_2)
  qed
  then show ?thesis by (simp add: fair_schedule_def)
qed

lemma behaviour_steps:
  assumes "behaviour act who run" "\<And>a c s. step s (act a c s)" "m \<le> n"
  shows "step\<^sup>*\<^sup>* (run m) (run n)"
  using assms(3)
proof (induction rule: dec_induct)
  case (step n)
  obtain c where "run (Suc n) = act (who n) c (run n)" using assms(1) by (auto simp: behaviour_def)
  with step.IH assms(2) show ?case by (metis rtranclp.rtrancl_into_rtrancl)
qed simp

locale fair_progress =
  fixes act :: "'a \<Rightarrow> 'c \<Rightarrow> 's \<Rightarrow> 's"
    and inv :: "'s \<Rightarrow> bool"
    and work :: "'s \<Rightarrow> nat"
  assumes inv_act: "inv s \<Longrightarrow> inv (act a c s)"
    and act_work: "inv s \<Longrightarrow> act a c s \<noteq> s \<Longrightarrow> work (act a c s) < work s"
    and act_choice: "inv s \<Longrightarrow> act a c s = s \<Longrightarrow> act a c' s = s"
begin

lemma inv_behaviour:
  assumes "behaviour act who run" "inv (run 0)" shows "inv (run n)"
proof (induction n)
  case (Suc n)
  obtain c where "run (Suc n) = act (who n) c (run n)" using assms(1) by (auto simp: behaviour_def)
  with Suc inv_act show ?case by simp
qed (rule assms(2))

lemma behaviour_work:
  assumes "behaviour act who run" "inv (run 0)"
  shows "run (Suc n) = run n \<or> work (run (Suc n)) < work (run n)"
  using assms act_work[OF inv_behaviour[OF assms, of n]] by (metis behaviour_def)

lemma changes_bounded:
  assumes "behaviour act who run" "inv (run 0)"
  shows "card {k. k < n \<and> run (Suc k) \<noteq> run k} + work (run n) \<le> work (run 0)"
proof (induction n)
  case (Suc n)
  let ?changes = "\<lambda>n. {k. k < n \<and> run (Suc k) \<noteq> run k}"
  show ?case
  proof (cases "run (Suc n) = run n")
    case True
    then have "?changes (Suc n) = ?changes n" using less_Suc_eq by blast
    then show ?thesis using Suc True by simp
  next
    case False
    then have "?changes (Suc n) = insert n (?changes n)" using less_Suc_eq by blast
    then have "card (?changes (Suc n)) = Suc (card (?changes n))" by simp
    moreover have "work (run (Suc n)) < work (run n)" using behaviour_work[OF assms, of n] False by simp
    ultimately show ?thesis using Suc by linarith
  qed
qed simp

lemma work_antimono:
  assumes "behaviour act who run" "inv (run 0)" "m \<le> n"
  shows "work (run n) \<le> work (run m)"
  using assms(3)
proof (induction rule: dec_induct)
  case (step n)
  then show ?case using behaviour_work[OF assms(1,2), of n] by auto
qed simp

lemma settles:
  assumes "behaviour act who run" "inv (run 0)"
  shows "\<exists>N. \<forall>n\<ge>N. run n = run N"
proof -
  obtain N where least: "\<And>n. work (run N) \<le> work (run n)"
    using ex_has_least_nat[of "\<lambda>_. True" _ "\<lambda>n. work (run n)"] by auto
  have "run n = run N" if "N \<le> n" for n
    using that
  proof (induction rule: dec_induct)
    case (step n)
    then have "work (run n) = work (run N)" by simp
    with least[of "Suc n"] behaviour_work[OF assms, of n] step.IH show ?case by auto
  qed simp
  then show ?thesis by blast
qed

theorem fair_behaviour_rests:
  assumes "behaviour act who run" "inv (run 0)" "fair_schedule who"
  shows "finite {k. run (Suc k) \<noteq> run k} \<and> card {k. run (Suc k) \<noteq> run k} \<le> work (run 0)
    \<and> (\<exists>N. \<forall>n\<ge>N. run n = run N \<and> at_rest act (run n))"
proof -
  obtain N where N: "\<And>n. N \<le> n \<Longrightarrow> run n = run N" using settles[OF assms(1,2)] by blast
  have "act a c (run N) = run N" for a c
  proof -
    obtain m where m: "N \<le> m" "who m = a" using assms(3) by (auto simp: fair_schedule_def)
    obtain c' where "run (Suc m) = act a c' (run m)" using assms(1) m(2) by (auto simp: behaviour_def)
    then have "act a c' (run N) = run N" using N[OF m(1)] N[of "Suc m"] m(1) by simp
    then show ?thesis using act_choice[OF inv_behaviour[OF assms(1,2)]] by blast
  qed
  then have rest: "at_rest act (run N)" by (simp add: at_rest_def)
  have sub: "{k. run (Suc k) \<noteq> run k} = {k. k < N \<and> run (Suc k) \<noteq> run k}"
    using N by (metis le_Suc_eq not_le)
  have "finite {k. k < N \<and> run (Suc k) \<noteq> run k}" by simp
  then show ?thesis using sub changes_bounded[OF assms(1,2), of N] N rest by (metis add_leD1)
qed

end

end
