(* ===== verification/Fair_Runs.thy ===== *)
theory Fair_Runs
  imports Task_Results Fair_Progress
begin

text \<open>
  The node of \<^verbatim>\<open>crates/ray-raylet/src/scheduler.rs\<close> under a fair schedule: the event loop and every
  background task get their turn again and again, in any order. \<open>node_work\<close> bounds the steps that are
  left: the steps of the dispatched tasks, of the tasks that may still be dispatched, and of the
  loop, which visits its whole queue after each command.
\<close>

section \<open>The actors of a node\<close>

datatype actor = EventLoop | Background nat

fun node_act :: "actor \<Rightarrow> WorkerId \<times> u32 \<times> nat \<Rightarrow> System \<Rightarrow> System" where
  "node_act EventLoop c s = loop_step s"
| "node_act (Background i) (wid, pid, now) s = task_step wid pid now i s"

lemma node_act_step: "node_step s (node_act a c s)"
  by (cases "(a, c, s)" rule: node_act.cases) (auto intro: node_step.intros)

definition loop_cost :: "loop_pc \<Rightarrow> nat" where
  "loop_cost pc = (case pc of LoopExited \<Rightarrow> 0 | LoopRecv \<Rightarrow> 1 | LoopDrain todo still \<Rightarrow> 2 + length todo)"

definition node_work :: "System \<Rightarrow> nat" where
  "node_work s =
     work_left s + (15 + wp_max_workers (sy_pool s)) * length (waiting s) +
     length (sy_channel s) * (length (waiting s) + 3) + loop_cost (sy_loop s)"

lemma work_left_new:
  "sy_tasks s' = sy_tasks s @ map new_dispatch new \<Longrightarrow> sy_pool s' = sy_pool s \<Longrightarrow>
   work_left s' = work_left s + length new * (14 + wp_max_workers (sy_pool s))"
  by (simp add: work_left_def comp_def new_dispatch_def remaining_def sum_list_triv)

lemma loop_step_keeps_pool [simp]: "sy_pool (loop_step s) = sy_pool s"
  by (auto simp: loop_step_def begin_drain_def Let_def split_beta split: loop_pc.split list.split)

lemma loop_step_cost:
  assumes "loop_step s \<noteq> s" "length (waiting (loop_step s)) \<le> length (waiting s)"
  shows "length (sy_channel (loop_step s)) * (length (waiting (loop_step s)) + 3) + loop_cost (sy_loop (loop_step s))
    < length (sy_channel s) * (length (waiting s) + 3) + loop_cost (sy_loop s)"
proof (cases "sy_loop s")
  case LoopRecv
  show ?thesis
  proof (cases "sy_channel s")
    case Nil
    then show ?thesis using assms(1) LoopRecv by (auto simp: loop_step_def loop_cost_def split: if_splits)
  next
    case (Cons cmd rest)
    let ?h = "handle_command cmd (s\<lparr>sy_channel := rest\<rparr>)"
    have step: "loop_step s = begin_drain ?h" using LoopRecv Cons by (simp add: loop_step_def)
    have "length (sy_pending ?h) \<le> length (waiting (loop_step s))"
      by (simp add: step begin_drain_def waiting_def)
    moreover have "length (sy_channel (loop_step s)) * (length (waiting (loop_step s)) + 3) \<le> length rest * (length (waiting s) + 3)"
      using assms(2) by (intro mult_le_mono) (simp_all add: step begin_drain_def)
    moreover have "loop_cost (sy_loop (loop_step s)) = 2 + length (sy_pending ?h)"
      "length (sy_channel s) * (length (waiting s) + 3) = length (waiting s) + 3 + length rest * (length (waiting s) + 3)"
      "loop_cost (sy_loop s) = 1"
      using Cons LoopRecv by (simp_all add: step begin_drain_def loop_cost_def)
    ultimately show ?thesis using assms(2) by linarith
  qed
next
  case (LoopDrain todo still)
  have "sy_channel (loop_step s) = sy_channel s" "loop_cost (sy_loop (loop_step s)) < loop_cost (sy_loop s)"
    using LoopDrain by (cases todo; auto simp: loop_step_def loop_cost_def Let_def split_beta)+
  then show ?thesis using assms(2) by (intro add_le_less_mono mult_le_mono) simp_all
next
  case LoopExited
  then show ?thesis using assms(1) by (simp add: loop_step_def)
qed

lemma loop_step_node_work:
  assumes "loop_step s \<noteq> s" shows "node_work (loop_step s) < node_work s"
proof -
  obtain new where new: "sy_tasks (loop_step s) = sy_tasks s @ map new_dispatch new"
      "mset new + mset (waiting (loop_step s)) \<subseteq># mset (waiting s)"
    using loop_step_new[of s] by blast
  have len: "length new + length (waiting (loop_step s)) \<le> length (waiting s)"
    using size_mset_mono[OF new(2)] by simp
  let ?W = "15 + wp_max_workers (sy_pool s)"
  have "length new * ?W + length (waiting (loop_step s)) * ?W \<le> length (waiting s) * ?W"
    using len unfolding add_mult_distrib[symmetric] by (rule mult_le_mono1)
  moreover have "length new * (14 + wp_max_workers (sy_pool s)) \<le> length new * ?W" by simp
  moreover have "work_left (loop_step s) = work_left s + length new * (14 + wp_max_workers (sy_pool s))"
    using work_left_new[OF new(1)] by simp
  ultimately have "work_left (loop_step s) + ?W * length (waiting (loop_step s)) \<le> work_left s + ?W * length (waiting s)"
    unfolding mult.commute[of ?W] by linarith
  with loop_step_cost[OF assms] len show ?thesis by (simp add: node_work_def)
qed

lemma task_step_max_workers [simp]: "wp_max_workers (sy_pool (task_step wid pid now i s)) = wp_max_workers (sy_pool s)"
  by (auto simp: task_step_def advance_task_def Let_def split_beta
      split: dispatch_pc.splits get_pc.splits put_pc.splits ret_pc.splits)

lemma task_step_senders [simp]: "sy_senders_dropped (task_step wid pid now i s) = sy_senders_dropped s"
  by (auto simp: task_step_def advance_task_def Let_def split_beta
      split: dispatch_pc.splits get_pc.splits put_pc.splits ret_pc.splits)

text \<open>An actor can move, whatever it is given, or it cannot.\<close>

lemma background_moves:
  assumes "locks_ok s"
  shows "task_step wid pid now i s \<noteq> s \<Longrightarrow> node_work (task_step wid pid now i s) < node_work s"
    and "task_step wid pid now i s = s \<Longrightarrow> task_step wid' pid' now' i s = s"
proof -
  consider (still) "\<And>wid pid now. task_step wid pid now i s = s"
    | (moves) "i < length (sy_tasks s)" "\<not> blocked (d_pc (sy_tasks s ! i)) s"
    using task_step_blocked[of i s] task_step_out[of i s] by blast
  then have "(\<forall>wid pid now. task_step wid pid now i s = s) \<or>
      (\<forall>wid pid now. node_work (task_step wid pid now i s) < node_work s)"
  proof cases
    case moves
    then show ?thesis using task_step_work(2)[OF assms moves] by (simp add: node_work_def)
  qed blast
  then show "task_step wid pid now i s \<noteq> s \<Longrightarrow> node_work (task_step wid pid now i s) < node_work s"
    "task_step wid pid now i s = s \<Longrightarrow> task_step wid' pid' now' i s = s" by (metis less_irrefl)+
qed

interpretation fair: fair_progress node_act locks_ok node_work
proof
  fix s a and c c' :: "WorkerId \<times> u32 \<times> nat"
  assume inv: "locks_ok s"
  then show "locks_ok (node_act a c s)"
    using sys_step_locks[OF sys_step.task] loop_step_locks by (cases "(a, c, s)" rule: node_act.cases) auto
  show "node_act a c s \<noteq> s \<Longrightarrow> node_work (node_act a c s) < node_work s"
    using loop_step_node_work[of s] background_moves(1)[OF inv] by (cases "(a, c, s)" rule: node_act.cases) auto
  show "node_act a c s = s \<Longrightarrow> node_act a c' s = s"
    using background_moves(2)[OF inv, of "fst c" "fst (snd c)" "snd (snd c)" _ "fst c'" "fst (snd c')" "snd (snd c')"]
    by (cases a; cases c; cases c') simp_all
qed

lemma node_at_rest:
  assumes "locks_ok s"
  shows "at_rest node_act s \<longleftrightarrow> live_tasks s = [] \<and>
    (sy_loop s = LoopExited \<or> sy_loop s = LoopRecv \<and> sy_channel s = [] \<and> \<not> sy_senders_dropped s)"
proof
  assume rest: "at_rest node_act s"
  then have loop: "loop_step s = s" and task: "task_step wid pid now i s = s" for wid pid now i
    unfolding at_rest_def by (metis node_act.simps)+
  have "live_tasks s = []"
  proof (rule ccontr)
    assume "live_tasks s \<noteq> []"
    then obtain i where "i < length (sy_tasks s)" "\<not> blocked (d_pc (sy_tasks s ! i)) s"
      using some_task_moves[OF assms] by blast
    from task_step_work(2)[OF assms this] task show False by simp
  qed
  moreover have "sy_loop s = LoopExited \<or> sy_loop s = LoopRecv \<and> sy_channel s = [] \<and> \<not> sy_senders_dropped s"
    using arg_cong[OF loop, of sy_loop]
    by (auto simp: loop_step_def begin_drain_def Let_def split_beta split: loop_pc.splits list.splits if_splits)
  ultimately show "live_tasks s = [] \<and>
    (sy_loop s = LoopExited \<or> sy_loop s = LoopRecv \<and> sy_channel s = [] \<and> \<not> sy_senders_dropped s)" ..
next
  assume idle: "live_tasks s = [] \<and>
    (sy_loop s = LoopExited \<or> sy_loop s = LoopRecv \<and> sy_channel s = [] \<and> \<not> sy_senders_dropped s)"
  then have "task_step wid pid now i s = s" for wid pid now i
    by (intro task_step_done) (auto simp: live_tasks_def filter_empty_conv)
  moreover have "loop_step s = s" using idle by (auto simp: loop_step_def)
  ultimately have "node_act a c s = s" for a c by (cases "(a, c, s)" rule: node_act.cases) auto
  then show "at_rest node_act s" by (simp add: at_rest_def)
qed

lemma exited_reach:
  "(sys_step P)\<^sup>*\<^sup>* s s' \<Longrightarrow> sy_loop s \<noteq> LoopExited \<Longrightarrow>
   sy_loop s' = LoopExited \<longrightarrow> sy_channel s' = [] \<and> sy_senders_dropped s'"
proof (induction rule: rtranclp_induct)
  case (step s1 s2)
  from step.hyps(2) step.IH[OF step.prems] show ?case
    by cases (auto simp: send_command_def loop_step_def begin_drain_def Let_def split_beta
        split: loop_pc.splits list.splits if_splits)
qed simp

text \<open>A fair schedule of a node: actor \<open>k\<close> has its turn in the steps numbered by pairs \<open>(k, _)\<close>.\<close>

definition nth_actor :: "nat \<Rightarrow> actor" where
  "nth_actor k = (case k of 0 \<Rightarrow> EventLoop | Suc i \<Rightarrow> Background i)"

definition round_schedule :: "nat \<Rightarrow> actor" where
  "round_schedule n = nth_actor (fst (prod_decode n))"

lemma round_schedule_fair: "fair_schedule round_schedule"
proof -
  have "surj nth_actor"
  proof (rule surjI)
    show "nth_actor (case a of EventLoop \<Rightarrow> 0 | Background i \<Rightarrow> Suc i) = a" for a
      by (cases a) (simp_all add: nth_actor_def)
  qed
  then show ?thesis unfolding round_schedule_def[abs_def] by (rule fair_schedule_nat)
qed

lemma node_rests:
  assumes "locks_ok s"
  shows "\<exists>s'. node_step\<^sup>*\<^sup>* s s' \<and> at_rest node_act s'"
proof -
  let ?run = "follow node_act round_schedule (\<lambda>_. (id_default, 0, 0)) s"
  have run: "behaviour node_act round_schedule ?run" by (rule behaviour_follow)
  obtain N where "at_rest node_act (?run N)"
    using fair.fair_behaviour_rests[OF run _ round_schedule_fair] assms by (metis follow.simps(1) order_refl)
  moreover have "node_step\<^sup>*\<^sup>* (?run 0) (?run N)" using node_act_step by (intro behaviour_steps[OF run]) simp_all
  ultimately show ?thesis by auto
qed

lemma fair_node_rests:
  assumes "res_grid g tot" "os_inv store"
    and "(sys_step (\<lambda>spec. res_grid g (ts_required_resources spec)))\<^sup>*\<^sup>*
           (scheduler_new (rm_new tot) ex store (wp_new n)) (run 0)"
    and "behaviour node_act who run" "fair_schedule who"
  shows "finite {k. run (Suc k) \<noteq> run k} \<and> card {k. run (Suc k) \<noteq> run k} \<le> node_work (run 0)
    \<and> (\<exists>N. \<forall>k\<ge>N. run k = run N \<and> live_tasks (run k) = [] \<and> sy_channel (run k) = []
         \<and> sy_loop (run k) = (if sy_senders_dropped (run k) then LoopExited else LoopRecv)
         \<and> (\<forall>r. res_get (rm_available (sy_rm (run k))) r = res_get tot r))"
proof -
  let ?step = "sys_step (\<lambda>spec. res_grid g (ts_required_resources spec))"
  let ?s0 = "scheduler_new (rm_new tot) ex store (wp_new n)"
  have inv: "locks_ok (run 0)" using sys_steps_locks[OF assms(3) locks_ok_new[OF assms(2)]] .
  note rests = fair.fair_behaviour_rests[OF assms(4) inv assms(5)]
  obtain N where N: "\<And>k. N \<le> k \<Longrightarrow> run k = run N \<and> at_rest node_act (run k)" using rests by blast
  have reach: "?step\<^sup>*\<^sup>* ?s0 (run k)" for k
    using assms(3) node_sys_steps[OF behaviour_steps[OF assms(4), of node_step 0 k]] node_act_step by (metis rtranclp_trans le0)
  have "live_tasks (run k) = [] \<and> sy_channel (run k) = []
         \<and> sy_loop (run k) = (if sy_senders_dropped (run k) then LoopExited else LoopRecv)
         \<and> (\<forall>r. res_get (rm_available (sy_rm (run k))) r = res_get tot r)" if "N \<le> k" for k
  proof -
    have "locks_ok (run k)" using fair.inv_behaviour[OF assms(4) inv] .
    note rest = iffD1[OF node_at_rest[OF this] conjunct2[OF N[OF that]]]
    have "sy_loop (run k) = LoopExited \<longrightarrow> sy_channel (run k) = [] \<and> sy_senders_dropped (run k)"
      using exited_reach[OF reach] by (simp add: scheduler_new_def)
    moreover have "rm_total (sy_rm (run k)) = tot"
      using sys_steps_rm_total[OF reach] by (simp add: scheduler_new_def rm_new_def)
    ultimately show ?thesis
      using rest sys_accounts_idle[OF sys_steps_accounts[OF reach sys_accounts_new[OF assms(1)]]] by auto
  qed
  with rests N show ?thesis by blast
qed

section \<open>Properties\<close>

text \<open>
  C6. Under every fair schedule a node comes to rest. From any state the system can reach, if the event
  loop and each background task get their turn again and again, then only finitely many steps change the state, at
  most as many as \<open>node_work\<close> says; from some point on nothing changes any more: every dispatched
  task has ended, whatever locks it had to wait for, no command is left, the loop waits for the next
  one or has exited, and every resource of the node is available again.
\<close>

theorem fair_runs_come_to_rest:
  assumes "res_grid g tot" "os_inv store"
    and "(sys_step (\<lambda>spec. res_grid g (ts_required_resources spec)))\<^sup>*\<^sup>*
           (scheduler_new (rm_new tot) ex store (wp_new n)) (run 0)"
    and "behaviour node_act who run" "fair_schedule who"
  shows "finite {k. run (Suc k) \<noteq> run k} \<and> card {k. run (Suc k) \<noteq> run k} \<le> node_work (run 0)
    \<and> (\<exists>N. \<forall>k\<ge>N. run k = run N \<and> live_tasks (run k) = [] \<and> sy_channel (run k) = []
         \<and> sy_loop (run k) = (if sy_senders_dropped (run k) then LoopExited else LoopRecv)
         \<and> (\<forall>r. res_get (rm_available (sy_rm (run k))) r = res_get tot r))"
  using assms by (rule fair_node_rests)

theorem fair_runs_come_to_rest_witness:
  "\<exists>N. let s = follow node_act round_schedule (\<lambda>_. (id_default, 7, 0))
           (snd (send_command (SubmitTask (cpu_task 1 1 [42])) (cpu_system 1))) N
     in live_tasks s = [] \<and> sy_channel s = [] \<and> sy_loop s = (if sy_senders_dropped s then LoopExited else LoopRecv)
      \<and> res_get (rm_available (sy_rm s)) ''CPU'' = f64_of_nat 1"
proof -
  let ?P = "\<lambda>spec. res_grid 1074 (ts_required_resources spec)"
  let ?tot = "res_set resources_new ''CPU'' (f64_of_nat 1)"
  let ?s = "snd (send_command (SubmitTask (cpu_task 1 1 [42])) (cpu_system 1))"
  let ?run = "follow node_act round_schedule (\<lambda>_. (id_default, 7, 0)) ?s"
  have "sys_step ?P (cpu_system 1) ?s" by (rule sys_step.send) (simp add: cpu_task_def)
  then have "(sys_step ?P)\<^sup>*\<^sup>* (scheduler_new (rm_new ?tot) LocalExecutor (os_new 0) (wp_new 2)) (?run 0)"
    by (simp add: cpu_system_def)
  moreover have "res_grid 1074 ?tot" "os_inv (os_new 0)" by (simp_all add: os_inv_def os_new_def)
  ultimately have "\<exists>N. \<forall>k\<ge>N. ?run k = ?run N \<and> live_tasks (?run k) = [] \<and> sy_channel (?run k) = []
         \<and> sy_loop (?run k) = (if sy_senders_dropped (?run k) then LoopExited else LoopRecv)
         \<and> (\<forall>r. res_get (rm_available (sy_rm (?run k))) r = res_get ?tot r)"
    using fair_runs_come_to_rest[OF _ _ _ behaviour_follow round_schedule_fair] by blast
  then obtain N where "live_tasks (?run N) = [] \<and> sy_channel (?run N) = []
         \<and> sy_loop (?run N) = (if sy_senders_dropped (?run N) then LoopExited else LoopRecv)
         \<and> (\<forall>r. res_get (rm_available (sy_rm (?run N))) r = res_get ?tot r)" by blast
  then show ?thesis unfolding Let_def by (intro exI[of _ N]) (simp add: res_get_def res_set_def resources_new_def)
qed

end
