(* ===== verification/Queue_Progress.thy ===== *)
theory Queue_Progress
  imports Fair_Runs
begin

text \<open>
  The queue of \<^verbatim>\<open>crates/ray-raylet/src/scheduler.rs\<close> over several commands. The event loop looks at its queue only
  after a command, so a node at rest may have tasks in its queue that would fit. A client that keeps
  asking for a status, as a client that polls does, is enough to have all of them run; without a command
  none of them is ever started, also not when the runtime is shut down.
\<close>

section \<open>A query and what follows\<close>

text \<open>One status query, after which the node, in any order of its steps, comes to rest again.\<close>

definition query_settles :: "System \<Rightarrow> System \<Rightarrow> bool" where
  "query_settles s s' \<longleftrightarrow>
     (\<exists>tid ch. node_step\<^sup>*\<^sup>* (snd (get_task_status_send tid ch s)) s' \<and> at_rest node_act s')"

definition resting_node :: "nat \<Rightarrow> Resources \<Rightarrow> System \<Rightarrow> bool" where
  "resting_node g tot s \<longleftrightarrow>
     locks_ok s \<and> sys_accounts g {#} s \<and> rm_total (sy_rm s) = tot \<and> at_rest node_act s \<and>
     sy_loop s = LoopRecv \<and> \<not> sy_senders_dropped s"

lemma resting_nodeD:
  assumes "resting_node g tot s"
  shows "locks_ok s" "sys_accounts g {#} s" "rm_total (sy_rm s) = tot" "live_tasks s = []" "sy_channel s = []"
    "sy_loop s = LoopRecv" "\<not> sy_senders_dropped s" "waiting s = sy_pending s"
    "can_satisfy (rm_available (sy_rm s)) req = can_satisfy tot req"
proof -
  show l: "locks_ok s" "sys_accounts g {#} s" "rm_total (sy_rm s) = tot" "sy_loop s = LoopRecv" "\<not> sy_senders_dropped s"
    using assms by (simp_all add: resting_node_def)
  then show idle: "live_tasks s = []" "sy_channel s = []" using assms node_at_rest[OF l(1)] by (simp_all add: resting_node_def)
  then show "waiting s = sy_pending s" using l by (simp add: waiting_def)
  show "can_satisfy (rm_available (sy_rm s)) req = can_satisfy tot req"
    using can_satisfy_cong sys_accounts_idle[OF l(2) idle(1)] l(3) by blast
qed

lemma loop_step_senders [simp]: "sy_senders_dropped (loop_step s) = sy_senders_dropped s"
  by (auto simp: loop_step_def begin_drain_def Let_def split_beta split: loop_pc.split list.split)

lemma node_steps_senders: "node_step\<^sup>*\<^sup>* s s' \<Longrightarrow> sy_senders_dropped s' = sy_senders_dropped s"
  by (induction rule: rtranclp_induct) (auto elim: node_step.cases)

text \<open>
  Without cancellations no task leaves the node: it waits or it was dispatched. (While the loop visits
  its queue, it has taken the queue out of \<open>sy_pending\<close>.)
\<close>

definition all_specs :: "System \<Rightarrow> TaskSpec multiset" where
  "all_specs s = mset (map d_spec (sy_tasks s)) + mset (waiting s)"

definition no_cancels :: "System \<Rightarrow> bool" where
  "no_cancels s \<longleftrightarrow> (\<forall>tid. CancelTask tid \<notin> set (sy_channel s)) \<and>
     (\<forall>todo still. sy_loop s = LoopDrain todo still \<longrightarrow> sy_pending s = [])"

lemma try_start_specs:
  "mset (map d_spec (sy_tasks (snd (try_start spec s)))) =
     mset (map d_spec (sy_tasks s)) + (if fst (try_start spec s) then {#spec#} else {#})"
  by (simp add: try_start_new new_dispatch_def)

lemma loop_step_all_specs:
  assumes "no_cancels s" shows "all_specs (loop_step s) = all_specs s" "no_cancels (loop_step s)"
proof -
  show "no_cancels (loop_step s)"
    using assms by (auto simp: no_cancels_def loop_step_def begin_drain_def Let_def split_beta split: loop_pc.split list.split)
  show "all_specs (loop_step s) = all_specs s"
  proof (cases "sy_loop s")
    case LoopRecv
    show ?thesis
    proof (cases "sy_channel s")
      case (Cons cmd rest)
      have "\<forall>tid. cmd \<noteq> CancelTask tid" using assms Cons by (auto simp: no_cancels_def)
      then show ?thesis using Cons LoopRecv try_start_specs
        by (cases cmd) (auto simp: all_specs_def loop_step_def begin_drain_def waiting_def submit_command_def
            status_command_def set_status_def Let_def split_beta)
    qed (use LoopRecv in \<open>simp add: loop_step_def all_specs_def waiting_def\<close>)
  next
    case (LoopDrain todo still)
    then show ?thesis using try_start_specs assms
      by (cases todo) (auto simp: no_cancels_def all_specs_def loop_step_def waiting_def Let_def split_beta)
  qed (simp add: loop_step_def)
qed

lemma node_steps_all_specs:
  "node_step\<^sup>*\<^sup>* s s' \<Longrightarrow> no_cancels s \<Longrightarrow> all_specs s' = all_specs s \<and> no_cancels s'"
proof (induction rule: rtranclp_induct)
  case (step s1 s2)
  from step.hyps(2) step.IH[OF step.prems] show ?case
    by cases (auto simp: loop_step_all_specs, simp_all add: all_specs_def no_cancels_def)
qed simp

lemma queue_head_starts:
  assumes "resting_node g tot s" "sy_pending s = p # ps" "can_satisfy tot (ts_required_resources p)"
    and "node_step\<^sup>*\<^sup>* (s\<lparr>sy_channel := [GetStatus tid ch]\<rparr>) s'"
  defines "s1 \<equiv> s\<lparr>sy_channel := [GetStatus tid ch]\<rparr>"
  shows "s' \<in> {s1, loop_step s1} \<or> length (sy_tasks s) < length (sy_tasks s')"
  using assms(4) unfolding s1_def[symmetric]
proof (induction rule: rtranclp_induct)
  case (step a b)
  note idle = resting_nodeD[OF assms(1)]
  have s2: "sy_loop (loop_step s1) = LoopDrain (p # ps) []" "sy_tasks (loop_step s1) = sy_tasks s" "sy_rm (loop_step s1) = sy_rm s"
    using idle(6) assms(2) by (simp_all add: s1_def loop_step_def begin_drain_def status_command_def)
  have still: "task_step wid pid now i t = t" if "sy_tasks t = sy_tasks s" for wid pid now i t
    using that idle(4) by (intro task_step_done) (auto simp: live_tasks_def filter_empty_conv)
  have "fst (try_start p (loop_step s1))"
    using assms(3) idle(9) s2(3) by (simp add: try_start_def try_allocate_def Let_def)
  then have grows: "length (sy_tasks s) < length (sy_tasks (loop_step (loop_step s1)))"
    using s2 try_start_new[of p "loop_step s1"] by (simp add: loop_step_def[of "loop_step s1"] Let_def split_beta)
  have "sy_tasks s1 = sy_tasks s" by (simp add: s1_def)
  moreover have "length (sy_tasks a) \<le> length (sy_tasks (loop_step a))" using loop_step_new[of a] by auto
  ultimately show ?case using step.IH still[of s1] still[of "loop_step s1"] s2(2) grows
    by (cases rule: node_step.cases[OF step.hyps(2)]) auto
qed simp

lemma query_settles_idle:
  assumes "resting_node g tot s" "\<forall>t\<in>set (sy_pending s). can_satisfy tot (ts_required_resources t)" "query_settles s s'"
  shows "resting_node g tot s' \<and> length (sy_pending s') \<le> length (sy_pending s) - 1
    \<and> (\<exists>started. map d_spec (sy_tasks s') = map d_spec (sy_tasks s) @ started
         \<and> mset started + mset (sy_pending s') = mset (sy_pending s))"
proof -
  note idle = resting_nodeD[OF assms(1)]
  obtain tid ch where run: "node_step\<^sup>*\<^sup>* (s\<lparr>sy_channel := [GetStatus tid ch]\<rparr>) s'" and rest: "at_rest node_act s'"
    using assms(3) idle by (auto simp: query_settles_def get_task_status_send_def send_command_def)
  let ?s1 = "s\<lparr>sy_channel := [GetStatus tid ch]\<rparr>"
  have s1: "locks_ok ?s1" "sys_accounts g {#} ?s1" "no_cancels ?s1" "waiting ?s1 = sy_pending s"
    using idle held_requests_cong[of ?s1 s]
    by (auto simp: locks_ok_def sys_accounts_def no_cancels_def waiting_def)
  let ?P = "\<lambda>spec. res_grid g (ts_required_resources spec)"
  note steps = node_sys_steps[OF run, of ?P]
  have keep: "locks_ok s'" "sys_accounts g {#} s'" "rm_total (sy_rm s') = tot" "\<not> sy_senders_dropped s'"
    using sys_steps_locks[OF steps s1(1)] sys_steps_accounts[OF steps s1(2)] sys_steps_rm_total[OF steps] idle(3,7)
      node_steps_senders[OF run] by simp_all
  have loop: "sy_loop s' = LoopRecv"
    using exited_reach[OF steps] node_at_rest[OF keep(1)] rest keep(4) idle(6) by auto
  have idle': "resting_node g tot s'" using keep loop rest by (simp add: resting_node_def)
  obtain started where st: "map d_spec (sy_tasks s') = map d_spec (sy_tasks s) @ started"
    using node_steps_new[OF run] by auto
  have "all_specs s' = all_specs ?s1" using node_steps_all_specs[OF run s1(3)] by blast
  then have sum: "mset started + mset (sy_pending s') = mset (sy_pending s)"
    using st s1(4) resting_nodeD(8)[OF idle'] by (simp add: all_specs_def flip: mset_map)
  have "length (sy_pending s') \<le> length (sy_pending s) - 1"
  proof (cases "sy_pending s")
    case Nil
    then show ?thesis using sum by simp
  next
    case (Cons p ps)
    have "loop_step s' = s'" using rest node_act.simps(1) unfolding at_rest_def by metis
    moreover have "loop_step ?s1 \<noteq> ?s1" "sy_loop (loop_step ?s1) \<noteq> LoopRecv"
      using idle(6) by (auto simp: loop_step_def begin_drain_def dest: arg_cong[where f = sy_loop])
    ultimately have "length (sy_tasks s) < length (sy_tasks s')"
      using queue_head_starts[OF assms(1) Cons _ run] assms(2) Cons loop by auto
    then have "started \<noteq> []" using arg_cong[OF st, of length] by auto
    then show ?thesis using arg_cong[OF sum, of size] by (cases started) auto
  qed
  with idle' st sum show ?thesis by blast
qed

lemma query_settles_exists: "resting_node g tot s \<Longrightarrow> \<exists>s'. query_settles s s'"
proof -
  assume idle: "resting_node g tot s"
  have "locks_ok (snd (get_task_status_send id_default 0 s))"
    using resting_nodeD(1)[OF idle] by (simp add: get_task_status_send_def send_command_def locks_ok_def)
  from node_rests[OF this] show ?thesis unfolding query_settles_def by blast
qed

lemma queries_served:
  assumes "resting_node g tot s" "\<forall>t\<in>set (sy_pending s). can_satisfy tot (ts_required_resources t)"
  shows "(\<exists>s'. (query_settles ^^ k) s s') \<and> (\<forall>s'. (query_settles ^^ k) s s' \<longrightarrow> resting_node g tot s' \<and>
       length (sy_pending s') \<le> length (sy_pending s) - k \<and>
       (\<exists>started. map d_spec (sy_tasks s') = map d_spec (sy_tasks s) @ started
          \<and> mset started + mset (sy_pending s') = mset (sy_pending s)))"
proof (induction k)
  case 0
  show ?case using assms(1) by auto
next
  case (Suc k)
  have next_query: "resting_node g tot s' \<and> length (sy_pending s') \<le> length (sy_pending s) - Suc k \<and>
      (\<exists>started. map d_spec (sy_tasks s') = map d_spec (sy_tasks s) @ started
         \<and> mset started + mset (sy_pending s') = mset (sy_pending s))"
    if before: "(query_settles ^^ k) s s1" "query_settles s1 s'" for s1 s'
  proof -
    obtain st1 where s1: "resting_node g tot s1" "length (sy_pending s1) \<le> length (sy_pending s) - k"
      "map d_spec (sy_tasks s1) = map d_spec (sy_tasks s) @ st1" "mset st1 + mset (sy_pending s1) = mset (sy_pending s)"
      using Suc.IH before(1) by blast
    have "set (sy_pending s1) \<subseteq> set (sy_pending s)" using s1(4) by (metis mset_subset_eq_add_right set_mset_mono set_mset_mset)
    then have fit: "\<forall>t\<in>set (sy_pending s1). can_satisfy tot (ts_required_resources t)" using assms(2) by blast
    obtain st2 where s2: "resting_node g tot s'" "length (sy_pending s') \<le> length (sy_pending s1) - 1"
      "map d_spec (sy_tasks s') = map d_spec (sy_tasks s1) @ st2" "mset st2 + mset (sy_pending s') = mset (sy_pending s1)"
      using query_settles_idle[OF s1(1) fit before(2)] by blast
    have "mset (st1 @ st2) + mset (sy_pending s') = mset (sy_pending s)" using s1(4) s2(4) by (simp add: add.assoc)
    with s1 s2 show ?thesis by (auto intro!: exI[of _ "st1 @ st2"])
  qed
  obtain s1 where "(query_settles ^^ k) s s1" "resting_node g tot s1" using Suc.IH by blast
  moreover then obtain s' where "query_settles s1 s'" using query_settles_exists by blast
  ultimately have "\<exists>s'. (query_settles ^^ Suc k) s s'" by auto
  with next_query show ?case by (auto simp: relcompp_apply)
qed

section \<open>A loop that waits\<close>

text \<open>While the loop waits for a command, background tasks change neither the queue nor what was dispatched.\<close>

lemma waiting_loop_step:
  assumes "sy_channel s = []" "sy_loop s = LoopRecv \<or> sy_loop s = LoopExited" "node_step s s'"
  shows "sy_channel s' = []" "sy_loop s' = LoopRecv \<or> sy_loop s' = LoopExited" "sy_pending s' = sy_pending s"
    "map d_spec (sy_tasks s') = map d_spec (sy_tasks s)"
  using assms(1,2) by (cases rule: node_step.cases[OF assms(3)]; auto simp: loop_step_def)+

lemma waiting_loop_steps:
  "node_step\<^sup>*\<^sup>* s s' \<Longrightarrow> sy_channel s = [] \<Longrightarrow> sy_loop s = LoopRecv \<or> sy_loop s = LoopExited \<Longrightarrow>
   sy_channel s' = [] \<and> (sy_loop s' = LoopRecv \<or> sy_loop s' = LoopExited) \<and> sy_pending s' = sy_pending s
     \<and> map d_spec (sy_tasks s') = map d_spec (sy_tasks s)"
proof (induction rule: rtranclp_induct)
  case (step s1 s2)
  then show ?case using waiting_loop_step[of s1 s2] by simp
qed simp

lemma drain_empties_queue:
  "(sys_step P)\<^sup>*\<^sup>* s s' \<Longrightarrow> sy_loop s = LoopRecv \<Longrightarrow> \<forall>todo still. sy_loop s' = LoopDrain todo still \<longrightarrow> sy_pending s' = []"
proof (induction rule: rtranclp_induct)
  case (step s1 s2)
  from step.hyps(2) step.IH[OF step.prems] show ?case
    by cases (auto simp: send_command_def loop_step_def begin_drain_def Let_def split_beta
        split: loop_pc.splits list.splits if_splits)
qed simp

section \<open>Properties\<close>

text \<open>
  C7. The queue is served as long as somebody asks. On a node at rest whose queued tasks each fit the
  whole node, \<open>k\<close> status queries, each followed by any run in which the node comes to rest again,
  leave at least \<open>k\<close> tasks fewer in the queue; the tasks that left it were dispatched, none was lost or run
  twice, and all have ended. So as many queries as queued tasks run them all.
\<close>

theorem queries_serve_queue:
  assumes "res_grid g tot" "os_inv store"
    and "(sys_step (\<lambda>spec. res_grid g (ts_required_resources spec)))\<^sup>*\<^sup>*
           (scheduler_new (rm_new tot) ex store (wp_new n)) s"
    and "at_rest node_act s" "\<not> sy_senders_dropped s"
    and "\<forall>t\<in>set (sy_pending s). can_satisfy tot (ts_required_resources t)"
  shows "(\<exists>s'. (query_settles ^^ k) s s') \<and>
    (\<forall>s'. (query_settles ^^ k) s s' \<longrightarrow>
       length (sy_pending s') \<le> length (sy_pending s) - k \<and> live_tasks s' = [] \<and>
       (\<exists>started. map d_spec (sy_tasks s') = map d_spec (sy_tasks s) @ started
          \<and> mset started + mset (sy_pending s') = mset (sy_pending s)))"
proof -
  have locks: "locks_ok s" using sys_steps_locks[OF assms(3) locks_ok_new[OF assms(2)]] .
  have "sy_loop s = LoopRecv"
    using node_at_rest[OF locks] assms(4,5) exited_reach[OF assms(3)] by (auto simp: scheduler_new_def)
  moreover have "rm_total (sy_rm s) = tot" using sys_steps_rm_total[OF assms(3)] by (simp add: scheduler_new_def rm_new_def)
  ultimately have "resting_node g tot s"
    using locks assms(4,5) sys_steps_accounts[OF assms(3) sys_accounts_new[OF assms(1)]] by (simp add: resting_node_def)
  then have served: "(\<exists>s'. (query_settles ^^ k) s s') \<and> (\<forall>s'. (query_settles ^^ k) s s' \<longrightarrow> resting_node g tot s' \<and>
       length (sy_pending s') \<le> length (sy_pending s) - k \<and>
       (\<exists>started. map d_spec (sy_tasks s') = map d_spec (sy_tasks s) @ started
          \<and> mset started + mset (sy_pending s') = mset (sy_pending s)))"
    using assms(6) by (rule queries_served)
  then show ?thesis using resting_nodeD(4) by blast
qed

theorem queries_serve_queue_witness:
  "\<exists>s s'. sy_pending s = [cpu_task 2 1 []] \<and> query_settles s s' \<and> sy_pending s' = [] \<and> live_tasks s' = []"
proof -
  let ?tot = "res_set resources_new ''CPU'' (f64_of_nat 1)"
  obtain s where s: "(sys_step (\<lambda>spec. res_grid 1074 (ts_required_resources spec)))\<^sup>*\<^sup>* (cpu_system 1) s"
    "sy_pending s = [cpu_task 2 1 []]" "\<not> sy_senders_dropped s" "loop_step s = s"
    "\<And>wid pid now i. task_step wid pid now i s = s"
    using starved_queue by blast
  have "node_act a c s = s" for a c using s(4,5) by (cases "(a, c, s)" rule: node_act.cases) auto
  then have rest: "at_rest node_act s" by (simp add: at_rest_def)
  have fits: "\<forall>t\<in>set (sy_pending s). can_satisfy ?tot (ts_required_resources t)"
    by (simp add: s(2) cpu_task_def f64_of_nat_cmp)
  have "res_grid 1074 ?tot" "os_inv (os_new 0)" by (simp_all add: os_inv_def os_new_def)
  from queries_serve_queue[OF this s(1)[unfolded cpu_system_def] rest s(3) fits, of 1] s(2) show ?thesis by auto
qed

text \<open>
  C34. A release does not wake the queue. From any reachable state in which the loop waits for a command, under every fair
  schedule: the tasks in progress come to their end and give everything back, so that from some point on every queued task
  that fits the node fits what is available; yet the queue stays as it is and nothing is
  dispatched, for ever. Only another command moves it.
\<close>

theorem release_does_not_wake_queue:
  assumes "res_grid g tot" "os_inv store"
    and "(sys_step (\<lambda>spec. res_grid g (ts_required_resources spec)))\<^sup>*\<^sup>*
           (scheduler_new (rm_new tot) ex store (wp_new n)) (run 0)"
    and "sy_loop (run 0) = LoopRecv" "sy_channel (run 0) = []" "behaviour node_act who run" "fair_schedule who"
  shows "(\<forall>k. sy_pending (run k) = sy_pending (run 0) \<and> map d_spec (sy_tasks (run k)) = map d_spec (sy_tasks (run 0)))
    \<and> (\<exists>N. \<forall>k\<ge>N. live_tasks (run k) = [] \<and>
         (\<forall>req. can_satisfy (rm_available (sy_rm (run k))) req = can_satisfy tot req))"
proof
  have "node_step\<^sup>*\<^sup>* (run 0) (run k)" for k
    using behaviour_steps[OF assms(6), of node_step 0 k] node_act_step by simp
  from waiting_loop_steps[OF this] assms(4,5)
  show "\<forall>k. sy_pending (run k) = sy_pending (run 0) \<and> map d_spec (sy_tasks (run k)) = map d_spec (sy_tasks (run 0))" by simp
  show "\<exists>N. \<forall>k\<ge>N. live_tasks (run k) = [] \<and>
      (\<forall>req. can_satisfy (rm_available (sy_rm (run k))) req = can_satisfy tot req)"
    using fair_node_rests[OF assms(1-3,6,7)] can_satisfy_cong by blast
qed

theorem release_does_not_wake_queue_witness:
  "\<exists>s. let run = follow node_act round_schedule (\<lambda>_. (id_default, 7, 0)) s; waits = cpu_task 2 1 []
     in sy_pending s = [waits] \<and> \<not> can_satisfy (rm_available (sy_rm s)) (ts_required_resources waits) \<and>
        (\<exists>N. \<forall>k\<ge>N. can_satisfy (rm_available (sy_rm (run k))) (ts_required_resources waits) \<and> sy_pending (run k) = [waits])"
proof -
  let ?tot = "res_set resources_new ''CPU'' (f64_of_nat 1)" and ?b = "cpu_task 2 1 []"
  obtain s where s: "(sys_step (\<lambda>spec. res_grid 1074 (ts_required_resources spec)))\<^sup>*\<^sup>* (cpu_system 1) s"
    "sy_channel s = []" "sy_pending s = [?b]" "sy_loop s = LoopRecv" "\<not> can_satisfy (rm_available (sy_rm s)) (ts_required_resources ?b)"
    using blocked_queue by blast
  let ?run = "follow node_act round_schedule (\<lambda>_. (id_default, 7, 0)) s"
  have "res_grid 1074 ?tot" "os_inv (os_new 0)" by (simp_all add: os_inv_def os_new_def)
  note main = release_does_not_wake_queue[OF this _ _ _ behaviour_follow round_schedule_fair, of LocalExecutor 2 _ s]
  have "can_satisfy ?tot (ts_required_resources ?b)" by (simp add: cpu_task_def f64_of_nat_cmp)
  moreover have "(\<forall>k. sy_pending (?run k) = sy_pending s) \<and>
      (\<exists>N. \<forall>k\<ge>N. \<forall>req. can_satisfy (rm_available (sy_rm (?run k))) req = can_satisfy ?tot req)"
    using main[of "\<lambda>_. (id_default, 7, 0)"] s(1,2,4) unfolding cpu_system_def by auto
  ultimately show ?thesis using s(3,5) unfolding Let_def by (intro exI[of _ s]) metis
qed

text \<open>
  C31. Shutting the runtime down ends its node. Under every fair schedule, from some point on, for ever: the event loop has
  handled every command that was sent and has exited, so nothing can be sent any more; every task that was started has
  ended, and every resource is back. The tasks that were waiting when the shutdown
  began were each started once or are left in the queue, never to be started, unless a cancellation under
  way removed them; without such a cancellation none is missing.
\<close>

theorem shutdown_ends_node:
  assumes "res_grid g tot" "os_inv store"
    and "(sys_step (\<lambda>spec. res_grid g (ts_required_resources spec)))\<^sup>*\<^sup>*
           (scheduler_new (rm_new tot) ex store (wp_new n)) (lr_system rt)"
    and "behaviour node_act who run" "fair_schedule who" "run 0 = shutdown rt"
  shows "\<exists>N. \<forall>k\<ge>N. run k = run N \<and> sy_loop (run k) = LoopExited \<and> sy_channel (run k) = []
    \<and> (\<forall>cmd. send_command cmd (run k) = (Some (Inl channel_closed), run k))
    \<and> live_tasks (run k) = [] \<and> (\<forall>r. res_get (rm_available (sy_rm (run k))) r = res_get tot r)
    \<and> (\<exists>started. map d_spec (sy_tasks (run k)) = map d_spec (sy_tasks (lr_system rt)) @ started
         \<and> mset started + mset (sy_pending (run k)) \<subseteq># mset (waiting (lr_system rt))
         \<and> ((\<forall>tid. CancelTask tid \<notin> set (sy_channel (lr_system rt))) \<longrightarrow>
              mset started + mset (sy_pending (run k)) = mset (waiting (lr_system rt))))"
proof -
  let ?P = "\<lambda>spec. res_grid g (ts_required_resources spec)" and ?s = "lr_system rt"
  have "sys_step ?P ?s (run 0)" unfolding assms(6) shutdown_def by (rule sys_step.drop_senders)
  with assms(3) have reach: "(sys_step ?P)\<^sup>*\<^sup>* (scheduler_new (rm_new tot) ex store (wp_new n)) (run 0)" by simp
  obtain N where N: "\<And>k. N \<le> k \<Longrightarrow> run k = run N \<and> live_tasks (run k) = [] \<and> sy_channel (run k) = []
      \<and> sy_loop (run k) = (if sy_senders_dropped (run k) then LoopExited else LoopRecv)
      \<and> (\<forall>r. res_get (rm_available (sy_rm (run k))) r = res_get tot r)"
    using fair_node_rests[OF assms(1,2) reach assms(4,5)] by blast
  have steps: "node_step\<^sup>*\<^sup>* (run 0) (run k)" for k
    using behaviour_steps[OF assms(4), of node_step 0 k] node_act_step by simp
  have start: "sy_tasks (run 0) = sy_tasks ?s" "waiting (run 0) = waiting ?s" "sy_channel (run 0) = sy_channel ?s"
    "sy_senders_dropped (run 0)"
    by (simp_all add: assms(6) shutdown_def waiting_def)
  have drained: "\<forall>todo still. sy_loop (run 0) = LoopDrain todo still \<longrightarrow> sy_pending (run 0) = []"
    using drain_empties_queue[OF reach] by (simp add: scheduler_new_def)
  have "sy_loop (run k) = LoopExited \<and> (\<exists>started. map d_spec (sy_tasks (run k)) = map d_spec (sy_tasks ?s) @ started
      \<and> mset started + mset (sy_pending (run k)) \<subseteq># mset (waiting ?s)
      \<and> ((\<forall>tid. CancelTask tid \<notin> set (sy_channel ?s)) \<longrightarrow> mset started + mset (sy_pending (run k)) = mset (waiting ?s)))"
    if k: "N \<le> k" for k
  proof -
    have "sy_senders_dropped (run k)" using node_steps_senders[OF steps] start(4) by blast
    then have loop: "sy_loop (run k) = LoopExited" using N[OF k] by metis
    moreover have "sy_channel (run k) = []" using N[OF k] by blast
    ultimately have w: "waiting (run k) = sy_pending (run k)" by (simp add: waiting_def)
    obtain started where st: "map d_spec (sy_tasks (run k)) = map d_spec (sy_tasks ?s) @ started"
        "mset started + mset (sy_pending (run k)) \<subseteq># mset (waiting ?s)"
      using node_steps_new[OF steps[of k]] unfolding w start by blast
    moreover have "mset started + mset (sy_pending (run k)) = mset (waiting ?s)" if "\<forall>tid. CancelTask tid \<notin> set (sy_channel ?s)"
    proof -
      have "all_specs (run k) = all_specs (run 0)"
        using node_steps_all_specs[OF steps] that drained start(3) by (simp add: no_cancels_def)
      then show ?thesis using st(1) w start by (simp add: all_specs_def flip: mset_map)
    qed
    ultimately show ?thesis using loop by blast
  qed
  moreover have "send_command cmd (run k) = (Some (Inl channel_closed), run k)" if "sy_loop (run k) = LoopExited" for cmd k
    using that by (simp add: send_command_def)
  ultimately show ?thesis using N by (intro exI[of _ N] allI impI conjI) blast+
qed

theorem shutdown_ends_node_witness:
  "\<exists>N. \<forall>k\<ge>N. let s = follow node_act round_schedule (\<lambda>_. (id_default, 7, 0)) (shutdown (demo_runtime 4)) k
     in sy_loop s = LoopExited \<and> (\<forall>cmd. send_command cmd s = (Some (Inl channel_closed), s))"
proof -
  let ?tot = "res_set resources_new ''CPU'' (f64_of_nat 4)"
  have "lr_system (demo_runtime 4) = scheduler_new (rm_new ?tot) (Registry fr_new) (os_new 0) (wp_new 2)"
    by (simp add: demo_runtime_def runtime_new_def Let_def)
  then have reach: "(sys_step (\<lambda>spec. res_grid 1074 (ts_required_resources spec)))\<^sup>*\<^sup>*
      (scheduler_new (rm_new ?tot) (Registry fr_new) (os_new 0) (wp_new 2)) (lr_system (demo_runtime 4))" by simp
  have "res_grid 1074 ?tot" "os_inv (os_new 0)" by (simp_all add: os_inv_def os_new_def)
  from shutdown_ends_node[OF this reach behaviour_follow round_schedule_fair follow.simps(1)] show ?thesis
    unfolding Let_def by blast
qed

end
