(* ===== verification/Batch_Runs.thy ===== *)
theory Batch_Runs
  imports Queue_Progress
begin

text \<open>
  Several tasks at once on a node of \<^verbatim>\<open>crates/ray-raylet/src/scheduler.rs\<close>, under any order of steps.
  A batch of tasks is submitted to a node at rest, which may have tasks in its queue. If the batch and the queue
  fit the node together, then every task finds its resources whenever the loop comes to it
  (\<open>roomy_fits\<close>), so the queue is empty when the node comes to rest, and all of them were run (\<open>batch_all_started\<close>).
  While the node runs, the place of each result is empty or holds the result (\<open>batch_meanwhile\<close>); at rest it
  holds it (\<open>batch_result\<close>), and all other objects are as before (\<open>batch_others\<close>).
  With the polling loop of \<^verbatim>\<open>get\<close> this says what a client is answered (\<open>awaited_answer\<close>).
\<close>

section \<open>Tasks that fit together\<close>

definition requests :: "TaskSpec list \<Rightarrow> Resources multiset" where
  "requests ts = mset (map ts_required_resources ts)"

definition fits_together :: "Resources \<Rightarrow> TaskSpec list \<Rightarrow> bool" where
  "fits_together tot ts \<longleftrightarrow> (\<forall>n. held_units (requests ts) n \<le> res_units tot n)"

text \<open>What is held and what waits fit the node together.\<close>

definition roomy :: "nat \<Rightarrow> Resources \<Rightarrow> System \<Rightarrow> bool" where
  "roomy g tot s \<longleftrightarrow>
     locks_ok s \<and> sys_accounts g {#} s \<and> rm_total (sy_rm s) = tot \<and>
     (\<forall>n. held_units (held_requests s + requests (waiting s)) n \<le> res_units tot n)"

lemma held_units_mono:
  assumes "A \<subseteq># B" "\<forall>r\<in>#B. res_grid g r"
  shows "held_units A n \<le> held_units B n"
proof -
  obtain C where C: "B = A + C" using assms(1) by (metis subset_mset.add_diff_inverse)
  then have "0 \<le> held_units C n" using assms(2) by (intro held_units_nonneg[of _ g]) simp
  then show ?thesis by (simp add: C held_units_def)
qed

lemma sys_accounts_grid: "sys_accounts g {#} s \<Longrightarrow> r \<in># held_requests s + requests (waiting s) \<Longrightarrow> res_grid g r"
  by (auto simp: sys_accounts_def rm_accounts_def requests_def)

lemma roomy_fits:
  assumes "roomy g tot s" "t \<in> set (waiting s)"
  shows "can_satisfy (rm_available (sy_rm s)) (ts_required_resources t)"
proof -
  let ?req = "ts_required_resources t"
  have acc: "sys_accounts g {#} s" using assms(1) by (simp add: roomy_def)
  have in_req: "{#?req#} + held_requests s \<subseteq># held_requests s + requests (waiting s)"
    using assms(2) by (auto simp: requests_def)
  have grid: "\<forall>r\<in>#held_requests s + requests (waiting s). res_grid g r" using sys_accounts_grid[OF acc] by blast
  have "res_units ?req n + held_units (held_requests s) n \<le> res_units tot n" for n
  proof -
    have "held_units (held_requests s + requests (waiting s)) n \<le> res_units tot n" using assms(1) by (simp add: roomy_def)
    with held_units_mono[OF in_req grid, of n] show ?thesis by simp
  qed
  moreover have "res_units (rm_available (sy_rm s)) n + held_units (held_requests s) n = res_units tot n" for n
    using assms(1) by (auto simp: roomy_def sys_accounts_def rm_accounts_def)
  ultimately have "res_units ?req n \<le> res_units (rm_available (sy_rm s)) n" for n by (metis add_le_cancel_right)
  moreover have "res_grid g (rm_available (sy_rm s))" "res_grid g ?req"
    using acc assms(2) by (auto simp: sys_accounts_def rm_accounts_def)
  ultimately show ?thesis using can_satisfy_grid by blast
qed

text \<open>What is held and what waits only shrinks: a step moves requests from one side to the other or gives them back.\<close>

lemma task_step_held: "held_requests (task_step wid pid now i s) \<subseteq># held_requests s"
proof (cases "i < length (sy_tasks s)")
  case True
  let ?d = "sy_tasks s ! i"
  have "d_pc ?d = DDone \<Longrightarrow> fst (advance_task wid pid now (d_spec ?d) (d_pc ?d) s) = DDone" by (simp add: advance_task_def)
  with mset_map_filter_update[OF True, of "\<lambda>d. ts_required_resources (d_spec d)" "\<lambda>d. d_pc d \<noteq> DDone"] show ?thesis
    by (auto simp: held_requests_def live_tasks_def task_step_eq[OF True])
qed (simp add: task_step_out)

lemma node_step_requests:
  "node_step s s' \<Longrightarrow> held_requests s' + requests (waiting s') \<subseteq># held_requests s + requests (waiting s)"
proof (induction rule: node_step.induct)
  case (loop s)
  obtain new where new: "sy_tasks (loop_step s) = sy_tasks s @ map new_dispatch new"
      "mset new + mset (waiting (loop_step s)) \<subseteq># mset (waiting s)" using loop_step_new[of s] by blast
  have "held_requests (loop_step s) = held_requests s + requests new"
    by (simp add: held_requests_def live_tasks_def new(1) new_dispatch_def requests_def comp_def)
  moreover have "requests new + requests (waiting (loop_step s)) \<subseteq># requests (waiting s)"
    using image_mset_subseteq_mono[OF new(2), of ts_required_resources] by (simp add: requests_def)
  ultimately show ?case by (simp add: add.assoc subset_mset.add_left_mono)
next
  case (task s wid pid now i)
  then show ?case using task_step_held by (simp add: subset_mset.add_right_mono)
qed

lemma roomy_step:
  assumes "node_step s s'" "roomy g tot s" shows "roomy g tot s'"
proof -
  have step: "(sys_step (\<lambda>spec. res_grid g (ts_required_resources spec)))\<^sup>*\<^sup>* s s'"
    using assms(1) by (intro node_sys_steps) simp
  have "\<forall>r\<in>#held_requests s + requests (waiting s). res_grid g r"
    using sys_accounts_grid assms(2) by (auto simp: roomy_def)
  note held_units_mono[OF node_step_requests[OF assms(1)] this]
  then show ?thesis
    using assms(2) sys_steps_locks[OF step] sys_steps_accounts[OF step] sys_steps_rm_total[OF step]
    by (auto simp: roomy_def intro: order_trans)
qed

text \<open>The loop keeps nothing back: its queue is empty, and what it visits it starts.\<close>

definition serving :: "System \<Rightarrow> bool" where
  "serving s \<longleftrightarrow> sy_pending s = [] \<and> \<not> sy_senders_dropped s \<and> (sy_loop s = LoopRecv \<or> (\<exists>todo. sy_loop s = LoopDrain todo []))"

lemma serving_step:
  assumes "node_step s s'" "roomy g tot s" "serving s" shows "serving s'"
  using assms(1)
proof cases
  case loop
  have starts: "fst (try_start t s)" if "t \<in> set (waiting s)" for t
    using roomy_fits[OF assms(2) that] by (simp add: try_start_def try_allocate_def Let_def)
  consider "sy_loop s = LoopRecv" "sy_channel s = []" | cmd rest where "sy_loop s = LoopRecv" "sy_channel s = cmd # rest"
    | "sy_loop s = LoopDrain [] []" | t todo where "sy_loop s = LoopDrain (t # todo) []"
    using assms(3) by (auto simp: serving_def) (meson list.exhaust)+
  then show ?thesis
  proof cases
    case 4
    then have "fst (try_start t s)" by (intro starts) (simp add: waiting_def)
    then show ?thesis using 4 loop assms(3) by (simp add: serving_def loop_step_def Let_def split_beta)
  qed (use loop assms(3) in \<open>auto simp: serving_def loop_step_def begin_drain_def\<close>)
qed (use assms(3) in \<open>simp add: serving_def\<close>)

lemma serving_steps: "node_step\<^sup>*\<^sup>* s s' \<Longrightarrow> roomy g tot s \<Longrightarrow> serving s \<Longrightarrow> roomy g tot s' \<and> serving s'"
  by (induction rule: rtranclp_induct) (auto intro: roomy_step serving_step)

lemma serving_at_rest:
  "roomy g tot s \<Longrightarrow> serving s \<Longrightarrow> at_rest node_act s \<longleftrightarrow> sy_loop s = LoopRecv \<and> sy_channel s = [] \<and> live_tasks s = []"
  using node_at_rest[of s] by (auto simp: roomy_def serving_def)

text \<open>With no task in progress only the event loop can make the first step.\<close>

lemma loop_first:
  assumes "node_step\<^sup>*\<^sup>* s s'" "live_tasks s = []"
  shows "s' = s \<or> node_step\<^sup>*\<^sup>* (loop_step s) s'"
  using assms
proof (induction rule: converse_rtranclp_induct)
  case (step s1 s2)
  from step.hyps(1) show ?case
  proof cases
    case (task wid pid now i)
    have "task_step wid pid now i s1 = s1"
      using step.prems by (intro task_step_done) (auto simp: live_tasks_def filter_empty_conv)
    then show ?thesis using step task by simp
  qed (use step.hyps(2) in simp)
qed simp

section \<open>A batch submitted to a node at rest\<close>

definition sent_batch :: "TaskSpec list \<Rightarrow> System \<Rightarrow> System" where
  "sent_batch ts s = s\<lparr>sy_channel := map SubmitTask ts\<rparr>"

lemma submitted_map [simp]: "submitted (map SubmitTask ts) = ts"
  by (induction ts) simp_all

text \<open>
  The node is at rest, each result of the batch and of the queue has its own place, and the store has no
  limit or room for all of them.
\<close>

definition takes :: "nat \<Rightarrow> Resources \<Rightarrow> TaskSpec list \<Rightarrow> System \<Rightarrow> bool" where
  "takes g tot ts s \<longleftrightarrow>
     resting_node g tot s \<and> (\<forall>t\<in>set ts. res_grid g (ts_required_resources t)) \<and>
     distinct (return_keys (sy_pending s @ ts)) \<and> room_for (demand (sy_executor s) (sy_pending s @ ts)) (sy_store s)"

lemma takesD:
  assumes "takes g tot ts s"
  shows "live_tasks (sent_batch ts s) = []" "os_inv (sy_store (sent_batch ts s))"
    "room_for (demand (sy_executor (sent_batch ts s)) (waiting (sent_batch ts s))) (sy_store (sent_batch ts s))"
    "distinct (return_keys (waiting (sent_batch ts s)))" "locks_ok (sent_batch ts s)"
    "waiting (sent_batch ts s) = sy_pending s @ ts" "sys_accounts g {#} (sent_batch ts s)" "sy_loop s = LoopRecv"
    "rm_total (sy_rm s) = tot" "\<not> sy_senders_dropped s" "sy_channel s = []" "live_tasks s = []" "no_cancels (sent_batch ts s)"
proof -
  have rest: "resting_node g tot s" using assms by (simp add: takes_def)
  note idle = resting_nodeD[OF rest]
  show w: "waiting (sent_batch ts s) = sy_pending s @ ts" using idle by (simp add: sent_batch_def waiting_def)
  show "locks_ok (sent_batch ts s)" "live_tasks (sent_batch ts s) = []" "os_inv (sy_store (sent_batch ts s))"
    using idle by (simp_all add: sent_batch_def locks_ok_def live_tasks_def)
  show "sys_accounts g {#} (sent_batch ts s)"
    using assms idle(2,8) held_requests_cong[of "sent_batch ts s" s] w
    by (auto simp: takes_def sys_accounts_def sent_batch_def)
  show "room_for (demand (sy_executor (sent_batch ts s)) (waiting (sent_batch ts s))) (sy_store (sent_batch ts s))"
    "distinct (return_keys (waiting (sent_batch ts s)))"
    using assms unfolding w by (simp_all add: sent_batch_def takes_def)
  show "no_cancels (sent_batch ts s)" using idle by (auto simp: no_cancels_def sent_batch_def)
  show "sy_loop s = LoopRecv" "rm_total (sy_rm s) = tot" "\<not> sy_senders_dropped s" "sy_channel s = []" "live_tasks s = []"
    using idle by simp_all
qed

lemma batch_started:
  assumes "takes g tot ts s" "node_step\<^sup>*\<^sup>* (sent_batch ts s) s'"
  obtains n ds where "sy_tasks s' = sy_tasks s @ ds" "set (map d_spec ds) \<subseteq> set (sy_pending s @ ts)"
    "results_inv (sy_executor s) (os_view (sy_store s)) n ds (sy_store s')"
proof -
  note ok = takesD[OF assms(1)]
  have same: "sy_tasks (sent_batch ts s) = sy_tasks s" "sy_store (sent_batch ts s) = sy_store s"
    "sy_executor (sent_batch ts s) = sy_executor s" by (simp_all add: sent_batch_def)
  from node_steps_inv[OF assms(2) node_inv_begin[OF ok(1-4)]] obtain n ds where ds: "sy_tasks s' = sy_tasks s @ ds"
    "results_inv (sy_executor s) (os_view (sy_store s)) n ds (sy_store s')" by (auto simp: node_inv_def same)
  obtain started where st: "map d_spec (sy_tasks s') = map d_spec (sy_tasks s) @ started"
    "mset started + mset (waiting s') \<subseteq># mset (waiting (sent_batch ts s))"
    using node_steps_new[OF assms(2)] by (auto simp: same)
  have "set started \<subseteq> set (waiting (sent_batch ts s))"
    using set_mset_mono[OF subset_mset.order_trans[OF mset_subset_eq_add_left st(2)]] by simp
  moreover have "map d_spec ds = started" using st(1) ds(1) by simp
  ultimately show thesis using that ds ok(6) by auto
qed

text \<open>What is found under the first return identifier of a task when it has ended.\<close>

definition task_result :: "TaskExecutor \<Rightarrow> TaskSpec \<Rightarrow> bytes option" where
  "task_result ex t = (case execute ex t of Inr data \<Rightarrow> Some data | Inl e \<Rightarrow> None)"

lemma result_entry_first: "ts_return_ids t = r # rids \<Longrightarrow> result_entry ex t = map_option (Pair r) (task_result ex t)"
  by (simp add: result_entry_def task_result_def split: sum.splits)

lemma own_key:
  assumes "distinct (return_keys ts)" "t \<in> set ts" "t' \<in> set ts"
    and "r \<in> set (take 1 (ts_return_ids t))" "r \<in> set (take 1 (ts_return_ids t'))"
  shows "t' = t"
proof -
  obtain i j where "i < length ts" "t = ts ! i" "j < length ts" "t' = ts ! j" using assms(2,3) by (metis in_set_conv_nth)
  with distinct_concat_nth[of "\<lambda>t. take 1 (ts_return_ids t)" ts i j r] assms show ?thesis by (simp add: return_keys_def)
qed

lemma batch_meanwhile:
  assumes "takes g tot ts s" "node_step\<^sup>*\<^sup>* (sent_batch ts s) s'"
    and "t \<in> set ts" "ts_return_ids t = r # rids" "os_view (sy_store s) r = None"
  shows "os_view (sy_store s') r \<in> {None, task_result (sy_executor s) t}"
proof -
  let ?ex = "sy_executor s"
  note ok = takesD[OF assms(1)]
  obtain n ds where ds: "set (map d_spec ds) \<subseteq> set (sy_pending s @ ts)" "results_inv ?ex (os_view (sy_store s)) n ds (sy_store s')"
    using batch_started[OF assms(1,2)] by metis
  show ?thesis
  proof (cases "\<exists>d\<in>set ds. \<exists>data. delivered ?ex d = Some (r, data)")
    case True
    then obtain d data where d: "d \<in> set ds" "delivered ?ex d = Some (r, data)" by blast
    then have entry: "result_entry ?ex (d_spec d) = Some (r, data)" by (auto simp: delivered_def split: if_splits)
    have "d_spec d \<in> set (sy_pending s @ ts)" using ds(1) d(1) by auto
    then have "d_spec d = t"
      using own_key[OF ok(4)[unfolded ok(6)], of t "d_spec d" r] result_entry_key[OF entry] assms(3,4) by auto
    then have "task_result ?ex t = Some data" using entry result_entry_first[OF assms(4)] by auto
    then show ?thesis using ds(2) d by (auto simp: results_inv_def)
  next
    case False
    then have "os_view (sy_store s') r = None" using ds(2) assms(5) by (auto simp: results_inv_def)
    then show ?thesis by simp
  qed
qed

lemma batch_others:
  assumes "takes g tot ts s" "node_step\<^sup>*\<^sup>* (sent_batch ts s) s'" "oid \<notin> set (return_keys (sy_pending s @ ts))"
  shows "os_view (sy_store s') oid = os_view (sy_store s) oid"
proof -
  let ?ex = "sy_executor s"
  obtain n ds where ds: "set (map d_spec ds) \<subseteq> set (sy_pending s @ ts)" "results_inv ?ex (os_view (sy_store s)) n ds (sy_store s')"
    using batch_started[OF assms(1,2)] by metis
  have "delivered ?ex d \<noteq> Some (oid, data)" if "d \<in> set ds" for d data
  proof
    assume "delivered ?ex d = Some (oid, data)"
    then have "oid \<in> set (take 1 (ts_return_ids (d_spec d)))" by (rule delivered_key)
    moreover have "d_spec d \<in> set (sy_pending s @ ts)" using ds(1) that by auto
    ultimately show False using assms(3) by (auto simp: return_keys_def)
  qed
  then show ?thesis using ds(2) by (auto simp: results_inv_def)
qed

lemma batch_live: "takes g tot ts s \<Longrightarrow> node_step\<^sup>*\<^sup>* (sent_batch ts s) s' \<Longrightarrow> at_rest node_act s' \<Longrightarrow> live_tasks s' = []"
  using node_at_rest sys_steps_locks[OF node_sys_steps] takesD(5) by blast

text \<open>At rest, a task of the batch that was started has left its result.\<close>

lemma batch_result:
  assumes "takes g tot ts s" "node_step\<^sup>*\<^sup>* (sent_batch ts s) s'" "at_rest node_act s'"
    and "t \<in> set ts" "ts_return_ids t = r # rids" "os_view (sy_store s) r = None"
    and "t \<in> set (map d_spec (drop (length (sy_tasks s)) (sy_tasks s')))"
  shows "os_view (sy_store s') r = task_result (sy_executor s) t"
proof (cases "task_result (sy_executor s) t")
  case None
  then show ?thesis using batch_meanwhile[OF assms(1,2,4-6)] by simp
next
  case (Some data)
  obtain n ds where ds: "sy_tasks s' = sy_tasks s @ ds" "results_inv (sy_executor s) (os_view (sy_store s)) n ds (sy_store s')"
    using batch_started[OF assms(1,2)] by metis
  obtain d where d: "d \<in> set ds" "d_spec d = t" using assms(7) ds(1) by auto
  have "d_pc d = DDone" using batch_live[OF assms(1-3)] ds(1) d(1) by (auto simp: live_tasks_def filter_empty_conv)
  then have "delivered (sy_executor s) d = Some (r, data)"
    using d(2) Some result_entry_first[OF assms(5)] by (simp add: delivered_def past_put_def)
  then show ?thesis using ds(2) d(1) Some by (auto simp: results_inv_def)
qed

text \<open>If the batch and the queue fit the node together, all of them are started.\<close>

lemma batch_roomy: "takes g tot ts s \<Longrightarrow> fits_together tot (sy_pending s @ ts) \<Longrightarrow> roomy g tot (sent_batch ts s)"
  using takesD[of g tot ts s]
  by (simp add: roomy_def fits_together_def held_requests_def) (simp add: sent_batch_def)

lemma batch_all_started:
  assumes "takes g tot ts s" "fits_together tot (sy_pending s @ ts)" "ts \<noteq> []"
    and "node_step\<^sup>*\<^sup>* (sent_batch ts s) s'" "at_rest node_act s'"
  shows "\<exists>started. map d_spec (sy_tasks s') = map d_spec (sy_tasks s) @ started \<and> mset started = mset (sy_pending s @ ts)
    \<and> sy_pending s' = [] \<and> resting_node g tot s'"
proof -
  let ?s1 = "sent_batch ts s"
  note ok = takesD[OF assms(1)]
  have roomy: "roomy g tot ?s1" by (rule batch_roomy[OF assms(1,2)])
  obtain t us where ts: "ts = t # us" using assms(3) by (cases ts) auto
  have first: "serving (loop_step ?s1)" "loop_step ?s1 \<noteq> ?s1"
    using ok(8,10) ts by (auto simp: serving_def sent_batch_def loop_step_def begin_drain_def simp del: handle_command.simps
        dest: arg_cong[where f = sy_loop])
  moreover have "loop_step s' = s'" using assms(5) node_act.simps(1) unfolding at_rest_def by metis
  ultimately have "node_step\<^sup>*\<^sup>* (loop_step ?s1) s'" using loop_first[OF assms(4) ok(1)] by auto
  from serving_steps[OF this roomy_step[OF node_step.loop roomy] first(1)]
  have s': "roomy g tot s'" "serving s'" by simp_all
  note rest = iffD1[OF serving_at_rest[OF s'] assms(5)]
  have "waiting s' = []" using rest s'(2) by (simp add: waiting_def serving_def)
  then have "mset (map d_spec (sy_tasks s')) = mset (map d_spec (sy_tasks s)) + mset (sy_pending s @ ts)"
    using node_steps_all_specs[OF assms(4) ok(13)] ok(6) by (simp add: all_specs_def sent_batch_def)
  moreover obtain started where st: "map d_spec (sy_tasks s') = map d_spec (sy_tasks s) @ started"
    using node_steps_new[OF assms(4)] by (auto simp: sent_batch_def)
  ultimately have "mset started = mset (sy_pending s @ ts)" by (simp flip: mset_map)
  moreover have "resting_node g tot s'" using s' rest assms(5) by (simp add: resting_node_def roomy_def serving_def)
  ultimately show ?thesis using st s'(2) by (simp add: serving_def)
qed

section \<open>What a client is answered\<close>

text \<open>
  Any fair run of the node from the submission on, and a \<^verbatim>\<open>get\<close> that looks at the store at any moments of the
  run, for a task that is always among those that were started when the node comes to rest.
\<close>

definition always_started :: "TaskSpec \<Rightarrow> TaskSpec list \<Rightarrow> System \<Rightarrow> bool" where
  "always_started t ts s \<longleftrightarrow> (\<forall>s'. node_step\<^sup>*\<^sup>* (sent_batch ts s) s' \<longrightarrow> at_rest node_act s' \<longrightarrow>
     t \<in> set (map d_spec (drop (length (sy_tasks s)) (sy_tasks s'))))"

lemma awaited_answer:
  assumes "takes g tot ts s" "behaviour node_act who run" "fair_schedule who" "run 0 = sent_batch ts s"
    and "t \<in> set ts" "ts_return_ids t = r # rids" "os_view (sy_store s) r = None" "always_started t ts s"
  shows "at_rest node_act (run k) \<Longrightarrow> os_view (sy_store (run k)) r = task_result (sy_executor s) t"
    and "poll_sleeps clock \<Longrightarrow> start \<le> clock 0 \<Longrightarrow>
      os_get (\<lambda>i. sy_store (run (moment i))) clock start r ms \<in>
        {Some (Inl (get_timeout_error r ms))} \<union> (\<lambda>data. Some (Inr data)) ` set_option (task_result (sy_executor s) t)"
    and "poll_sleeps clock \<Longrightarrow> start \<le> clock 0 \<Longrightarrow> task_result (sy_executor s) t = Some data \<Longrightarrow>
      at_rest node_act (run (moment i)) \<Longrightarrow> clock i \<le> start + millis ms \<Longrightarrow>
      os_get (\<lambda>i. sy_store (run (moment i))) clock start r ms = Some (Inr data)"
proof -
  have steps: "node_step\<^sup>*\<^sup>* (sent_batch ts s) (run k)" for k
    using behaviour_steps[OF assms(2), of node_step 0 k] node_act_step assms(4) by auto
  show rest: "at_rest node_act (run k) \<Longrightarrow> os_view (sy_store (run k)) r = task_result (sy_executor s) t" for k
    using batch_result[OF assms(1) steps _ assms(5-7)] assms(8) steps unfolding always_started_def by blast
  assume polls: "poll_sleeps clock" "start \<le> clock 0"
  note aw = os_get_awaited[OF polls, where stores = "\<lambda>i. sy_store (run (moment i))", OF batch_meanwhile[OF assms(1) steps assms(5-7)]]
  show "os_get (\<lambda>i. sy_store (run (moment i))) clock start r ms \<in>
      {Some (Inl (get_timeout_error r ms))} \<union> (\<lambda>data. Some (Inr data)) ` set_option (task_result (sy_executor s) t)"
    using aw(1)[of ms] by auto
  show "task_result (sy_executor s) t = Some data \<Longrightarrow> at_rest node_act (run (moment i)) \<Longrightarrow> clock i \<le> start + millis ms \<Longrightarrow>
      os_get (\<lambda>i. sy_store (run (moment i))) clock start r ms = Some (Inr data)"
    using aw(2)[where ms = ms and k = i and data = data] rest by simp
qed

lemma batch_comes_to_rest:
  assumes "takes g tot ts s" "behaviour node_act who run" "fair_schedule who" "run 0 = sent_batch ts s"
  shows "\<exists>N. \<forall>k\<ge>N. at_rest node_act (run k)"
  using fair.fair_behaviour_rests[OF assms(2) _ assms(3)] takesD(5)[OF assms(1)] assms(4) by auto

lemma together_always_started:
  assumes "takes g tot ts s" "fits_together tot (sy_pending s @ ts)" "t \<in> set ts"
  shows "always_started t ts s"
proof -
  have "t \<in> set (map d_spec (drop (length (sy_tasks s)) (sy_tasks s')))"
    if run: "node_step\<^sup>*\<^sup>* (sent_batch ts s) s'" "at_rest node_act s'" for s'
  proof -
    have "ts \<noteq> []" using assms(3) by auto
    from batch_all_started[OF assms(1,2) this run] obtain started where st:
      "map d_spec (sy_tasks s') = map d_spec (sy_tasks s) @ started" "mset started = mset (sy_pending s @ ts)" by blast
    have "map d_spec (drop (length (sy_tasks s)) (sy_tasks s')) = started"
      using arg_cong[OF st(1), of "drop (length (sy_tasks s))"] by (simp add: drop_map)
    then show ?thesis using mset_eq_setD[OF st(2)] assms(3) by simp
  qed
  then show ?thesis by (simp add: always_started_def)
qed

end
