(* ===== verification/Parallel_Calls.thy ===== *)
theory Parallel_Calls
  imports Batch_Runs
begin

text \<open>
  A batch of calls of \<^verbatim>\<open>LocalRuntime::submit_fn\<close> (\<^verbatim>\<open>crates/ray-runtime/src/lib.rs\<close>) made one after the
  other without waiting, as the parallel part of the demo does. The calls are a batch in the sense of
  \<open>Batch_Runs\<close>; \<open>node_ready\<close> is a node at rest with an empty queue and no memory limit, on which a batch of one-CPU
  tasks fits if there are as many CPUs: such a node comes to rest with every result in the store, ready
  for the next batch.
\<close>

section \<open>Calls in parallel\<close>

text \<open>A call of \<^verbatim>\<open>submit_fn\<close>: the random bytes of its three identifiers, the function and the payload.\<close>

record call_args =
  ca_uuid_return :: bytes
  ca_uuid_task :: bytes
  ca_uuid_job :: bytes
  ca_function :: string
  ca_payload :: bytes

definition call_id :: "call_args \<Rightarrow> ObjectId" where
  "call_id c = id_new (ca_uuid_return c)"

definition call_spec_of :: "call_args \<Rightarrow> TaskSpec" where
  "call_spec_of c = fn_spec (call_id c) (id_new (ca_uuid_task c)) (id_new (ca_uuid_job c)) (ca_function c) (ca_payload c)"

primrec submit_calls :: "call_args list \<Rightarrow> LocalRuntime \<Rightarrow> ObjectId RayResult option list \<times> LocalRuntime" where
  "submit_calls [] rt = ([], rt)"
| "submit_calls (c # cs) rt =
     (let (r, rt) = submit_fn (ca_uuid_return c) (ca_uuid_task c) (ca_uuid_job c) (ca_function c) (ca_payload c) rt;
          (rs, rt) = submit_calls cs rt
      in (r # rs, rt))"

text \<open>Nothing left to do: the loop waits for a command, nothing is queued and every task has ended.\<close>

definition settled :: "System \<Rightarrow> bool" where
  "settled s \<longleftrightarrow> sy_loop s = LoopRecv \<and> sy_channel s = [] \<and> sy_pending s = [] \<and> live_tasks s = []"

abbreviation one_cpu :: Resources where
  "one_cpu \<equiv> res_set resources_new ''CPU'' (f64_of_nat 1)"

definition node_ready :: "nat \<Rightarrow> System \<Rightarrow> bool" where
  "node_ready cpus s \<longleftrightarrow>
     settled s \<and> \<not> sy_senders_dropped s \<and> cpus \<le> 2 ^ 53 \<and> sys_accounts 1074 {#} s \<and>
     rm_total (sy_rm s) = res_set resources_new ''CPU'' (f64_of_nat cpus) \<and> locks_ok s \<and>
     os_max_memory_bytes (sy_store s) = 0"

lemma submit_calls_sent:
  assumes "sy_loop (lr_system rt) \<noteq> LoopExited" "length (sy_channel (lr_system rt)) + length cs \<le> 4096"
  shows "submit_calls cs rt =
    (map (\<lambda>c. Some (Inr (call_id c))) cs,
     rt\<lparr>lr_system := (lr_system rt)\<lparr>sy_channel := sy_channel (lr_system rt) @ map (SubmitTask \<circ> call_spec_of) cs\<rparr>\<rparr>)"
  using assms
proof (induction cs arbitrary: rt)
  case (Cons c cs)
  let ?rt = "rt\<lparr>lr_system := (lr_system rt)\<lparr>sy_channel := sy_channel (lr_system rt) @ [SubmitTask (call_spec_of c)]\<rparr>\<rparr>"
  have "submit_fn (ca_uuid_return c) (ca_uuid_task c) (ca_uuid_job c) (ca_function c) (ca_payload c) rt =
      (Some (Inr (call_id c)), ?rt)"
    using Cons.prems by (simp add: submit_fn_def runtime_submit_task_def submit_task_def send_command_def call_spec_of_def call_id_def Let_def)
  with Cons.IH[of ?rt] Cons.prems show ?case by simp
qed simp

section \<open>A batch of one-CPU tasks\<close>

lemma units_cpu: "k \<le> 2 ^ 53 \<Longrightarrow> res_units (res_set resources_new ''CPU'' (f64_of_nat k)) n = (if n = ''CPU'' then int k * int f64_unit else 0)"
  by (simp add: res_units_def res_get_def res_set_def resources_new_def f64_of_nat_Fin f64_zero_def)

lemma cpus_fit:
  assumes "length specs \<le> cpus" "cpus \<le> 2 ^ 53" "\<forall>t\<in>set specs. ts_required_resources t = one_cpu"
  shows "fits_together (res_set resources_new ''CPU'' (f64_of_nat cpus)) specs"
proof -
  have "map ts_required_resources specs = replicate (length specs) one_cpu"
    using assms(3) by (simp add: map_replicate_const[symmetric])
  then have "requests specs = replicate_mset (length specs) one_cpu" by (simp add: requests_def)
  then have "held_units (requests specs) n = int (length specs) * res_units one_cpu n" for n by (simp add: held_units_def)
  moreover have "int (length specs) * int f64_unit \<le> int cpus * int f64_unit" using assms(1) by (intro mult_right_mono) simp_all
  ultimately show ?thesis using units_cpu[of 1] units_cpu[OF assms(2)] by (simp add: fits_together_def)
qed

lemma node_ready_resting: "node_ready cpus s \<Longrightarrow> resting_node 1074 (res_set resources_new ''CPU'' (f64_of_nat cpus)) s"
  using node_at_rest[of s] by (simp add: node_ready_def settled_def resting_node_def)

lemma node_ready_takes:
  assumes "node_ready cpus s" "distinct (return_keys specs)" "\<forall>t\<in>set specs. ts_required_resources t = one_cpu"
  shows "takes 1074 (res_set resources_new ''CPU'' (f64_of_nat cpus)) specs s"
  using node_ready_resting[OF assms(1)] assms by (simp add: takes_def node_ready_def settled_def room_for_def)

text \<open>While a batch that fits the node runs, nothing is ever queued.\<close>

definition batch_inv :: "nat \<Rightarrow> System \<Rightarrow> bool" where
  "batch_inv cpus s \<longleftrightarrow> roomy 1074 (res_set resources_new ''CPU'' (f64_of_nat cpus)) s \<and> serving s"

lemma batch_steps: "node_step\<^sup>*\<^sup>* s s' \<Longrightarrow> batch_inv cpus s \<Longrightarrow> batch_inv cpus s'"
  using serving_steps by (auto simp: batch_inv_def)

lemma batch_at_rest: "batch_inv cpus s \<Longrightarrow> at_rest node_act s \<longleftrightarrow> settled s"
  using serving_at_rest[of _ _ s] by (auto simp: batch_inv_def settled_def serving_def)

lemma batch_settles:
  assumes "batch_inv cpus s"
  shows "\<exists>s'. node_step\<^sup>*\<^sup>* s s' \<and> settled s'"
proof -
  have "locks_ok s" using assms by (simp add: batch_inv_def roomy_def)
  then obtain s' where "node_step\<^sup>*\<^sup>* s s'" "at_rest node_act s'" using node_rests by blast
  then show ?thesis using batch_at_rest[OF batch_steps[OF _ assms]] by blast
qed

lemma batch_begin:
  assumes "node_ready cpus s" "length specs \<le> cpus" "\<forall>t\<in>set specs. ts_required_resources t = one_cpu"
  shows "batch_inv cpus (s\<lparr>sy_channel := map SubmitTask specs\<rparr>)"
proof -
  let ?s = "s\<lparr>sy_channel := map SubmitTask specs\<rparr>"
  have "sys_accounts 1074 {#} ?s"
    using assms(1,3) held_requests_cong[of ?s s] by (auto simp: node_ready_def settled_def sys_accounts_def waiting_def)
  moreover have "locks_ok ?s" "waiting ?s = specs" "held_requests ?s = {#}" "serving ?s"
    using assms(1) by (simp_all add: node_ready_def settled_def locks_ok_def waiting_def held_requests_def live_tasks_def serving_def)
  ultimately show ?thesis
    using assms(1) cpus_fit[OF assms(2) _ assms(3)] by (simp add: batch_inv_def roomy_def fits_together_def node_ready_def)
qed

text \<open>The entries that tasks leave in the store do not depend on the order of the tasks.\<close>

lemma entries_perm:
  assumes "mset us = mset ts" "distinct (return_keys ts)"
  shows "map_of (List.map_filter (result_entry ex) us) = map_of (List.map_filter (result_entry ex) ts)"
proof -
  have sub: "set (map fst (List.map_filter (result_entry ex) ts)) \<subseteq> set (return_keys ts)" for ts
    by (induction ts) (auto dest: result_entry_key split: option.splits)
  have dist: "distinct (map fst (List.map_filter (result_entry ex) ts))" if "distinct (return_keys ts)" for ts
    using that
  proof (induction ts)
    case (Cons t ts)
    then show ?case using sub[of ts] result_entry_key[of ex t] by (fastforce split: option.splits)
  qed simp
  have "distinct (return_keys us)" using return_keys_mono[of us ts] assms by simp
  moreover have "set (List.map_filter (result_entry ex) us) = set (List.map_filter (result_entry ex) ts)"
    using mset_eq_setD[OF assms(1)] by (simp add: List.map_filter_def)
  ultimately show ?thesis using dist assms(2) by (intro map_of_inject_set[THEN iffD2]) auto
qed

lemma call_entry: "result_entry ex (call_spec_of c) =
    (case execute ex (call_spec_of c) of Inr data \<Rightarrow> Some (call_id c, data) | Inl e \<Rightarrow> None)"
  by (simp add: result_entry_def call_spec_of_def fn_spec_def)

lemma calls_entries:
  "distinct (map call_id cs) \<Longrightarrow> c \<in> set cs \<Longrightarrow>
   map_of (List.map_filter (result_entry ex) (map call_spec_of cs)) (call_id c) =
     (case execute ex (call_spec_of c) of Inr data \<Rightarrow> Some data | Inl e \<Rightarrow> None)"
  "oid \<notin> call_id ` set cs \<Longrightarrow>
   map_of (List.map_filter (result_entry ex) (map call_spec_of cs)) oid = None"
proof -
  show none: "oid \<notin> call_id ` set cs \<Longrightarrow>
     map_of (List.map_filter (result_entry ex) (map call_spec_of cs)) oid = None" for oid cs
    by (induction cs) (auto simp: call_entry split: sum.splits option.splits)
  show "map_of (List.map_filter (result_entry ex) (map call_spec_of cs)) (call_id c) =
     (case execute ex (call_spec_of c) of Inr data \<Rightarrow> Some data | Inl e \<Rightarrow> None)"
    if "distinct (map call_id cs)" "c \<in> set cs"
    using that
  proof (induction cs)
    case (Cons c' cs)
    show ?case
    proof (cases "c \<in> set cs")
      case True
      then have "call_id c \<noteq> call_id c'" using Cons.prems(1) by (auto simp: image_iff)
      then show ?thesis using Cons True by (auto simp: call_entry split: sum.splits)
    next
      case False
      then have "c = c'" using Cons.prems(2) by simp
      then show ?thesis using Cons.prems(1) none[of "call_id c'" cs]
        by (auto simp: call_entry split: sum.splits)
    qed
  qed simp
qed

lemma return_keys_calls: "return_keys (map call_spec_of cs) = map call_id cs"
  by (induction cs) (simp_all add: call_spec_of_def fn_spec_def)

lemma batch_spec_results:
  assumes "node_ready cpus s0" "length specs \<le> cpus" "distinct (return_keys specs)"
    and "\<forall>t\<in>set specs. ts_required_resources t = one_cpu"
  defines "s1 \<equiv> s0\<lparr>sy_channel := map SubmitTask specs\<rparr>"
  assumes run: "node_step\<^sup>*\<^sup>* s1 s" and "settled s"
  shows "os_view (sy_store s) = os_view (sy_store s0) ++ map_of (List.map_filter (result_entry (sy_executor s0)) specs)
    \<and> node_ready cpus s"
proof -
  have "batch_inv cpus s1" unfolding s1_def using assms(1,2,4) by (rule batch_begin)
  note batch = batch_steps[OF run this]
  have live: "live_tasks s1 = []" "live_tasks s = []" "waiting s1 = specs" "os_max_memory_bytes (sy_store s) = 0"
    "os_inv (sy_store s1)" "room_for (demand (sy_executor s1) (waiting s1)) (sy_store s1)" "waiting s = []"
    using assms(1) \<open>settled s\<close> node_steps_max_memory[OF run]
    by (simp_all add: s1_def node_ready_def settled_def live_tasks_def waiting_def locks_ok_def room_for_def)
  have "sy_loop s0 = LoopRecv" using assms(1) by (simp add: node_ready_def settled_def)
  then have cancels: "no_cancels s1" by (auto simp: s1_def no_cancels_def)
  have keys: "distinct (return_keys (waiting s1))" unfolding live(3) by (rule assms(3))
  obtain started where st: "map d_spec (sy_tasks s) = map d_spec (sy_tasks s1) @ started"
    "os_view (sy_store s) = os_view (sy_store s1) ++ map_of (List.map_filter (result_entry (sy_executor s1)) started)"
    using settled_results[OF live(1,5,6) keys run live(2)] by blast
  have perm: "mset started = mset specs"
    using node_steps_all_specs[OF run cancels] st(1) live(3,7) by (simp add: all_specs_def flip: mset_map)
  have "os_view (sy_store s) = os_view (sy_store s0) ++ map_of (List.map_filter (result_entry (sy_executor s0)) specs)"
    using st(2) by (simp add: s1_def entries_perm[OF perm assms(3)])
  moreover have "node_ready cpus s"
    using batch \<open>settled s\<close> live(4) assms(1) by (simp add: batch_inv_def roomy_def serving_def node_ready_def)
  ultimately show ?thesis ..
qed

lemma batch_results:
  assumes "node_ready cpus s0" "length calls \<le> cpus" "distinct (map call_id calls)"
    and "node_step\<^sup>*\<^sup>* (s0\<lparr>sy_channel := map SubmitTask (map call_spec_of calls)\<rparr>) s" "settled s"
  shows "os_view (sy_store s) = os_view (sy_store s0) ++ map_of (List.map_filter (result_entry (sy_executor s0)) (map call_spec_of calls))
    \<and> node_ready cpus s"
  using assms(2,3) by (intro batch_spec_results[OF assms(1) _ _ _ assms(4,5)])
    (auto simp: return_keys_calls call_spec_of_def fn_spec_def)

lemma from_slice_single: "(from_slice [a] :: ObjectId) = from_slice [b] \<longleftrightarrow> a = b"
  by (simp add: as_bytes_inject[symmetric] from_slice.rep_eq copy_into_zeroed_eq)

lemma id_new_single: "(id_new [a] :: ObjectId) = id_new [b] \<longleftrightarrow> a = b"
  by (simp add: as_bytes_inject[symmetric] id_new.rep_eq copy_into_zeroed_eq)

lemma node_ready_new:
  "cpus \<le> 2 ^ 53 \<Longrightarrow> node_ready cpus (scheduler_new (rm_new (res_set resources_new ''CPU'' (f64_of_nat cpus))) ex (os_new 0) (wp_new n))"
  using sys_accounts_new[of 1074 "res_set resources_new ''CPU'' (f64_of_nat cpus)"] locks_ok_new[of "os_new 0"]
  by (simp add: node_ready_def settled_def scheduler_new_def live_tasks_def rm_new_def os_new_def os_inv_def)


section \<open>Properties\<close>

text \<open>
  C3. What parallel tasks leave in the object store does not depend on the schedule. From a state
  with no task in progress, with waiting tasks that store under different identifiers and a store
  that has no memory limit or room for all their results, in any order of the steps of the event loop and of
  the background tasks: once no task
  is in progress, the store is the old one updated with the result of each task that was started
  (nothing for a task that failed), and the started tasks are among those that were waiting.
\<close>

theorem results_independent_of_schedule:
  assumes "live_tasks s = []" "os_inv (sy_store s)" "room_for (demand (sy_executor s) (waiting s)) (sy_store s)"
    and "distinct (return_keys (waiting s))" "node_step\<^sup>*\<^sup>* s s'" "live_tasks s' = []"
  shows "\<exists>started. map d_spec (sy_tasks s') = map d_spec (sy_tasks s) @ started
    \<and> mset started + mset (waiting s') \<subseteq># mset (waiting s)
    \<and> os_view (sy_store s') = os_view (sy_store s) ++ map_of (List.map_filter (result_entry (sy_executor s)) started)"
  using settled_results[OF assms] by blast
theorem results_independent_of_schedule_witness:
  "\<exists>s'. node_step\<^sup>*\<^sup>* ((cpu_system 4)\<lparr>sy_channel := map SubmitTask [cpu_task 1 1 [5], cpu_task 2 1 [6]]\<rparr>) s'
     \<and> os_view (sy_store s') = [from_slice [1] \<mapsto> [5], from_slice [2] \<mapsto> [6]]"
proof -
  let ?ts = "[cpu_task 1 1 [5], cpu_task 2 1 [6]]"
  let ?s = "(cpu_system 4)\<lparr>sy_channel := map SubmitTask ?ts\<rparr>"
  have ready: "node_ready 4 (cpu_system 4)" unfolding cpu_system_def by (intro node_ready_new) simp
  have none: "sy_tasks (cpu_system 4) = []" "os_view (sy_store (cpu_system 4)) = Map.empty" "sy_executor (cpu_system 4) = LocalExecutor"
    by (simp_all add: cpu_system_def scheduler_new_def os_new_def os_view_def)
  have batch: "batch_inv 4 ?s" using batch_begin[OF ready, of ?ts] by (simp add: cpu_task_def)
  then obtain s' where s': "node_step\<^sup>*\<^sup>* ?s s'" "settled s'" using batch_settles by blast
  have "live_tasks ?s = []" "os_inv (sy_store ?s)" "room_for (demand (sy_executor ?s) (waiting ?s)) (sy_store ?s)" "waiting ?s = ?ts"
    using ready none by (simp_all add: node_ready_def settled_def live_tasks_def waiting_def locks_ok_def room_for_def)
  moreover have "distinct (return_keys ?ts)" by (simp add: cpu_task_def from_slice_single)
  moreover have "live_tasks s' = []" using s'(2) by (simp add: settled_def)
  ultimately obtain started where st: "map d_spec (sy_tasks s') = started"
    "os_view (sy_store s') = map_of (List.map_filter (result_entry LocalExecutor) started)"
    using results_independent_of_schedule[OF _ _ _ _ s'(1)] none by auto
  have "sy_loop (cpu_system 4) = LoopRecv" by (simp add: cpu_system_def scheduler_new_def)
  then have "no_cancels ?s" by (simp add: no_cancels_def)
  from node_steps_all_specs[OF s'(1) this] have perm: "mset started = mset ?ts"
    using s'(2) st(1) none(1) ready by (simp add: all_specs_def settled_def waiting_def node_ready_def flip: mset_map)
  have "distinct (return_keys ?ts)" by (simp add: cpu_task_def from_slice_single)
  with st(2) have "os_view (sy_store s') = map_of (List.map_filter (result_entry LocalExecutor) ?ts)"
    by (simp only: entries_perm[OF perm])
  then have "os_view (sy_store s') = [from_slice [1] \<mapsto> [5], from_slice [2] \<mapsto> [6]]"
    by (simp add: result_entry_def cpu_task_def local_execute_def from_slice_single fun_upd_twist)
  with s'(1) show ?thesis by blast
qed

text \<open>
  C4. Calls in parallel are all answered. Given a node at rest on which the calls fit together with what is left in
  its queue, and whose store has no limit or room for all their results, every
  call of the batch is accepted. Under every fair schedule the node then comes to rest, with an empty queue and every
  resource back, and all other objects untouched. A \<^verbatim>\<open>get\<close> of the identifier of a call, which polls the store at
  any moments while the node runs, never answers anything but what the function of the call
  returned or a timeout; it answers with the function's result whenever one of its polls before the deadline is
  made after the node has come to rest, and always with a timeout if the function failed.
\<close>

theorem parallel_calls_answered:
  assumes "takes g tot (map call_spec_of calls) (lr_system rt)"
    and "fits_together tot (sy_pending (lr_system rt) @ map call_spec_of calls)" "calls \<noteq> []" "length calls \<le> 4096"
    and "\<forall>c\<in>set calls. os_view (sy_store (lr_system rt)) (call_id c) = None"
  shows "\<exists>rt1. submit_calls calls rt = (map (\<lambda>c. Some (Inr (call_id c))) calls, rt1) \<and>
    (\<forall>who run. behaviour node_act who run \<and> fair_schedule who \<and> run 0 = lr_system rt1 \<longrightarrow>
       (\<exists>N. \<forall>k\<ge>N. resting_node g tot (run k) \<and> sy_pending (run k) = [] \<and>
          (\<forall>oid. oid \<notin> set (return_keys (sy_pending (lr_system rt))) \<union> call_id ` set calls \<longrightarrow>
             os_view (sy_store (run k)) oid = os_view (sy_store (lr_system rt)) oid)) \<and>
       (\<forall>c\<in>set calls. \<forall>moment clock start timeout_ms. poll_sleeps clock \<and> start \<le> clock 0 \<longrightarrow>
          (let answer = get_object (\<lambda>i. rt1\<lparr>lr_system := run (moment i)\<rparr>) clock start (call_id c) timeout_ms;
               timeout = Some (Inl (get_timeout_error (call_id c) timeout_ms))
           in case execute (sy_executor (lr_system rt)) (call_spec_of c) of
                Inl e \<Rightarrow> answer = timeout
              | Inr data \<Rightarrow> answer \<in> {timeout, Some (Inr data)} \<and>
                  (\<forall>i. at_rest node_act (run (moment i)) \<and> clock i \<le> start + millis timeout_ms \<longrightarrow> answer = Some (Inr data)))))"
proof -
  let ?s0 = "lr_system rt" and ?specs = "map call_spec_of calls"
  let ?rt1 = "rt\<lparr>lr_system := sent_batch ?specs ?s0\<rparr>"
  have sub: "submit_calls calls rt = (map (\<lambda>c. Some (Inr (call_id c))) calls, ?rt1)"
    using submit_calls_sent[of rt calls] takesD(8,11)[OF assms(1)] assms(4) by (simp add: sent_batch_def)
  show ?thesis
  proof (intro exI[of _ ?rt1] conjI sub allI impI ballI; elim conjE)
    fix who run assume run: "behaviour node_act who run" "fair_schedule who" "run 0 = lr_system ?rt1"
    then have begins: "run 0 = sent_batch ?specs ?s0" by simp
    have steps: "node_step\<^sup>*\<^sup>* (sent_batch ?specs ?s0) (run k)" for k
      using behaviour_steps[OF run(1), of node_step 0 k] node_act_step begins by auto
    obtain N where "\<forall>k\<ge>N. at_rest node_act (run k)" using batch_comes_to_rest[OF assms(1) run(1,2) begins] by blast
    then show "\<exists>N. \<forall>k\<ge>N. resting_node g tot (run k) \<and> sy_pending (run k) = [] \<and>
          (\<forall>oid. oid \<notin> set (return_keys (sy_pending ?s0)) \<union> call_id ` set calls \<longrightarrow>
             os_view (sy_store (run k)) oid = os_view (sy_store ?s0) oid)"
      using batch_all_started[OF assms(1,2) _ steps] batch_others[OF assms(1) steps] assms(3)
      by (intro exI[of _ N]) (auto simp: return_keys_calls)
    fix c moment start timeout_ms and clock :: "nat \<Rightarrow> nat"
    assume c: "c \<in> set calls" and polls: "poll_sleeps clock" "start \<le> clock 0"
    have spec: "call_spec_of c \<in> set ?specs" "ts_return_ids (call_spec_of c) = call_id c # []"
      using c by (simp_all add: call_spec_of_def fn_spec_def)
    have "os_view (sy_store ?s0) (call_id c) = None" using assms(5) c by blast
    note ans = awaited_answer[OF assms(1) run(1,2) begins spec this together_always_started[OF assms(1,2) spec(1)]]
    note polled = ans(2,3)[OF polls, where moment = moment and ms = timeout_ms]
    let ?answer = "get_object (\<lambda>i. ?rt1\<lparr>lr_system := run (moment i)\<rparr>) clock start (call_id c) timeout_ms"
    have "?answer = os_get (\<lambda>i. sy_store (run (moment i))) clock start (call_id c) timeout_ms" by (simp add: get_object_def)
    then show "let answer = ?answer; timeout = Some (Inl (get_timeout_error (call_id c) timeout_ms))
           in case execute (sy_executor (lr_system rt)) (call_spec_of c) of
                Inl e \<Rightarrow> answer = timeout
              | Inr data \<Rightarrow> answer \<in> {timeout, Some (Inr data)} \<and>
                  (\<forall>i. at_rest node_act (run (moment i)) \<and> clock i \<le> start + millis timeout_ms \<longrightarrow> answer = Some (Inr data))"
      using polled by (auto simp: task_result_def Let_def split: sum.splits)
  qed
qed

theorem parallel_calls_answered_witness:
  "let call = (\<lambda>k. \<lparr>ca_uuid_return = [k], ca_uuid_task = [k], ca_uuid_job = [9], ca_function = ''inc'', ca_payload = [k]\<rparr>);
       rt = register_function ''inc'' (\<lambda>p. Returns (Inr (map ((+) 1) p))) (demo_runtime 4)
   in \<exists>rt1 n. submit_calls (map call [1, 2, 3]) rt = (map (\<lambda>k. Some (Inr (call_id (call k)))) [1, 2, 3], rt1)
        \<and> (\<forall>k\<in>{1, 2, 3}. get_object (\<lambda>_. rt1\<lparr>lr_system := follow node_act round_schedule (\<lambda>_. (id_default, 7, 0)) (lr_system rt1) n\<rparr>)
              (\<lambda>i. i * 10000000) 0 (call_id (call k)) 100 = Some (Inr [k + 1]))"
proof -
  let ?call = "\<lambda>k :: 8 word. \<lparr>ca_uuid_return = [k], ca_uuid_task = [k], ca_uuid_job = [9], ca_function = ''inc'', ca_payload = [k]\<rparr>"
  let ?calls = "map ?call [1, 2, 3]" and ?tot = "res_set resources_new ''CPU'' (f64_of_nat 4)"
  let ?f = "\<lambda>p :: bytes. Returns (Inr (map ((+) 1) p))"
  let ?rt = "register_function ''inc'' ?f (demo_runtime 4)" and ?clock = "\<lambda>i :: nat. i * 10000000"
  have sys: "lr_system ?rt = scheduler_new (rm_new ?tot) (Registry (register_fn ''inc'' ?f fr_new)) (os_new 0) (wp_new 2)"
    by (simp add: demo_runtime_def runtime_new_def register_function_def on_registry_def scheduler_new_def Let_def)
  have ready: "node_ready 4 (lr_system ?rt)" unfolding sys by (intro node_ready_new) simp
  have one: "\<forall>t\<in>set (map call_spec_of ?calls). ts_required_resources t = one_cpu" by (simp add: call_spec_of_def fn_spec_def)
  have ids: "distinct (map call_id ?calls)" by (simp add: call_id_def) (simp add: id_new_single)
  then have "distinct (return_keys (map call_spec_of ?calls))" by (simp only: return_keys_calls)
  note takes = node_ready_takes[OF ready this one]
  have fit: "fits_together ?tot (sy_pending (lr_system ?rt) @ map call_spec_of ?calls)"
    using cpus_fit[of "map call_spec_of ?calls" 4] one by (simp add: sys scheduler_new_def)
  have fresh: "\<forall>c\<in>set ?calls. os_view (sy_store (lr_system ?rt)) (call_id c) = None"
    by (simp add: sys scheduler_new_def os_new_def os_view_def)
  have clock: "poll_sleeps ?clock" "0 \<le> ?clock 0" by (simp_all add: poll_sleeps_def millis_10)
  have exec: "execute (sy_executor (lr_system ?rt)) (call_spec_of (?call k)) = Inr [k + 1]" for k
    by (simp add: sys scheduler_new_def registry_execute_def register_fn_def call_spec_of_def fn_spec_def spawn_blocking_def)
  have in_time: "\<exists>i. ?clock i \<le> millis 100" by (rule exI[of _ 0]) simp
  have len: "?calls \<noteq> []" "length ?calls \<le> 4096" by simp_all
  from parallel_calls_answered[OF takes fit len fresh] show ?thesis
  proof (elim exE conjE, goal_cases)
    case (1 rt1)
    let ?run = "follow node_act round_schedule (\<lambda>_. (id_default, 7, 0)) (lr_system rt1)"
    have "behaviour node_act round_schedule ?run \<and> fair_schedule round_schedule \<and> ?run 0 = lr_system rt1"
      by (simp add: behaviour_follow round_schedule_fair)
    note run = mp[OF spec[OF spec[OF 1(2)]] this]
    then obtain N where N: "at_rest node_act (?run N)" by (auto simp: resting_node_def)
    have "get_object (\<lambda>_. rt1\<lparr>lr_system := ?run N\<rparr>) ?clock 0 (call_id (?call k)) 100 = Some (Inr [k + 1])"
      if "?call k \<in> set ?calls" for k
      using mp[OF spec[OF spec[OF spec[OF spec[OF bspec[OF conjunct2[OF run] that], of "\<lambda>_. N"]]]] conjI[OF clock], of 100] N in_time
      by (simp add: exec Let_def)
    with 1(1) show ?case unfolding Let_def by (intro exI[of _ rt1] exI[of _ N]) simp
  qed
qed

end
