(* ===== verification/Local_Demo.thy ===== *)
theory Local_Demo
  imports Parallel_Calls "HOL-Library.Monad_Syntax"
begin

text \<open>
  \<^verbatim>\<open>crates/ray-runtime/examples/local_demo.rs\<close>: the demo program of the runtime. Its two registered
  closures and its \<^verbatim>\<open>main\<close>, whose \<^verbatim>\<open>assert_eq!\<close>s say what a user of the runtime relies on. The value
  \<open>None\<close> is a \<^verbatim>\<open>main\<close> that does not reach its end: a call failed, an assertion did not hold. What the
  node does while \<^verbatim>\<open>main\<close> waits for results is a parameter, one function for each of the three waits.
\<close>

section \<open>The program\<close>

definition double_bytes :: TaskFn where
  "double_bytes payload = Returns (Inr (map (\<lambda>b. b * 2) payload))"

definition to_le_bytes :: "u32 \<Rightarrow> bytes" where
  "to_le_bytes w = map (\<lambda>k. ucast (drop_bit (8 * k) w)) [0, 1, 2, 3]"

definition from_le_bytes :: "bytes \<Rightarrow> u32" where
  "from_le_bytes bs = (\<Sum>k\<leftarrow>[0, 1, 2, 3]. push_bit (8 * k) (ucast (bs ! k)))"

text \<open>\<^verbatim>\<open>Iterator::sum\<close> on \<^verbatim>\<open>u32\<close> panics on overflow when overflow checks are compiled in and wraps otherwise.\<close>

definition sum_bytes :: "bool \<Rightarrow> TaskFn" where
  "sum_bytes checks payload =
     (let total = sum_list (map unat payload)
      in if checks \<and> 2 ^ 32 \<le> total then Panics ''attempt to add with overflow''
         else Returns (Inr (to_le_bytes (word_of_nat total))))"

record demo_env =
  de_uuid :: "nat \<Rightarrow> bytes" \<comment> \<open>the identifiers in the order they are generated\<close>
  de_now :: nat
  de_clock :: "nat \<Rightarrow> nat"

definition demo_call :: "demo_env \<Rightarrow> nat \<Rightarrow> string \<Rightarrow> bytes \<Rightarrow> call_args" where
  "demo_call env k name payload =
     \<lparr>ca_uuid_return = de_uuid env k, ca_uuid_task = de_uuid env (k + 1), ca_uuid_job = de_uuid env (k + 2),
      ca_function = name, ca_payload = payload\<rparr>"

definition demo_parallel :: "demo_env \<Rightarrow> (u8 \<times> call_args) list" where
  "demo_parallel env =
     map (\<lambda>k. (word_of_nat k, demo_call env (5 + 3 * k) ''double_bytes''
       [word_of_nat k, word_of_nat k + 1, word_of_nat k + 2])) [0, 1, 2, 3]"

definition ok_value :: "'a RayResult \<Rightarrow> 'a option" where
  "ok_value r = (case r of Inr a \<Rightarrow> Some a | Inl e \<Rightarrow> None)"

definition demo_submit :: "call_args list \<Rightarrow> (System \<Rightarrow> System) \<Rightarrow> LocalRuntime \<Rightarrow> (ObjectId list \<times> LocalRuntime) option" where
  "demo_submit calls wait rt =
     (let (rs, rt) = submit_calls calls rt
      in do { ids \<leftarrow> those (map (\<lambda>r. Option.bind r ok_value) rs);
              Some (ids, rt\<lparr>lr_system := wait (lr_system rt)\<rparr>) })"

definition demo_get :: "demo_env \<Rightarrow> LocalRuntime \<Rightarrow> ObjectId \<Rightarrow> i64 \<Rightarrow> bytes option" where
  "demo_get env rt oid timeout_ms = do { r \<leftarrow> get_object (\<lambda>_. rt) (de_clock env) 0 oid timeout_ms; ok_value r }"

definition assert_that :: "bool \<Rightarrow> unit option" where
  "assert_that b = (if b then Some () else None)"

definition local_demo ::
  "bool \<Rightarrow> demo_env \<Rightarrow> (System \<Rightarrow> System) \<Rightarrow> (System \<Rightarrow> System) \<Rightarrow> (System \<Rightarrow> System) \<Rightarrow> System option" where
  "local_demo checks env wait1 wait2 wait3 = do {
     rt \<leftarrow> ok_value (runtime_new (de_uuid env 0) \<lparr>rc_num_cpus = 4, rc_max_workers = 8, rc_object_store_memory = 0\<rparr>);
     let rt = register_function ''double_bytes'' double_bytes rt;
     let (r, rt) = put_object (de_now env) (de_uuid env 1) [10, 20, 30] rt;
     obj_id \<leftarrow> ok_value r;
     data \<leftarrow> demo_get env rt obj_id 1000;
     assert_that (data = [10, 20, 30]);
     (ids, rt) \<leftarrow> demo_submit [demo_call env 2 ''double_bytes'' [1, 2, 3]] wait1 rt;
     result \<leftarrow> demo_get env rt (hd ids) 5000;
     assert_that (result = [2, 4, 6]);
     (ids, rt) \<leftarrow> demo_submit (map snd (demo_parallel env)) wait2 rt;
     results \<leftarrow> those (map (\<lambda>rid. demo_get env rt rid 5000) ids);
     assert_that (results = map (\<lambda>(i, c). map (\<lambda>b. b * 2) [i, i + 1, i + 2]) (demo_parallel env));
     let rt = register_function ''sum_bytes'' (sum_bytes checks) rt;
     (ids, rt) \<leftarrow> demo_submit [demo_call env 17 ''sum_bytes'' [10, 20, 30]] wait3 rt;
     result \<leftarrow> demo_get env rt (hd ids) 5000;
     assert_that (4 \<le> length result \<and> from_le_bytes result = 60);
     Some (shutdown rt) }"

section \<open>Waiting\<close>

text \<open>Any behaviour of the node that does not stop while it can still come to rest.\<close>

definition comes_to_rest :: "(System \<Rightarrow> System) \<Rightarrow> bool" where
  "comes_to_rest wait \<longleftrightarrow>
     (\<forall>s. node_step\<^sup>*\<^sup>* s (wait s) \<and> ((\<exists>s'. node_step\<^sup>*\<^sup>* s s' \<and> settled s') \<longrightarrow> settled (wait s)))"

lemma comes_to_rest_exists: "\<exists>wait. comes_to_rest wait"
proof -
  have "\<forall>s. \<exists>s1. node_step\<^sup>*\<^sup>* s s1 \<and> ((\<exists>s'. node_step\<^sup>*\<^sup>* s s' \<and> settled s') \<longrightarrow> settled s1)" by blast
  then show ?thesis unfolding comes_to_rest_def by (rule choice)
qed

lemma node_steps_executor: "node_step\<^sup>*\<^sup>* s s' \<Longrightarrow> sy_executor s' = sy_executor s"
  by (induction rule: rtranclp_induct) (auto elim: node_step.cases)

lemma those_map_Some [simp]: "those (map (\<lambda>x. Some (f x)) xs) = Some (map f xs)"
  by (induction xs) simp_all

lemma ok_value_Inr [simp]: "ok_value (Inr a) = Some a"
  by (simp add: ok_value_def)

lemma demo_submit_ok:
  assumes "node_ready cpus (lr_system rt)" "length calls \<le> cpus" "length calls \<le> 4096" "distinct (map call_id calls)" "comes_to_rest wait"
  shows "\<exists>s. demo_submit calls wait rt = Some (map call_id calls, rt\<lparr>lr_system := s\<rparr>) \<and> node_ready cpus s
    \<and> sy_executor s = sy_executor (lr_system rt)
    \<and> (\<forall>c\<in>set calls. \<forall>data. execute (sy_executor (lr_system rt)) (call_spec_of c) = Inr data \<longrightarrow>
         os_view (sy_store s) (call_id c) = Some data)
    \<and> (\<forall>c\<in>set calls. \<forall>e. execute (sy_executor (lr_system rt)) (call_spec_of c) = Inl e \<longrightarrow>
         os_view (sy_store s) (call_id c) = os_view (sy_store (lr_system rt)) (call_id c))
    \<and> (\<forall>oid. oid \<notin> call_id ` set calls \<longrightarrow> os_view (sy_store s) oid = os_view (sy_store (lr_system rt)) oid)"
proof -
  let ?s0 = "lr_system rt"
  let ?s1 = "?s0\<lparr>sy_channel := map SubmitTask (map call_spec_of calls)\<rparr>"
  have sub: "submit_calls calls rt = (map (\<lambda>c. Some (Inr (call_id c))) calls, rt\<lparr>lr_system := ?s1\<rparr>)"
    using submit_calls_sent[of rt calls] assms(1,3) by (simp add: node_ready_def settled_def)
  have "batch_inv cpus ?s1"
    using assms(1,2) by (intro batch_begin) (auto simp: call_spec_of_def fn_spec_def)
  from batch_settles[OF this] assms(5) have w: "node_step\<^sup>*\<^sup>* ?s1 (wait ?s1)" "settled (wait ?s1)"
    by (auto simp: comes_to_rest_def)
  note res = batch_results[OF assms(1,2,4) w]
  have "demo_submit calls wait rt = Some (map call_id calls, rt\<lparr>lr_system := wait ?s1\<rparr>)"
    by (simp add: demo_submit_def sub comp_def)
  moreover have "sy_executor (wait ?s1) = sy_executor ?s0" using node_steps_executor[OF w(1)] by simp
  moreover have "os_view (sy_store (wait ?s1)) (call_id c) = Some data"
    if "c \<in> set calls" "execute (sy_executor ?s0) (call_spec_of c) = Inr data" for c data
    using res calls_entries(1)[OF assms(4) that(1), of "sy_executor ?s0"] that(2) by (simp add: map_add_def)
  moreover have "os_view (sy_store (wait ?s1)) (call_id c) = os_view (sy_store ?s0) (call_id c)"
    if "c \<in> set calls" "execute (sy_executor ?s0) (call_spec_of c) = Inl e" for c e
    using res calls_entries(1)[OF assms(4) that(1), of "sy_executor ?s0"] that(2) by (simp add: map_add_def)
  moreover have "os_view (sy_store (wait ?s1)) oid = os_view (sy_store ?s0) oid" if "oid \<notin> call_id ` set calls" for oid
    using res calls_entries(2)[OF that, of "sy_executor ?s0"] by (simp add: map_add_def)
  ultimately show ?thesis using res by blast
qed


lemma demo_get_ok:
  "poll_sleeps (de_clock env) \<Longrightarrow> os_view (sy_store (lr_system rt)) oid = Some data \<Longrightarrow> demo_get env rt oid timeout_ms = Some data"
  by (simp add: demo_get_def get_object_def os_get_still)

lemma node_ready_frame:
  "node_ready cpus s \<Longrightarrow> node_ready cpus (s\<lparr>sy_executor := ex\<rparr>)"
  "node_ready cpus s \<Longrightarrow> os_inv st \<Longrightarrow> os_max_memory_bytes st = 0 \<Longrightarrow> node_ready cpus (s\<lparr>sy_store := st\<rparr>)"
proof -
  have same: "live_tasks (s\<lparr>sy_executor := ex\<rparr>) = live_tasks s" "live_tasks (s\<lparr>sy_store := st\<rparr>) = live_tasks s"
    "waiting (s\<lparr>sy_executor := ex\<rparr>) = waiting s" "waiting (s\<lparr>sy_store := st\<rparr>) = waiting s"
    by (simp_all add: live_tasks_def waiting_def)
  then show "node_ready cpus s \<Longrightarrow> node_ready cpus (s\<lparr>sy_executor := ex\<rparr>)"
    "node_ready cpus s \<Longrightarrow> os_inv st \<Longrightarrow> os_max_memory_bytes st = 0 \<Longrightarrow> node_ready cpus (s\<lparr>sy_store := st\<rparr>)"
    by (auto simp: node_ready_def settled_def sys_accounts_def held_requests_def locks_ok_def)
qed

lemma register_ready:
  assumes "node_ready cpus (lr_system rt)" "sy_executor (lr_system rt) = Registry ex"
  shows "node_ready cpus (lr_system (register_function name f rt))"
    "sy_executor (lr_system (register_function name f rt)) = Registry (register_fn name f ex)"
  using assms node_ready_frame(1) by (simp_all add: register_function_def on_registry_def)

lemma put_ready_node:
  assumes "node_ready cpus (lr_system rt)"
  shows "\<exists>rt'. put_object now uuid data rt = (Inr (id_new uuid), rt') \<and> node_ready cpus (lr_system rt')
    \<and> sy_executor (lr_system rt') = sy_executor (lr_system rt)
    \<and> os_view (sy_store (lr_system rt')) = (os_view (sy_store (lr_system rt)))(id_new uuid \<mapsto> data)"
proof -
  let ?st = "sy_store (lr_system rt)"
  have "os_inv ?st" "os_max_memory_bytes ?st = 0" using assms by (simp_all add: node_ready_def locks_ok_def)
  then have put: "os_put now (id_new uuid) data ?st = (Inr (), put_insert now (id_new uuid) data ?st)"
    by (simp add: os_put_inv_eq)
  moreover have "node_ready cpus ((lr_system rt)\<lparr>sy_store := put_insert now (id_new uuid) data ?st\<rparr>)"
    using node_ready_frame(2)[OF assms] put_insert_inv[OF \<open>os_inv ?st\<close>] \<open>os_max_memory_bytes ?st = 0\<close> by simp
  ultimately show ?thesis by (simp add: put_object_def Let_def)
qed

lemma demo_start:
  obtains rt0 rt2 where "runtime_new uuid0 \<lparr>rc_num_cpus = 4, rc_max_workers = 8, rc_object_store_memory = 0\<rparr> = Inr rt0"
    "put_object now uuid1 [10, 20, 30] (register_function ''double_bytes'' double_bytes rt0) = (Inr (id_new uuid1), rt2)"
    "node_ready 4 (lr_system rt2)" "sy_executor (lr_system rt2) = Registry (register_fn ''double_bytes'' double_bytes fr_new)"
    "os_view (sy_store (lr_system rt2)) (id_new uuid1) = Some [10, 20, 30]"
proof -
  obtain rt0 where new: "runtime_new uuid0 \<lparr>rc_num_cpus = 4, rc_max_workers = 8, rc_object_store_memory = 0\<rparr> = Inr rt0"
    "node_ready 4 (lr_system rt0)" "sy_executor (lr_system rt0) = Registry fr_new"
    using node_ready_new[of 4 "Registry fr_new" 8] by (simp add: runtime_new_def Let_def scheduler_new_def)
  note rt1 = register_ready[OF new(2,3), of "''double_bytes''" double_bytes]
  show thesis using put_ready_node[OF rt1(1), of now uuid1 "[10, 20, 30]"] rt1(2) that[OF new(1)] by fastforce
qed

lemma demo_double:
  "execute (Registry (register_fn ''double_bytes'' double_bytes fr_new)) (call_spec_of (demo_call env k ''double_bytes'' p)) =
   Inr (map (\<lambda>b. b * 2) p)"
  by (simp add: registry_execute_def register_fn_def call_spec_of_def fn_spec_def demo_call_def spawn_blocking_def double_bytes_def)

lemma demo_sum: "sum_bytes checks [10, 20, 30] = Returns (Inr [60, 0, 0, 0])" "from_le_bytes [60, 0, 0, 0] = 60"
  by (simp_all add: sum_bytes_def to_le_bytes_def from_le_bytes_def Let_def)



end
