(* ===== verification/Served_Tasks.thy ===== *)
theory Served_Tasks
  imports Batch_Runs
begin

text \<open>
  One task from its submission to its answer, under every fair schedule. A node at rest starts a task
  that fits the node as soon as its loop has a turn, whatever is in its queue (\<open>first_always_started\<close>). The rest is
  a batch of one task in the sense of \<open>Batch_Runs\<close>.
\<close>

section \<open>A task submitted to a node at rest\<close>

text \<open>A node at rest, and a task that it can run and whose result has its own place.\<close>

definition can_serve :: "nat \<Rightarrow> Resources \<Rightarrow> TaskSpec \<Rightarrow> ObjectId \<Rightarrow> System \<Rightarrow> bool" where
  "can_serve g tot t r s \<longleftrightarrow>
     takes g tot [t] s \<and> can_satisfy tot (ts_required_resources t) \<and>
     (\<exists>rids. ts_return_ids t = r # rids) \<and> os_view (sy_store s) r = None"

lemma first_always_started:
  assumes "takes g tot [t] s" "can_satisfy tot (ts_required_resources t)"
  shows "always_started t [t] s"
proof -
  let ?s1 = "sent_batch [t] s"
  note ok = takesD[OF assms(1)]
  have "resting_node g tot s" using assms(1) by (simp add: takes_def)
  then have fit: "can_satisfy (rm_available (sy_rm ?s1)) (ts_required_resources t)"
    using resting_nodeD(9) assms(2) by (simp add: sent_batch_def)
  have first: "sy_tasks (loop_step ?s1) = sy_tasks s @ [new_dispatch t]" "loop_step ?s1 \<noteq> ?s1"
    using loop_step_submit[OF _ _ fit] ok(8) by (auto simp: sent_batch_def new_dispatch_def dest: arg_cong[where f = sy_loop])
  have "t \<in> set (map d_spec (drop (length (sy_tasks s)) (sy_tasks s')))"
    if run: "node_step\<^sup>*\<^sup>* ?s1 s'" "at_rest node_act s'" for s'
  proof -
    have "loop_step s' = s'" using run(2) node_act.simps(1) unfolding at_rest_def by metis
    then have "node_step\<^sup>*\<^sup>* (loop_step ?s1) s'" using loop_first[OF run(1) ok(1)] first(2) by auto
    then obtain more where st: "map d_spec (sy_tasks s') = map d_spec (sy_tasks s) @ t # more"
      using node_steps_new first(1) by (fastforce simp: new_dispatch_def)
    have "map d_spec (drop (length (sy_tasks s)) (sy_tasks s')) = t # more"
      using arg_cong[OF st, of "drop (length (sy_tasks s))"] by (simp add: drop_map)
    then show ?thesis by simp
  qed
  then show ?thesis by (simp add: always_started_def)
qed

lemma served_answer:
  assumes "can_serve g tot t r s" "behaviour node_act who run" "fair_schedule who"
    and "run 0 = s\<lparr>sy_channel := [SubmitTask t]\<rparr>"
  shows "\<exists>N. \<forall>k\<ge>N. at_rest node_act (run k)"
    and "at_rest node_act (run k) \<Longrightarrow> os_view (sy_store (run k)) r = task_result (sy_executor s) t"
    and "poll_sleeps clock \<Longrightarrow> start \<le> clock 0 \<Longrightarrow>
      os_get (\<lambda>i. sy_store (run (moment i))) clock start r ms \<in>
        {Some (Inl (get_timeout_error r ms))} \<union> (\<lambda>data. Some (Inr data)) ` set_option (task_result (sy_executor s) t)"
    and "poll_sleeps clock \<Longrightarrow> start \<le> clock 0 \<Longrightarrow> task_result (sy_executor s) t = Some data \<Longrightarrow>
      at_rest node_act (run (moment i)) \<Longrightarrow> clock i \<le> start + millis ms \<Longrightarrow>
      os_get (\<lambda>i. sy_store (run (moment i))) clock start r ms = Some (Inr data)"
proof -
  obtain rids where ok: "takes g tot [t] s" "can_satisfy tot (ts_required_resources t)" "ts_return_ids t = r # rids"
    "os_view (sy_store s) r = None" using assms(1) by (auto simp: can_serve_def)
  have begins: "run 0 = sent_batch [t] s" using assms(4) by (simp add: sent_batch_def)
  show "\<exists>N. \<forall>k\<ge>N. at_rest node_act (run k)" by (rule batch_comes_to_rest[OF ok(1) assms(2,3) begins])
  have "t \<in> set [t]" by simp
  note ans = awaited_answer[OF ok(1) assms(2,3) begins this ok(3,4) first_always_started[OF ok(1,2)]]
  show "at_rest node_act (run k) \<Longrightarrow> os_view (sy_store (run k)) r = task_result (sy_executor s) t"
    by (rule ans(1))
  show "poll_sleeps clock \<Longrightarrow> start \<le> clock 0 \<Longrightarrow>
      os_get (\<lambda>i. sy_store (run (moment i))) clock start r ms \<in>
        {Some (Inl (get_timeout_error r ms))} \<union> (\<lambda>data. Some (Inr data)) ` set_option (task_result (sy_executor s) t)"
    by (rule ans(2))
  show "poll_sleeps clock \<Longrightarrow> start \<le> clock 0 \<Longrightarrow> task_result (sy_executor s) t = Some data \<Longrightarrow>
      at_rest node_act (run (moment i)) \<Longrightarrow> clock i \<le> start + millis ms \<Longrightarrow>
      os_get (\<lambda>i. sy_store (run (moment i))) clock start r ms = Some (Inr data)"
    by (rule ans(3))
qed

lemma can_serve_new:
  assumes "res_grid g tot" "res_grid g (ts_required_resources t)" "can_satisfy tot (ts_required_resources t)"
    and "ts_return_ids t = r # rids" "m = 0 \<or> result_size ex t \<le> m"
  shows "can_serve g tot t r (scheduler_new (rm_new tot) ex (os_new m) (wp_new n))"
proof -
  let ?s = "scheduler_new (rm_new tot) ex (os_new m) (wp_new n)"
  have "locks_ok ?s" "sys_accounts g {#} ?s"
    using locks_ok_new[of "os_new m"] sys_accounts_new[OF assms(1)] by (simp_all add: os_inv_def os_new_def)
  then have "resting_node g tot ?s"
    using node_at_rest[of ?s] by (simp add: resting_node_def scheduler_new_def live_tasks_def rm_new_def)
  then show ?thesis using assms(2-5)
    by (auto simp: can_serve_def takes_def scheduler_new_def os_new_def os_view_def room_for_def demand_def total_size_def hm_values_def)
qed

section \<open>Properties\<close>

text \<open>
  C8. From a function name to its result: on a runtime whose node is at rest, whatever is left in its queue, registering a
  function and submitting a call of it by name is accepted and gives an identifier. Under every fair schedule the
  node comes to rest. A \<^verbatim>\<open>get_object\<close> of the identifier, whenever it looks, answers only with exactly the bytes the
  function returned or with a timeout, and with the bytes whenever it looks in time after the node has come to
  rest. If the function fails or panics, the caller always sees a timeout, not the error.
\<close>

theorem submit_fn_result:
  assumes "sy_executor (lr_system rt) = Registry ex"
    and "can_serve g tot (fn_spec (id_new uuid_return) (id_new uuid_task) (id_new uuid_job) name payload) (id_new uuid_return)
           (lr_system (register_function name f rt))"
  shows "let (r, rt2) = submit_fn uuid_return uuid_task uuid_job name payload (register_function name f rt);
             return_id = id_new uuid_return
         in r = Some (Inr return_id) \<and>
            (\<forall>who run. behaviour node_act who run \<and> fair_schedule who \<and> run 0 = lr_system rt2 \<longrightarrow>
               (\<exists>N. \<forall>k\<ge>N. at_rest node_act (run k)) \<and>
               (\<forall>moment clock start timeout_ms. poll_sleeps clock \<and> start \<le> clock 0 \<longrightarrow>
                  (let answer = get_object (\<lambda>i. rt2\<lparr>lr_system := run (moment i)\<rparr>) clock start return_id timeout_ms;
                       timeout = Some (Inl (get_timeout_error return_id timeout_ms))
                   in case f payload of
                        Returns (Inr data) \<Rightarrow> answer \<in> {timeout, Some (Inr data)} \<and>
                          (\<forall>i. at_rest node_act (run (moment i)) \<and> clock i \<le> start + millis timeout_ms \<longrightarrow>
                             answer = Some (Inr data))
                      | _ \<Rightarrow> answer = timeout)))"
proof -
  let ?rid = "id_new uuid_return :: ObjectId"
  let ?t = "fn_spec ?rid (id_new uuid_task) (id_new uuid_job) name payload"
  let ?rt1 = "register_function name f rt"
  let ?s1 = "(lr_system ?rt1)\<lparr>sy_channel := [SubmitTask ?t]\<rparr>"
  have "sy_loop (lr_system ?rt1) = LoopRecv" "sy_channel (lr_system ?rt1) = []"
    using assms(2) takesD(8,11) by (auto simp: can_serve_def)
  then have sub: "submit_fn uuid_return uuid_task uuid_job name payload ?rt1 = (Some (Inr ?rid), ?rt1\<lparr>lr_system := ?s1\<rparr>)"
    by (simp add: submit_fn_def runtime_submit_task_def submit_task_def send_command_def Let_def)
  have res: "task_result (sy_executor (lr_system ?rt1)) ?t = (case f payload of Returns (Inr data) \<Rightarrow> Some data | _ \<Rightarrow> None)"
    using assms(1)
    by (simp add: task_result_def register_function_def on_registry_def registry_execute_def register_fn_def fn_spec_def
        spawn_blocking_def split: outcome.splits sum.splits)
  show ?thesis unfolding sub Let_def prod.case
  proof (intro conjI allI impI; (elim conjE)?)
    fix who run assume run: "behaviour node_act who run" "fair_schedule who" "run 0 = lr_system (?rt1\<lparr>lr_system := ?s1\<rparr>)"
    then have start: "run 0 = ?s1" by simp
    note ans = served_answer[OF assms(2) run(1,2) start, unfolded res]
    show "\<exists>N. \<forall>k\<ge>N. at_rest node_act (run k)" by (rule ans(1))
    fix moment :: "nat \<Rightarrow> nat" and clock :: "nat \<Rightarrow> nat" and start timeout_ms
    assume "poll_sleeps clock" "start \<le> clock 0"
    note polled = ans(3,4)[OF this, where moment = moment and ms = timeout_ms]
    let ?answer = "get_object (\<lambda>i. ?rt1\<lparr>lr_system := ?s1, lr_system := run (moment i)\<rparr>) clock start ?rid timeout_ms"
    have "?answer = os_get (\<lambda>i. sy_store (run (moment i))) clock start ?rid timeout_ms" by (simp add: get_object_def)
    then show "case f payload of
        Returns (Inr data) \<Rightarrow> ?answer \<in> {Some (Inl (get_timeout_error ?rid timeout_ms)), Some (Inr data)} \<and>
          (\<forall>i. at_rest node_act (run (moment i)) \<and> clock i \<le> start + millis timeout_ms \<longrightarrow> ?answer = Some (Inr data))
      | _ \<Rightarrow> ?answer = Some (Inl (get_timeout_error ?rid timeout_ms))"
      using polled by (auto split: outcome.splits sum.splits)
  qed simp
qed

theorem submit_fn_result_witness:
  "\<exists>rt N. runtime_new [9] \<lparr>rc_num_cpus = 4, rc_max_workers = 2, rc_object_store_memory = 16\<rparr> = Inr rt \<and>
     (let (r, rt2) = submit_fn [1] [2] [3] ''inc'' [41] (register_function ''inc'' (\<lambda>p. Returns (Inr (map ((+) 1) p))) rt)
      in get_object (\<lambda>_. rt2\<lparr>lr_system := follow node_act round_schedule (\<lambda>_. (id_default, 7, 0)) (lr_system rt2) N\<rparr>)
        (\<lambda>i. i * 10000000) 0 (id_new [1]) 100 = Some (Inr [42]))"
proof -
  let ?f = "\<lambda>p :: bytes. Returns (Inr (map ((+) 1) p))" and ?tot = "res_set resources_new ''CPU'' (f64_of_nat 4)"
  let ?t = "fn_spec (id_new [1]) (id_new [2]) (id_new [3]) ''inc'' [41]" and ?clock = "\<lambda>i :: nat. i * 10000000"
  obtain rt where rt: "runtime_new [9] \<lparr>rc_num_cpus = 4, rc_max_workers = 2, rc_object_store_memory = 16\<rparr> = Inr rt"
    "lr_system rt = scheduler_new (rm_new ?tot) (Registry fr_new) (os_new 16) (wp_new 2)"
    by (simp add: runtime_new_def Let_def)
  let ?ex = "Registry (register_fn ''inc'' ?f fr_new)"
  have reg: "lr_system (register_function ''inc'' ?f rt) = scheduler_new (rm_new ?tot) ?ex (os_new 16) (wp_new 2)"
    by (simp add: register_function_def on_registry_def rt(2) scheduler_new_def)
  have "result_size ?ex ?t \<le> 16"
    by (simp add: result_size_def result_entry_def fn_spec_def registry_execute_def register_fn_def spawn_blocking_def)
  then have serve: "can_serve 1074 ?tot ?t (id_new [1]) (lr_system (register_function ''inc'' ?f rt))"
    unfolding reg by (intro can_serve_new[where rids = "[]"]) (simp_all add: fn_spec_def f64_of_nat_cmp)
  obtain r rt2 where sub: "submit_fn [1] [2] [3] ''inc'' [41] (register_function ''inc'' ?f rt) = (r, rt2)" by force
  let ?run = "follow node_act round_schedule (\<lambda>_. (id_default, 7, 0)) (lr_system rt2)"
  have "sy_executor (lr_system rt) = Registry fr_new" by (simp add: rt(2) scheduler_new_def)
  note main = submit_fn_result[OF this serve, unfolded sub Let_def prod.case, THEN conjunct2, THEN spec, THEN spec, THEN mp]
  have "behaviour node_act round_schedule ?run \<and> fair_schedule round_schedule \<and> ?run 0 = lr_system rt2"
    by (simp add: behaviour_follow round_schedule_fair)
  note main = main[OF this]
  have clock: "poll_sleeps ?clock \<and> 0 \<le> ?clock 0" by (simp add: poll_sleeps_def millis_10)
  have in_time: "\<exists>i. ?clock i \<le> millis 100" by (rule exI[of _ 0]) simp
  obtain N where N: "at_rest node_act (?run N)" using main by blast
  have "get_object (\<lambda>_. rt2\<lparr>lr_system := ?run N\<rparr>) ?clock 0 (id_new [1]) 100 = Some (Inr [42])"
    using main[THEN conjunct2, rule_format, OF clock, of "\<lambda>_. N" 100] N in_time by auto
  then show ?thesis using rt(1) sub by (intro exI[of _ rt] exI[of _ N]) simp
qed

end
