(* ===== verification/Worker_Pool_Conc.thy ===== *)
theory Worker_Pool_Conc
  imports Worker_Pool
begin

text \<open>
  Overlapping \<^verbatim>\<open>get_worker\<close> calls of \<^verbatim>\<open>crates/ray-raylet/src/worker.rs\<close>, any number of them, in any order of their
  atomic steps (\<open>get_turn\<close>). \<open>gets_inv\<close> is what holds throughout: only workers of the pool are handed out, busy, within the
  capacity, and a call is refused only when nothing is idle and the pool is full. What does not hold is that
  a worker is handed out once: \<open>scan_shares\<close> runs any number of calls into the same worker.
\<close>

section \<open>What overlapping calls guarantee\<close>

definition get_pc_ok :: "WorkerPool \<Rightarrow> get_pc \<Rightarrow> bool" where
  "get_pc_ok p c =
     (case c of
        GetScan as \<Rightarrow> set as \<subseteq> set (wp_workers p)
      | GetStore a \<Rightarrow> a \<in> set (wp_workers p)
      | GetDone (Some a) \<Rightarrow> a \<in> set (wp_workers p) \<and> is_busy (wp_heap p ! a)
      | GetDone None \<Rightarrow> length (wp_workers p) = wp_max_workers p \<and> (\<forall>a\<in>set (wp_workers p). \<not> is_idle (wp_heap p ! a))
      | _ \<Rightarrow> True)"

definition gets_inv :: "get_pc list \<times> WorkerPool \<Rightarrow> bool" where
  "gets_inv cp \<longleftrightarrow> wp_inv (snd cp) \<and> (\<forall>c\<in>set (fst cp). get_pc_ok (snd cp) c)"

text \<open>A pool that has grown, or in which idle workers became busy.\<close>

definition pool_grows :: "WorkerPool \<Rightarrow> WorkerPool \<Rightarrow> bool" where
  "pool_grows p p' \<longleftrightarrow>
     (\<exists>new. wp_workers p' = wp_workers p @ new \<and> (new \<noteq> [] \<longrightarrow> length (wp_workers p) < wp_max_workers p)) \<and>
     wp_max_workers p' = wp_max_workers p \<and>
     (\<forall>a\<in>set (wp_workers p). wp_heap p' ! a = wp_heap p ! a \<or> is_busy (wp_heap p' ! a))"

lemma pool_grows_ok: "pool_grows p p' \<Longrightarrow> get_pc_ok p c \<Longrightarrow> get_pc_ok p' c"
proof -
  assume grows: "pool_grows p p'" and ok: "get_pc_ok p c"
  obtain new where new: "wp_workers p' = wp_workers p @ new" "new \<noteq> [] \<longrightarrow> length (wp_workers p) < wp_max_workers p"
    using grows by (auto simp: pool_grows_def)
  have heap: "is_busy (wp_heap p ! a) \<Longrightarrow> is_busy (wp_heap p' ! a)" "\<not> is_idle (wp_heap p ! a) \<Longrightarrow> \<not> is_idle (wp_heap p' ! a)"
    if "a \<in> set (wp_workers p)" for a
    using grows that by (auto simp: pool_grows_def status_defs)
  show ?thesis
  proof (cases c)
    case (GetDone w)
    show ?thesis
    proof (cases w)
      case None
      then have "new = []" using GetDone ok new(2) by (auto simp: get_pc_ok_def)
      then show ?thesis using None GetDone ok new(1) heap(2) grows by (auto simp: get_pc_ok_def pool_grows_def)
    qed (use GetDone ok new(1) heap(1) in \<open>auto simp: get_pc_ok_def\<close>)
  qed (use ok new(1) in \<open>auto simp: get_pc_ok_def\<close>)
qed

lemma pool_grows_busy: "wp_inv p \<Longrightarrow> a \<in> set (wp_workers p) \<Longrightarrow> pool_grows p (mark_busy a p)"
  "wp_inv p \<Longrightarrow> a \<in> set (wp_workers p) \<Longrightarrow> is_busy (wp_heap (mark_busy a p) ! a)"
  by (auto simp: pool_grows_def wp_inv_def list_all_iff store_status_nth status_defs)

lemma get_worker_write_ok:
  assumes "wp_inv p" "get_worker_write wid pid p = (w, p')"
  shows "pool_grows p p' \<and> get_pc_ok p' (GetDone w)"
proof (cases "find_idle p")
  case (Some a)
  then have "w = Some a" "p' = mark_busy a p" using assms(2) by (auto simp: get_worker_write_def)
  then show ?thesis using find_idle_Some[OF Some] pool_grows_busy[OF assms(1), of a] by (simp add: get_pc_ok_def)
next
  case None
  then have idle: "\<forall>a\<in>set (wp_workers p). \<not> is_idle (wp_heap p ! a)" by (simp add: find_idle_None)
  show ?thesis
  proof (cases "length (wp_workers p) < wp_max_workers p")
    case True
    then show ?thesis using assms None
      by (auto simp: get_worker_write_def push_worker_eq pool_grows_def get_pc_ok_def wp_inv_def list_all_iff nth_append status_defs)
  next
    case False
    then show ?thesis using assms None idle by (auto simp: get_worker_write_def pool_grows_def get_pc_ok_def wp_inv_def)
  qed
qed

lemma get_step_ok:
  assumes "wp_inv p" "get_pc_ok p c" "get_step wid pid (c, p) = (c', p')"
  shows "pool_grows p p' \<and> get_pc_ok p' c'"
proof (cases "(wid, pid, (c, p))" rule: get_step.cases)
  case (4 wid pid a p)
  then show ?thesis using assms pool_grows_busy[of p a]
    by (auto simp: get_pc_ok_def pool_grows_def)
next
  case (5 wid pid p)
  then show ?thesis using assms get_worker_write_ok[of p wid pid]
    by (auto simp: pool_grows_def get_pc_ok_def split: if_splits prod.splits)
qed (use assms in \<open>auto simp: get_pc_ok_def pool_grows_def split: if_splits\<close>)

lemma get_turn_inv: "gets_inv cp \<Longrightarrow> gets_inv (get_turn wid pid i cp)"
proof -
  assume inv: "gets_inv cp"
  obtain cs p where cp: "cp = (cs, p)" by force
  show ?thesis
  proof (cases "i < length cs")
    case True
    obtain c p' where step: "get_step wid pid (cs ! i, p) = (c, p')" by force
    have "get_pc_ok p (cs ! i)" "wp_inv p" using inv cp True by (auto simp: gets_inv_def)
    note ok = get_step_ok[OF this(2,1) step]
    have "wp_inv p'" using wp_inv_get_step[OF \<open>wp_inv p\<close>, of wid pid "cs ! i"] step by simp
    moreover have "get_pc_ok p' d" if "d \<in> set (cs[i := c])" for d
      using that ok inv cp pool_grows_ok set_update_subset_insert[of cs i c] by (auto simp: gets_inv_def)
    ultimately show ?thesis using True step by (simp add: cp get_turn_def gets_inv_def)
  qed (use inv cp in \<open>simp add: get_turn_def\<close>)
qed

lemma get_turns_inv: "gets_inv cp \<Longrightarrow> gets_inv (fold (\<lambda>(i, wid, pid). get_turn wid pid i) turns cp)"
proof (induction turns arbitrary: cp)
  case (Cons t turns)
  then show ?case using get_turn_inv by (simp add: split_beta)
qed simp

lemma get_turns_max: "wp_max_workers (snd (fold (\<lambda>(i, wid, pid). get_turn wid pid i) turns cp)) = wp_max_workers (snd cp)"
proof (induction turns arbitrary: cp)
  case (Cons t turns)
  have "wp_max_workers (snd (get_turn wid pid i cp)) = wp_max_workers (snd cp)" for wid pid i
    using wp_max_get_step[of wid pid "fst cp ! i" "snd cp"] by (auto simp: get_turn_def Let_def split_beta)
  then show ?case using Cons by (simp add: split_beta)
qed simp

section \<open>What they do not guarantee\<close>

text \<open>A round in which each of \<open>n\<close> calls makes the same step; \<open>q k\<close> is the pool after the first \<open>k\<close> of them.\<close>

lemma get_round:
  assumes "\<And>k. k < n \<Longrightarrow> get_step wid pid (c, q k) = (c', q (Suc k))"
  shows "fold (\<lambda>i. get_turn wid pid i) [0..<n] (replicate n c, q 0) = (replicate n c', q n)"
proof -
  have "fold (\<lambda>i. get_turn wid pid i) [0..<k] (replicate n c, q 0) = (replicate k c' @ replicate (n - k) c, q k)" if "k \<le> n" for k
    using that
  proof (induction k)
    case (Suc k)
    have "(replicate k c' @ replicate (n - k) c)[k := c'] = replicate (Suc k) c' @ replicate (n - Suc k) c"
      using Suc.prems by (simp add: list_update_append replicate_append_same Cons_replicate_eq[symmetric] flip: replicate_Suc)
         (metis Suc_diff_Suc Suc_le_lessD append_Cons append_assoc append_self_conv2 list_update_code(2) replicate_Suc replicate_append_same)
    then show ?case using Suc assms[of k] by (simp add: get_turn_def nth_append)
  qed simp
  from this[of n] show ?thesis by simp
qed

lemma get_rounds_scan:
  assumes "\<forall>b\<in>set pre. \<not> is_idle (wp_heap q ! b)"
  shows "fold (\<lambda>i. get_turn wid pid i) (concat (replicate (length pre) [0..<n])) (replicate n (GetScan (pre @ a # as)), q)
    = (replicate n (GetScan (a # as)), q)"
  using assms
proof (induction pre)
  case (Cons b pre)
  have "fold (\<lambda>i. get_turn wid pid i) [0..<n] (replicate n (GetScan (b # pre @ a # as)), q) = (replicate n (GetScan (pre @ a # as)), q)"
    using get_round[of n wid pid "GetScan (b # pre @ a # as)" "\<lambda>_. q"] Cons.prems by simp
  then show ?case using Cons by simp
qed simp

text \<open>All calls take the read lock, all scan up to the first idle worker, and only then they store \<^verbatim>\<open>busy\<close>.\<close>

lemma scan_shares:
  assumes "find_idle p = Some a"
  shows "\<exists>turns. fst (fold (\<lambda>i. get_turn wid pid i) turns (replicate n GetRead, p)) = replicate n (GetDone (Some a))"
proof -
  obtain pre as where ws: "wp_workers p = pre @ a # as" "\<forall>b\<in>set pre. \<not> is_idle (wp_heap p ! b)" "is_idle (wp_heap p ! a)"
    using assms unfolding find_idle_def find_Some_iff by (metis id_take_nth_drop in_set_conv_nth length_take min_less_iff_conj nth_take)
  let ?fold = "fold (\<lambda>i. get_turn wid pid i)" and ?q = "p\<lparr>wp_readers := wp_readers p + n\<rparr>"
  define r where "r k = (if k = 0 then ?q else (mark_busy a p)\<lparr>wp_readers := wp_readers p + n - k\<rparr>)" for k
  have one: "?fold [0..<n] (replicate n GetRead, p) = (replicate n (GetScan (pre @ a # as)), ?q)"
    using get_round[of n wid pid GetRead "\<lambda>k. p\<lparr>wp_readers := wp_readers p + k\<rparr>"] ws(1) by simp
  have two: "?fold (concat (replicate (length pre) [0..<n])) (replicate n (GetScan (pre @ a # as)), ?q) = (replicate n (GetScan (a # as)), ?q)"
    using ws(2) by (intro get_rounds_scan) simp
  have three: "?fold [0..<n] (replicate n (GetScan (a # as)), ?q) = (replicate n (GetStore a), ?q)"
    using get_round[of n wid pid "GetScan (a # as)" "\<lambda>_. ?q"] ws(3) by simp
  have "get_step wid pid (GetStore a, r k) = (GetDone (Some a), r (Suc k))" for k
    by (cases "a < length (wp_heap p)") (simp_all add: r_def store_status_def list_update_beyond)
  then have four: "?fold [0..<n] (replicate n (GetStore a), ?q) = (replicate n (GetDone (Some a)), r n)"
    using get_round[of n wid pid "GetStore a" r] by (simp add: r_def)
  show ?thesis
    using one two three four by (intro exI[of _ "[0..<n] @ concat (replicate (length pre) [0..<n]) @ [0..<n] @ [0..<n]"]) simp
qed

section \<open>Properties\<close>

text \<open>
  C36. What overlapping \<^verbatim>\<open>get_worker\<close> calls guarantee and what they do not. Whatever the order of the steps of any number of
  calls on a consistent pool: the pool stays within its capacity; a call that returned a worker returned one of the pool, marked
  busy; a call that returned none left a full pool without an idle worker. But the first scan is not
  exclusive: it loads the status and stores \<^verbatim>\<open>busy\<close> in two atomic operations under a lock that other
  readers share, so whenever a worker is idle there is an order in which all the calls return that same worker.
\<close>

theorem overlapping_get_worker:
  assumes "wp_inv p"
  shows "(let (cs, p') = fold (\<lambda>(i, wid, pid). get_turn wid pid i) turns (replicate n GetRead, p)
      in total_count p' \<le> wp_max_workers p \<and>
         (\<forall>c\<in>set cs. case c of
             GetDone (Some a) \<Rightarrow> a \<in> set (wp_workers p') \<and> is_busy (wp_heap p' ! a)
           | GetDone None \<Rightarrow> total_count p' = wp_max_workers p \<and> idle_count p' = 0
           | _ \<Rightarrow> True))
    \<and> (\<forall>a. find_idle p = Some a \<longrightarrow>
         (\<exists>order. fst (fold (\<lambda>i. get_turn wid pid i) order (replicate n GetRead, p)) = replicate n (GetDone (Some a))))"
proof (intro conjI allI impI)
  obtain cs p' where run: "fold (\<lambda>(i, wid, pid). get_turn wid pid i) turns (replicate n GetRead, p) = (cs, p')" by force
  have "gets_inv (replicate n GetRead, p)" using assms by (auto simp: gets_inv_def get_pc_ok_def)
  from get_turns_inv[OF this, of turns] have inv: "wp_inv p'" "\<forall>c\<in>set cs. get_pc_ok p' c" by (simp_all add: run gets_inv_def)
  have max: "wp_max_workers p' = wp_max_workers p" using get_turns_max[of turns "(replicate n GetRead, p)"] by (simp add: run)
  have "case c of GetDone (Some a) \<Rightarrow> a \<in> set (wp_workers p') \<and> is_busy (wp_heap p' ! a)
      | GetDone None \<Rightarrow> total_count p' = wp_max_workers p \<and> idle_count p' = 0 | _ \<Rightarrow> True" if "c \<in> set cs" for c
    using bspec[OF inv(2) that] max
    by (auto simp: get_pc_ok_def total_count_def idle_count_def split: get_pc.splits option.splits)
  then show "let (cs, p') = fold (\<lambda>(i, wid, pid). get_turn wid pid i) turns (replicate n GetRead, p)
      in total_count p' \<le> wp_max_workers p \<and>
         (\<forall>c\<in>set cs. case c of
             GetDone (Some a) \<Rightarrow> a \<in> set (wp_workers p') \<and> is_busy (wp_heap p' ! a)
           | GetDone None \<Rightarrow> total_count p' = wp_max_workers p \<and> idle_count p' = 0
           | _ \<Rightarrow> True)"
    using inv(1) max unfolding run Let_def prod.case by (auto simp: wp_inv_def total_count_def)
qed (rule scan_shares)

theorem overlapping_get_worker_witness:
  "let p = return_worker 0 (snd (get_worker id_default 7 (wp_new 2)))
   in find_idle p = Some 0 \<and> (\<exists>order. fst (fold (\<lambda>i. get_turn id_default 7 i) order (replicate 2 GetRead, p)) = replicate 2 (GetDone (Some 0)))"
proof -
  let ?p = "return_worker 0 (snd (get_worker id_default 7 (wp_new 2)))"
  have p: "?p = \<lparr>wp_heap = [\<lparr>wh_worker_id = id_default, wh_pid = 7, wh_status = WORKER_IDLE\<rparr>], wp_workers = [0], wp_max_workers = 2, wp_readers = 0\<rparr>"
    by (simp add: get_worker_def get_worker_write_def find_idle_def push_worker_eq wp_new_def return_worker_def store_status_def status_defs)
  have "wp_inv ?p" unfolding p by (simp add: wp_inv_def)
  moreover have "find_idle ?p = Some 0" unfolding p by (simp add: find_idle_def is_idle_def)
  ultimately show ?thesis using overlapping_get_worker[of ?p "[]" 2 id_default 7] unfolding Let_def by blast
qed

end
