(* ===== verification/Unit_Tests.thy ===== *)
theory Unit_Tests
  imports Local_Demo Global_Scheduler Core_Proto_Conv Core_Serialize
begin

text \<open>
  The unit tests of the crates as predicates over the model, in the order of the files. A test
  that holds in the model is evidence that the definitions are those of the code. Where a test
  generates identifiers they are arguments here, so each test holds for all of them; a generated
  identifier that a test expects to be new is a hypothesis.
\<close>

definition unwrapped :: "'a RayResult \<Rightarrow> ('a \<Rightarrow> bool) \<Rightarrow> bool" where
  "unwrapped r P = (case r of Inr a \<Rightarrow> P a | Inl e \<Rightarrow> False)"

lemma unwrapped_simps [simp]: "unwrapped (Inr a) P = P a" "\<not> unwrapped (Inl e) P"
  by (simp_all add: unwrapped_def)

abbreviation res :: "(string \<times> nat) list \<Rightarrow> Resources" where
  "res kvs \<equiv> foldl (\<lambda>r (k, n). res_set r k (f64_of_nat n)) resources_new kvs"

lemmas res_eval = res_set_def res_get_def resources_new_def res_subtract_def res_add_def can_satisfy_def
  subtract_entry_def add_entry_def hm_insert_def hm_remove_def hm_get_def f64_of_nat_sub f64_of_nat_add f64_of_nat_cmp

lemma f64_of_nat_pos: "0 < k \<Longrightarrow> k \<le> 2 ^ 53 \<Longrightarrow> \<not> f64_le (f64_of_nat k) f64_zero"
  by (simp add: f64_of_nat_Fin f64_zero_def zero_less_mult_iff not_le f64_unit_def)

section \<open>ray-core\<close>

text \<open>
  Two generated identifiers differ when their sixteen random bytes do. \<^verbatim>\<open>from_bytes\<close> is the constructor of the type; its argument
  has the right length by its Rust type.
\<close>

definition test_id_generation :: "bytes \<Rightarrow> bytes \<Rightarrow> bool" where
  "test_id_generation uuid1 uuid2 = ((id_new uuid1 :: TaskId) \<noteq> id_new uuid2)"

definition test_id_from_bytes :: bool where
  "test_id_from_bytes = (let bs = replicate 16 42 in as_bytes (Byte_Array bs :: TaskId) = bs)"

definition test_object_id_size :: "bytes \<Rightarrow> bool" where
  "test_object_id_size uuid = (length (as_bytes (id_new uuid :: ObjectId)) = 28)"

lemma id_generation_test:
  "length uuid1 = 16 \<Longrightarrow> length uuid2 = 16 \<Longrightarrow> uuid1 \<noteq> uuid2 \<Longrightarrow> test_id_generation uuid1 uuid2"
  by (simp add: test_id_generation_def as_bytes_inject[symmetric] id_new.rep_eq copy_into_zeroed_exact)

lemma id_tests: "test_id_from_bytes" "test_object_id_size uuid"
  by (simp_all add: test_id_from_bytes_def test_object_id_size_def Byte_Array_inverse id_new.rep_eq copy_into_zeroed_eq)

definition test_can_satisfy :: bool where
  "test_can_satisfy =
     (let available = res [(''CPU'', 4), (''GPU'', 2)]; required = res [(''CPU'', 2), (''GPU'', 1)];
          too_much = res [(''CPU'', 8)]
      in can_satisfy available required \<and> \<not> can_satisfy available too_much)"

definition test_subtract_add :: bool where
  "test_subtract_add =
     (let available = res [(''CPU'', 4), (''GPU'', 2)]; used = res [(''CPU'', 1), (''GPU'', 1)];
          a1 = res_subtract available used; a2 = res_add a1 used
      in res_get a1 ''CPU'' = f64_of_nat 3 \<and> res_get a1 ''GPU'' = f64_of_nat 1
       \<and> res_get a2 ''CPU'' = f64_of_nat 4 \<and> res_get a2 ''GPU'' = f64_of_nat 2)"

lemma resource_tests: "test_can_satisfy" "test_subtract_add"
  by (simp_all add: test_can_satisfy_def test_subtract_add_def res_eval f64_of_nat_pos Let_def del: One_nat_def)

definition test_roundtrip :: "(u32 list, bytes) codec \<Rightarrow> bool" where
  "test_roundtrip bincode =
     (let original = [1, 2, 3, 42]
      in unwrapped (serialize bincode original) (\<lambda>bs. unwrapped (deserialize bincode bs) (\<lambda>restored. original = restored)))"

definition test_json_roundtrip :: "(i64 list, string) codec \<Rightarrow> bool" where
  "test_json_roundtrip json =
     (let original = [1, 2, 3]
      in unwrapped (serialize_json json original) (\<lambda>s. unwrapped (deserialize_json json s) (\<lambda>restored. original = restored)))"

text \<open>What the tests rely on: the codec encodes every value to something it decodes back to the value.\<close>

definition codec_lossless :: "('v, 'b) codec \<Rightarrow> bool" where
  "codec_lossless c \<longleftrightarrow> (\<forall>v. \<exists>b. enc c v = Inr b \<and> dec c b = Inr v)"

lemma serialize_tests:
  "codec_lossless bincode \<Longrightarrow> test_roundtrip bincode" "codec_lossless json \<Longrightarrow> test_json_roundtrip json"
proof -
  assume "codec_lossless bincode"
  then obtain bs where "enc bincode [1, 2, 3, 42] = Inr bs" "dec bincode bs = Inr [1, 2, 3, 42]"
    by (auto simp: codec_lossless_def)
  then show "test_roundtrip bincode" by (simp add: test_roundtrip_def serialize_def deserialize_def)
next
  assume "codec_lossless json"
  then obtain s where "enc json [1, 2, 3] = Inr s" "dec json s = Inr [1, 2, 3]" by (auto simp: codec_lossless_def)
  then show "test_json_roundtrip json" by (simp add: test_json_roundtrip_def serialize_json_def deserialize_json_def)
qed

definition test_id_roundtrip_task_id :: "bytes \<Rightarrow> bool" where
  "test_id_roundtrip_task_id uuid = (let original = id_new uuid :: TaskId in original = id_from_proto (id_to_proto original))"

definition test_id_roundtrip_object_id :: "bytes \<Rightarrow> bool" where
  "test_id_roundtrip_object_id uuid = (let original = id_new uuid :: ObjectId in original = id_from_proto (id_to_proto original))"

definition test_id_roundtrip_node_id :: "bytes \<Rightarrow> bool" where
  "test_id_roundtrip_node_id uuid = (let original = id_new uuid :: NodeId in original = id_from_proto (id_to_proto original))"

definition test_id_roundtrip_actor_id :: "bytes \<Rightarrow> bool" where
  "test_id_roundtrip_actor_id uuid = (let original = id_new uuid :: ActorId in original = id_from_proto (id_to_proto original))"

definition test_id_roundtrip_worker_id :: "bytes \<Rightarrow> bool" where
  "test_id_roundtrip_worker_id uuid = (let original = id_new uuid :: WorkerId in original = id_from_proto (id_to_proto original))"

definition test_id_roundtrip_job_id :: "bytes \<Rightarrow> bool" where
  "test_id_roundtrip_job_id uuid = (let original = id_new uuid :: JobId in original = id_from_proto (id_to_proto original))"

definition test_id_from_option_none :: bool where
  "test_id_from_option_none = ((id_from_option None :: TaskId) = id_default)"

definition test_id_from_option_some :: "bytes \<Rightarrow> bool" where
  "test_id_from_option_some uuid =
     (let original = id_new uuid :: TaskId in id_from_option (Some \<lparr>p_id = to_vec original\<rparr>) = original)"

lemma id_conversion_tests:
  "test_id_roundtrip_task_id uuid" "test_id_roundtrip_object_id uuid" "test_id_roundtrip_node_id uuid"
  "test_id_roundtrip_actor_id uuid" "test_id_roundtrip_worker_id uuid" "test_id_roundtrip_job_id uuid"
  "test_id_from_option_none" "test_id_from_option_some uuid"
  by (simp_all add: test_id_roundtrip_task_id_def test_id_roundtrip_object_id_def test_id_roundtrip_node_id_def
      test_id_roundtrip_actor_id_def test_id_roundtrip_worker_id_def test_id_roundtrip_job_id_def
      test_id_from_option_none_def test_id_from_option_some_def id_from_option_def id_to_proto_def[symmetric])

definition test_resources_roundtrip :: bool where
  "test_resources_roundtrip =
     (let original = res [(''CPU'', 4), (''GPU'', 2), (''memory'', 1024)];
          restored = resources_from_proto (resources_to_proto original)
      in res_get original ''CPU'' = res_get restored ''CPU'' \<and> res_get original ''GPU'' = res_get restored ''GPU''
       \<and> res_get original ''memory'' = res_get restored ''memory'')"

definition test_resources_from_option_none :: bool where
  "test_resources_from_option_none = (res_map (resources_from_option None) = [])"

lemma res_ok_list: "hm_ok (res_map (res kvs))"
proof -
  have "hm_ok (res_map r) \<Longrightarrow> hm_ok (res_map (foldl (\<lambda>r (k, n). res_set r k (f64_of_nat n)) r kvs))" for r
    by (induction kvs arbitrary: r) (auto simp: res_set_def)
  then show ?thesis by (simp add: resources_new_def)
qed

lemma resources_conversion_tests: "test_resources_roundtrip" "test_resources_from_option_none"
  using resources_proto_roundtrip[OF res_ok_list]
  by (simp_all add: test_resources_roundtrip_def test_resources_from_option_none_def resources_from_option_def resources_new_def del: foldl.simps)

definition test_task_spec_roundtrip :: "(nat \<Rightarrow> bytes) \<Rightarrow> bool" where
  "test_task_spec_roundtrip uuid =
     (let original = \<lparr>ts_task_id = id_new (uuid 0), ts_job_id = id_new (uuid 1), ts_function_name = ''my_func'',
            ts_function_payload = [1, 2, 3, 4], ts_return_ids = [id_new (uuid 2)],
            ts_dependency_ids = [id_new (uuid 3), id_new (uuid 4)], ts_required_resources = res [(''CPU'', 2)], ts_max_retries = 3\<rparr>
      in unwrapped (task_spec_from_proto (task_spec_to_proto original)) (\<lambda>restored.
           ts_task_id original = ts_task_id restored \<and> ts_job_id original = ts_job_id restored
         \<and> ts_function_name original = ts_function_name restored
         \<and> ts_function_payload original = ts_function_payload restored
         \<and> length (ts_return_ids original) = length (ts_return_ids restored)
         \<and> length (ts_dependency_ids original) = length (ts_dependency_ids restored)
         \<and> res_get (ts_required_resources original) ''CPU'' = res_get (ts_required_resources restored) ''CPU''
         \<and> ts_max_retries original = ts_max_retries restored))"

definition test_actor_spec_roundtrip :: "(nat \<Rightarrow> bytes) \<Rightarrow> bool" where
  "test_actor_spec_roundtrip uuid =
     (let original = \<lparr>as_actor_id = id_new (uuid 0), as_job_id = id_new (uuid 1), as_class_name = ''MyActor'',
            as_class_payload = [10, 20], as_constructor_args = [30, 40],
            as_required_resources = res [(''CPU'', 1), (''GPU'', 1)], as_max_restarts = 5\<rparr>
      in unwrapped (actor_spec_from_proto (actor_spec_to_proto original)) (\<lambda>restored.
           as_actor_id original = as_actor_id restored \<and> as_job_id original = as_job_id restored
         \<and> as_class_name original = as_class_name restored \<and> as_class_payload original = as_class_payload restored
         \<and> as_constructor_args original = as_constructor_args restored
         \<and> as_max_restarts original = as_max_restarts restored))"

lemma spec_conversion_tests: "test_task_spec_roundtrip uuid" "test_actor_spec_roundtrip uuid"
  using resources_proto_roundtrip[OF res_ok_list]
  by (simp_all add: test_task_spec_roundtrip_def test_actor_spec_roundtrip_def task_spec_from_proto_def
      task_spec_to_proto_def actor_spec_from_proto_def actor_spec_to_proto_def id_to_option_Some resources_to_option_def
      resources_from_option_def required_def del: foldl.simps)

definition test_task_status_roundtrip :: bool where
  "test_task_status_roundtrip =
     list_all (\<lambda>s. s = task_status_from_proto (task_status_to_proto s))
       [TS_Pending, TS_Scheduled, TS_Running, TS_Finished, TS_Failed, TS_Cancelled]"

definition test_actor_state_roundtrip :: bool where
  "test_actor_state_roundtrip =
     list_all (\<lambda>s. s = actor_state_from_proto (actor_state_to_proto s)) [AS_Pending, AS_Alive, AS_Restarting, AS_Dead]"

definition test_task_status_unspecified_defaults_to_pending :: bool where
  "test_task_status_unspecified_defaults_to_pending = (task_status_from_proto 0 = TS_Pending)"

definition test_actor_state_unspecified_defaults_to_pending :: bool where
  "test_actor_state_unspecified_defaults_to_pending = (actor_state_from_proto 0 = AS_Pending)"

lemma state_conversion_tests:
  "test_task_status_roundtrip" "test_actor_state_roundtrip"
  "test_task_status_unspecified_defaults_to_pending" "test_actor_state_unspecified_defaults_to_pending"
  by (simp_all add: test_task_status_roundtrip_def test_actor_state_roundtrip_def
      test_task_status_unspecified_defaults_to_pending_def test_actor_state_unspecified_defaults_to_pending_def
      task_status_from_proto_def actor_state_from_proto_def)

section \<open>ray-raylet\<close>

definition test_allocate_and_release :: bool where
  "test_allocate_and_release =
     (let rm = rm_new (res [(''CPU'', 4), (''GPU'', 2)]); req = res [(''CPU'', 1), (''GPU'', 1)];
          (r, rm1) = try_allocate req rm; rm2 = rm_release req rm1
      in unwrapped r (\<lambda>granted. granted)
       \<and> res_get (rm_available rm1) ''CPU'' = f64_of_nat 3 \<and> res_get (rm_available rm1) ''GPU'' = f64_of_nat 1
       \<and> res_get (rm_available rm2) ''CPU'' = f64_of_nat 4 \<and> res_get (rm_available rm2) ''GPU'' = f64_of_nat 2)"

definition test_insufficient_resources :: bool where
  "test_insufficient_resources =
     (let rm = rm_new (res [(''CPU'', 2)]); req = res [(''CPU'', 4)]
      in unwrapped (fst (try_allocate req rm)) (\<lambda>granted. \<not> granted))"

lemma resource_manager_tests: "test_allocate_and_release" "test_insufficient_resources"
  by (simp_all add: test_allocate_and_release_def test_insufficient_resources_def try_allocate_def rm_release_def rm_new_def
      res_eval f64_of_nat_pos Let_def del: One_nat_def)

definition test_worker_pool_spawn_and_return :: "(nat \<Rightarrow> WorkerId) \<Rightarrow> u32 \<Rightarrow> bool" where
  "test_worker_pool_spawn_and_return wid pid =
     (case get_worker (wid 0) pid (wp_new 2) of
        (Some w1, p1) \<Rightarrow> is_busy (wp_heap p1 ! w1) \<and> total_count p1 = 1 \<and>
          (case get_worker (wid 1) pid p1 of
             (Some w2, p2) \<Rightarrow> is_busy (wp_heap p2 ! w2) \<and> total_count p2 = 2 \<and>
               (case get_worker (wid 2) pid p2 of
                  (r, p3) \<Rightarrow> r = None \<and>
                    (let p4 = return_worker w1 p3
                     in is_idle (wp_heap p4 ! w1) \<and>
                        (case get_worker (wid 3) pid p4 of
                           (Some w3, p5) \<Rightarrow> wh_worker_id (wp_heap p5 ! w3) = wh_worker_id (wp_heap p5 ! w1)
                         | _ \<Rightarrow> False)))
           | _ \<Rightarrow> False)
      | _ \<Rightarrow> False)"

definition test_worker_pool_kill :: "WorkerId \<Rightarrow> u32 \<Rightarrow> bool" where
  "test_worker_pool_kill wid pid =
     (case get_worker wid pid (wp_new 2) of
        (Some w, p1) \<Rightarrow> total_count p1 = 1 \<and> total_count (kill_worker (wh_worker_id (wp_heap p1 ! w)) p1) = 0
      | _ \<Rightarrow> False)"

text \<open>A handle outside a pool: the heap holds it alone.\<close>

definition test_worker_handle_status :: "WorkerId \<Rightarrow> u32 \<Rightarrow> bool" where
  "test_worker_handle_status wid pid =
     (let p = (wp_new 0)\<lparr>wp_heap := [new_in_process wid pid]\<rparr>; h = (\<lambda>p. wp_heap p ! 0);
          p1 = mark_busy 0 p; p2 = mark_dead 0 p1
      in is_idle (h p) \<and> is_busy (h p1) \<and> \<not> is_idle (h p1) \<and> is_dead (h p2) \<and> \<not> is_busy (h p2))"

lemma worker_tests:
  "test_worker_pool_spawn_and_return wids pid" "test_worker_pool_kill wid pid" "test_worker_handle_status wid pid"
  by (simp_all add: test_worker_pool_spawn_and_return_def test_worker_pool_kill_def test_worker_handle_status_def
      get_worker_def get_worker_write_def find_idle_def push_worker_def return_worker_def kill_worker_def kill_mark_def
      retain_live_def store_status_def wp_new_def new_in_process_def is_idle_def is_busy_def is_dead_def total_count_def Let_def)

definition make_task :: "(nat \<Rightarrow> bytes) \<Rightarrow> string \<Rightarrow> bytes \<Rightarrow> TaskSpec" where
  "make_task uuid name payload =
     \<lparr>ts_task_id = id_new (uuid 0), ts_job_id = id_new (uuid 1), ts_function_name = name, ts_function_payload = payload,
      ts_return_ids = [id_new (uuid 2)], ts_dependency_ids = [], ts_required_resources = res [(''CPU'', 1)], ts_max_retries = 0\<rparr>"

definition test_local_executor_echo :: "(nat \<Rightarrow> bytes) \<Rightarrow> bool" where
  "test_local_executor_echo uuid =
     unwrapped (execute LocalExecutor (make_task uuid ''echo'' [1, 2, 3])) (\<lambda>result. result = [1, 2, 3])"

definition test_function_registry_executor :: "(nat \<Rightarrow> bytes) \<Rightarrow> bool" where
  "test_function_registry_executor uuid =
     (let executor = register_fn ''double'' (\<lambda>payload. Returns (Inr (concat (map (\<lambda>b. [b, b]) payload)))) fr_new
      in unwrapped (execute (Registry executor) (make_task uuid ''double'' [1, 2, 3])) (\<lambda>result. result = [1, 1, 2, 2, 3, 3]))"

definition test_function_registry_missing_fn :: "(nat \<Rightarrow> bytes) \<Rightarrow> bool" where
  "test_function_registry_missing_fn uuid = (\<not> is_ok (execute (Registry fr_new) (make_task uuid ''nonexistent'' [])))"

lemma executor_tests:
  "test_local_executor_echo uuid" "test_function_registry_executor uuid" "test_function_registry_missing_fn uuid"
  by (simp_all add: test_local_executor_echo_def test_function_registry_executor_def test_function_registry_missing_fn_def
      make_task_def local_execute_def registry_execute_def register_fn_def fr_new_def spawn_blocking_def)

section \<open>ray-object-store\<close>

definition test_put_and_get :: "(nat \<Rightarrow> nat) \<Rightarrow> nat \<Rightarrow> bytes \<Rightarrow> bool" where
  "test_put_and_get clock now uuid =
     (let oid = id_new uuid; data = [1, 2, 3, 4, 5]; (r, store) = os_put now oid data (os_new 0)
      in unwrapped r (\<lambda>_. case os_get (\<lambda>_. store) clock 0 oid 1000 of
           Some g \<Rightarrow> unwrapped g (\<lambda>result. result = data) | None \<Rightarrow> False))"

definition test_contains :: "nat \<Rightarrow> bytes \<Rightarrow> bool" where
  "test_contains now uuid =
     (let oid = id_new uuid; (r, store) = os_put now oid [42] (os_new 0)
      in unwrapped (os_contains oid (os_new 0)) (\<lambda>b. \<not> b) \<and> unwrapped r (\<lambda>_. unwrapped (os_contains oid store) (\<lambda>b. b)))"

definition test_delete :: "nat \<Rightarrow> bytes \<Rightarrow> bool" where
  "test_delete now uuid =
     (let oid = id_new uuid; (r, s1) = os_put now oid [1] (os_new 0); (d, s2) = os_delete oid s1
      in unwrapped r (\<lambda>_. unwrapped d (\<lambda>_. unwrapped (os_contains oid s2) (\<lambda>b. \<not> b))))"

definition test_reference_counting :: "nat \<Rightarrow> bytes \<Rightarrow> bool" where
  "test_reference_counting now uuid =
     (let oid = id_new uuid; (r, s1) = os_put now oid [1, 2] (os_new 0);
          refs = (\<lambda>s. map_option oe_ref_count (get_entry s oid));
          s2 = add_reference oid s1; (b1, s3) = remove_reference oid s2; (b2, s4) = remove_reference oid s3
      in unwrapped r (\<lambda>_. refs s1 = Some 1) \<and> refs s2 = Some 2 \<and> \<not> b1 \<and> refs s3 = Some 1 \<and> b2 \<and> get_entry s4 oid = None)"

definition test_spill_and_restore :: "'fs fs_ops \<Rightarrow> 'fs \<Rightarrow> string \<Rightarrow> nat \<Rightarrow> bytes \<Rightarrow> bool" where
  "test_spill_and_restore fs f0 dir now uuid =
     (let oid = id_new uuid; data = [10, 20, 30, 40]; (r, s1) = os_put now oid data (os_new 0);
          (r1, s2, f1) = spill_to_disk fs oid dir (s1, f0); (r2, s3, f2) = restore_from_disk fs oid (s2, f1)
      in unwrapped r (\<lambda>_. unwrapped r1 (\<lambda>_.
           (case get_entry s2 oid of Some e \<Rightarrow> oe_is_spilled e | None \<Rightarrow> False) \<and>
           unwrapped r2 (\<lambda>_. case get_entry s3 oid of Some e \<Rightarrow> \<not> oe_is_spilled e \<and> oe_data e = data | None \<Rightarrow> False))))"

lemma put_new_store: "os_put now oid data (os_new 0) = (Inr (), put_insert now oid data (os_new 0))"
  by (simp add: os_put_def os_new_def)

lemma store_tests:
  "poll_sleeps clock \<Longrightarrow> test_put_and_get clock now uuid" "test_contains now uuid" "test_delete now uuid"
  "test_reference_counting now uuid"
  by (simp_all add: test_put_and_get_def test_contains_def test_delete_def test_reference_counting_def put_new_store os_get_still)
     (simp_all add: os_contains_def os_new_def os_delete_def put_insert_def get_entry_def add_reference_def remove_reference_def
       saturating_sub_def Let_def)

text \<open>On the file system of the examples, which keeps a map from paths to contents.\<close>

lemma spill_test: "test_spill_and_restore map_fs Map.empty dir now uuid"
proof -
  let ?oid = "id_new uuid" and ?data = "[10, 20, 30, 40]"
  let ?s1 = "put_insert now ?oid ?data (os_new 0)" and ?path = "spill_path dir (id_new uuid)"
  obtain e where e: "get_entry ?s1 ?oid = Some e" "oe_data e = ?data" by (simp add: put_insert_def get_entry_def)
  have spill: "spill_to_disk map_fs ?oid dir (?s1, Map.empty) = (Inr (), spill_mark ?oid ?path ?s1, [?path \<mapsto> ?data])"
    using e by (simp add: spill_to_disk_def spill_read_def map_fs_def get_entry_def split: option.splits)
  have restore: "restore_from_disk map_fs ?oid (spill_mark ?oid ?path ?s1, [?path \<mapsto> ?data]) =
      (Inr (), restore_store ?oid ?data (spill_mark ?oid ?path ?s1), snd (fs_remove_file map_fs ?path [?path \<mapsto> ?data]))"
    by (rule restore_marked[OF e(1)]) (simp add: map_fs_def)
  have "\<exists>e'. get_entry (spill_mark ?oid ?path ?s1) ?oid = Some e' \<and> oe_is_spilled e'"
    using e(1) by (simp add: spill_mark_def get_entry_def)
  with restore_marked_entry[OF e(1), of ?data ?path] show ?thesis
    by (auto simp: test_spill_and_restore_def put_new_store spill restore)
qed

section \<open>ray-gcs\<close>

definition test_register_and_get_nodes :: "bytes \<Rightarrow> bool" where
  "test_register_and_get_nodes uuid =
     (let node = \<lparr>ni_node_id = id_new uuid, ni_address = ''127.0.0.1'', ni_port = 6379,
            ni_total_resources = res [(''CPU'', 4)], ni_available_resources = res [(''CPU'', 4)], ni_is_alive = True\<rparr>;
          (r, store) = register_node node gcs_new
      in unwrapped r (\<lambda>_. unwrapped (get_all_nodes store) (\<lambda>nodes. length nodes = 1)))"

lemma gcs_test: "test_register_and_get_nodes uuid"
  by (simp add: test_register_and_get_nodes_def register_node_def get_all_nodes_def gcs_new_def hm_insert_def hm_values_def Let_def)

section \<open>ray-scheduler\<close>

definition make_node :: "NodeId \<Rightarrow> nat \<Rightarrow> nat \<Rightarrow> NodeView" where
  "make_node nid cpus tot =
     \<lparr>nv_node_id = nid, nv_address = ''127.0.0.1'', nv_port = 6379, nv_available = res [(''CPU'', cpus)],
      nv_total = res [(''CPU'', tot)], nv_is_alive = True\<rparr>"

definition test_spread_policy :: "(nat \<Rightarrow> NodeId) \<Rightarrow> bool" where
  "test_spread_policy nid =
     unwrapped (select_node SpreadPolicy [make_node (nid 0) 2 8, make_node (nid 1) 6 8, make_node (nid 2) 4 8] (res [(''CPU'', 1)]))
       (\<lambda>selected. res_get (nv_available selected) ''CPU'' = f64_of_nat 6)"

definition test_pack_policy :: "(nat \<Rightarrow> NodeId) \<Rightarrow> bool" where
  "test_pack_policy nid =
     unwrapped (select_node PackPolicy [make_node (nid 0) 2 8, make_node (nid 1) 6 8, make_node (nid 2) 4 8] (res [(''CPU'', 1)]))
       (\<lambda>selected. res_get (nv_available selected) ''CPU'' = f64_of_nat 2)"

definition placement_task :: "(nat \<Rightarrow> bytes) \<Rightarrow> TaskSpec" where
  "placement_task uuid =
     \<lparr>ts_task_id = id_new (uuid 0), ts_job_id = id_new (uuid 1), ts_function_name = ''test'', ts_function_payload = [],
      ts_return_ids = [], ts_dependency_ids = [], ts_required_resources = res [(''CPU'', 1)], ts_max_retries = 0\<rparr>"

definition test_schedule_task :: "(nat \<Rightarrow> bytes) \<Rightarrow> NodeId \<Rightarrow> NodeId \<Rightarrow> bool" where
  "test_schedule_task uuid id1 id2 =
     (let scheduler = update_node (make_node id2 8 8) (update_node (make_node id1 4 4) with_default_policy)
      in unwrapped (schedule_task (placement_task uuid) scheduler) (hm_contains (gs_nodes scheduler)))"

definition test_no_alive_nodes :: "(nat \<Rightarrow> bytes) \<Rightarrow> bool" where
  "test_no_alive_nodes uuid = (\<not> is_ok (schedule_task (placement_task uuid) with_default_policy))"

lemma cpu_cmp: "a \<le> 2 ^ 53 \<Longrightarrow> b \<le> 2 ^ 53 \<Longrightarrow>
    f64_partial_cmp (f64_of_nat a) (f64_of_nat b) = Some (if a < b then Less else if b < a then Greater else Equal)"
  by (simp add: f64_partial_cmp_def f64_of_nat_cmp)

lemma policy_tests: "test_spread_policy nids" "test_pack_policy nids"
  by (simp_all add: test_spread_policy_def test_pack_policy_def spread_select_def pack_select_def make_node_def node_eligible_def
      cmp_cpu_def cpu_def cpu_cmp res_eval max_by.simps min_by.simps Let_def del: One_nat_def)

lemma placement_tests: "id1 \<noteq> id2 \<Longrightarrow> test_schedule_task uuid id1 id2" "test_no_alive_nodes uuid"
  by (simp_all add: test_schedule_task_def test_no_alive_nodes_def schedule_task_def update_node_def with_default_policy_def
      gs_new_def make_node_def placement_task_def spread_select_def node_eligible_def cmp_cpu_def cpu_def cpu_cmp hm_values_def max_by.simps
      res_eval Let_def del: One_nat_def)

end
