(* ===== verification/Unit_Tests_Async.thy ===== *)
theory Unit_Tests_Async
  imports Unit_Tests Scheduler_Spec
begin

text \<open>
  The unit tests of the scheduler (\<^verbatim>\<open>crates/ray-raylet/src/scheduler.rs\<close>) and of the runtime
  (\<^verbatim>\<open>crates/ray-runtime/src/lib.rs\<close>), which sleep to let the node run. What the node does meanwhile is a
  parameter of each test.
\<close>

section \<open>Tests that wait\<close>

text \<open>
  A test that sleeps lets the node run. Here it runs \<open>k\<close> steps of the event loop and then \<open>m\<close> steps of
  the first background task, if there is one; the tests hold for every \<open>k\<close> that is large enough for
  one command and for every \<open>m\<close>.
\<close>

definition sleep :: "WorkerId \<Rightarrow> u32 \<Rightarrow> nat \<Rightarrow> nat \<Rightarrow> nat \<Rightarrow> System \<Rightarrow> System" where
  "sleep wid pid now k m s = (task_step wid pid now 0 ^^ m) ((loop_step ^^ k) s)"

definition make_scheduler :: System where
  "make_scheduler = scheduler_new (rm_new (res [(''CPU'', 4)])) LocalExecutor (os_new 0) (wp_new 4)"

definition status_is :: "(System \<Rightarrow> System) \<Rightarrow> nat \<Rightarrow> TaskId \<Rightarrow> TaskStatus \<Rightarrow> System \<Rightarrow> bool \<times> System" where
  "status_is wait ch tid st s =
     (let (r, s) = get_task_status_send tid ch s; s = wait s
      in (r = Some (Inr ()) \<and> get_task_status_reply ch s = Some (Inr st), s))"

definition test_submit_and_status :: "(System \<Rightarrow> System) \<Rightarrow> (nat \<Rightarrow> bytes) \<Rightarrow> bool" where
  "test_submit_and_status wait uuid =
     (let spec = (make_task uuid ''test_func'' [42, 43, 44]); (r, s) = submit_task spec make_scheduler
      in r = Some (Inr ()) \<and> fst (status_is wait 0 (ts_task_id spec) TS_Running (wait s)))"

definition test_task_writes_result_to_store :: "(System \<Rightarrow> System) \<Rightarrow> (nat \<Rightarrow> nat) \<Rightarrow> (nat \<Rightarrow> bytes) \<Rightarrow> bool" where
  "test_task_writes_result_to_store wait clock uuid =
     (let spec = make_task uuid ''echo'' [10, 20, 30]; (r, s) = submit_task spec make_scheduler
      in r = Some (Inr ()) \<and>
         (case os_get (\<lambda>_. sy_store (wait s)) clock 0 (hd (ts_return_ids spec)) 1000 of
            Some g \<Rightarrow> unwrapped g (\<lambda>result. result = [10, 20, 30]) | None \<Rightarrow> False))"

definition big_task :: "(nat \<Rightarrow> bytes) \<Rightarrow> string \<Rightarrow> TaskSpec" where
  "big_task uuid name =
     \<lparr>ts_task_id = id_new (uuid 0), ts_job_id = id_new (uuid 1), ts_function_name = name, ts_function_payload = [],
      ts_return_ids = [], ts_dependency_ids = [], ts_required_resources = res [(''CPU'', 100)], ts_max_retries = 0\<rparr>"

definition cancel_scenario :: "(System \<Rightarrow> System) \<Rightarrow> TaskSpec \<Rightarrow> System \<Rightarrow> bool" where
  "cancel_scenario wait spec s0 =
     (let tid = ts_task_id spec; (r1, s1) = submit_task spec s0; (b1, s2) = status_is wait 0 tid TS_Pending (wait s1);
          (r2, s3) = cancel_task tid s2; (b2, s4) = status_is wait 1 tid TS_Cancelled (wait s3)
      in r1 = Some (Inr ()) \<and> b1 \<and> r2 = Some (Inr ()) \<and> b2)"

definition test_cancel_task :: "(System \<Rightarrow> System) \<Rightarrow> (nat \<Rightarrow> bytes) \<Rightarrow> bool" where
  "test_cancel_task wait uuid = cancel_scenario wait (big_task uuid ''test'') make_scheduler"

section \<open>The event loop on its own\<close>

lemma loop_idle: "sy_loop s = LoopRecv \<Longrightarrow> sy_channel s = [] \<Longrightarrow> \<not> sy_senders_dropped s \<Longrightarrow> (loop_step ^^ k) s = s"
  by (induction k) (simp_all add: loop_step_def)

lemma loop_runs:
  assumes "(loop_step ^^ j) s = s'" "sy_loop s' = LoopRecv" "sy_channel s' = []" "\<not> sy_senders_dropped s'" "j \<le> k"
  shows "(loop_step ^^ k) s = s'"
proof -
  have "(loop_step ^^ (k - j + j)) s = s'" using loop_idle[OF assms(2-4), of "k - j"] assms(1) by (simp only: funpow_add comp_apply)
  with assms(5) show ?thesis by simp
qed

lemma drain_frame: "sy_channel (snd (drain q s)) = sy_channel s" "sy_senders_dropped (snd (drain q s)) = sy_senders_dropped s"
  by (induction q arbitrary: s) (simp_all add: split_beta)

lemma loop_iteration_frame:
  "sy_loop (loop_iteration cmd s) = sy_loop s" "sy_channel (loop_iteration cmd s) = sy_channel s"
  "sy_senders_dropped (loop_iteration cmd s) = sy_senders_dropped s"
  by (simp_all add: loop_iteration_def split_beta Let_def drain_loop_keeps drain_frame)

text \<open>One command, handled from a state in which the loop waits.\<close>

lemma loop_command:
  assumes "sy_loop s = LoopRecv" "sy_channel s = [cmd]" "\<not> sy_senders_dropped s"
    and "length (sy_pending (handle_command cmd (s\<lparr>sy_channel := []\<rparr>))) + 2 \<le> k"
  shows "(loop_step ^^ k) s = loop_iteration cmd (s\<lparr>sy_channel := []\<rparr>)"
  by (rule loop_runs[OF iteration_steps[OF assms(1,2)]]) (use assms in \<open>simp_all add: loop_iteration_frame\<close>)

text \<open>A task that does not fit is queued, is reported pending, and is reported cancelled once it is cancelled.\<close>

lemma refused_iterations:
  assumes "\<not> can_satisfy (rm_available (sy_rm s)) (ts_required_resources spec)"
  shows "sy_pending s = [] \<Longrightarrow> loop_iteration (SubmitTask spec) s =
      s\<lparr>sy_statuses := hm_insert (ts_task_id spec) TS_Pending (sy_statuses s), sy_pending := [spec]\<rparr>"
    and "sy_pending s = [spec] \<Longrightarrow> loop_iteration (GetStatus tid ch) s =
      s\<lparr>sy_replies := sy_replies s @ [(ch, case hm_get (sy_statuses s) tid of Some st \<Rightarrow> Inr st | None \<Rightarrow> Inl (task_not_found tid))]\<rparr>"
    and "sy_pending s = [] \<Longrightarrow> loop_iteration (GetStatus tid ch) s =
      s\<lparr>sy_replies := sy_replies s @ [(ch, case hm_get (sy_statuses s) tid of Some st \<Rightarrow> Inr st | None \<Rightarrow> Inl (task_not_found tid))]\<rparr>"
    and "sy_pending s = [spec] \<Longrightarrow> loop_iteration (CancelTask (ts_task_id spec)) s =
      s\<lparr>sy_statuses := hm_modify (ts_task_id spec) (\<lambda>_. TS_Cancelled) (sy_statuses s), sy_pending := []\<rparr>"
  using assms
  by (simp_all add: loop_iteration_def submit_command_def try_start_def try_allocate_def status_command_def cancel_command_def
      set_status_def Let_def)

lemma task_steps_none: "sy_tasks s = [] \<Longrightarrow> (task_step wid pid now 0 ^^ m) s = s"
  by (induction m) (simp_all add: task_step_out)

lemma cancel_scenario_holds:
  assumes "sy_loop s = LoopRecv" "sy_channel s = []" "\<not> sy_senders_dropped s" "sy_pending s = []" "sy_tasks s = []" "sy_replies s = []"
    and "\<not> can_satisfy (rm_available (sy_rm s)) (ts_required_resources spec)" "3 \<le> k"
  shows "cancel_scenario (sleep wid pid now k m) spec s"
proof -
  let ?tid = "ts_task_id spec"
  let ?q = "s\<lparr>sy_statuses := hm_insert ?tid TS_Pending (sy_statuses s), sy_pending := [spec]\<rparr>"
  let ?q1 = "?q\<lparr>sy_replies := [(0, Inr TS_Pending)]\<rparr>"
  let ?q2 = "?q1\<lparr>sy_statuses := hm_modify ?tid (\<lambda>_. TS_Cancelled) (sy_statuses ?q1), sy_pending := []\<rparr>"
  let ?q3 = "?q2\<lparr>sy_replies := [(0, Inr TS_Pending), (1, Inr TS_Cancelled)]\<rparr>"
  note frame = assms(1-6) refused_iterations[OF assms(7)]
  have sleep: "sleep wid pid now k m (x\<lparr>sy_channel := [cmd]\<rparr>) = y"
    if "sy_loop x = LoopRecv" "sy_channel x = []" "\<not> sy_senders_dropped x" "loop_iteration cmd x = y" "sy_tasks y = []"
      "length (sy_pending (handle_command cmd x)) \<le> 1" for x y cmd
  proof -
    have eq: "x\<lparr>sy_channel := [cmd]\<rparr>\<lparr>sy_channel := []\<rparr> = x" using that(2) by (cases x) simp
    have "(loop_step ^^ k) (x\<lparr>sy_channel := [cmd]\<rparr>) = loop_iteration cmd (x\<lparr>sy_channel := [cmd]\<rparr>\<lparr>sy_channel := []\<rparr>)"
      by (rule loop_command) (use that assms(8) in \<open>simp_all only: eq, simp_all\<close>)
    then have "(loop_step ^^ k) (x\<lparr>sy_channel := [cmd]\<rparr>) = y" unfolding eq using that(4) by simp
    then show ?thesis using task_steps_none[OF that(5)] by (simp add: sleep_def)
  qed
  have steps: "sleep wid pid now k m (s\<lparr>sy_channel := [SubmitTask spec]\<rparr>) = ?q"
    "sleep wid pid now k m (?q\<lparr>sy_channel := [GetStatus ?tid 0]\<rparr>) = ?q1"
    "sleep wid pid now k m (?q1\<lparr>sy_channel := [CancelTask ?tid]\<rparr>) = ?q2"
    "sleep wid pid now k m (?q2\<lparr>sy_channel := [GetStatus ?tid 1]\<rparr>) = ?q3"
    by (rule sleep; use assms refused_iterations in
      \<open>simp add: submit_command_def status_command_def cancel_command_def try_start_def try_allocate_def set_status_def\<close>)+
  have send: "send_command cmd s = (Some (Inr ()), s\<lparr>sy_channel := [cmd]\<rparr>)"
    "send_command cmd ?q = (Some (Inr ()), ?q\<lparr>sy_channel := [cmd]\<rparr>)"
    "send_command cmd ?q1 = (Some (Inr ()), ?q1\<lparr>sy_channel := [cmd]\<rparr>)"
    "send_command cmd ?q2 = (Some (Inr ()), ?q2\<lparr>sy_channel := [cmd]\<rparr>)" for cmd
    using assms(1,2) by (simp_all add: send_command_def)
  have b1: "status_is (sleep wid pid now k m) 0 ?tid TS_Pending ?q = (True, ?q1)"
    unfolding status_is_def get_task_status_send_def send(2) Let_def prod.case steps(2)
    by (simp add: get_task_status_reply_def)
  have b2: "status_is (sleep wid pid now k m) 1 ?tid TS_Cancelled ?q2 = (True, ?q3)"
    unfolding status_is_def get_task_status_send_def send(4) Let_def prod.case steps(4)
    by (simp add: get_task_status_reply_def)
  show ?thesis
    unfolding cancel_scenario_def submit_task_def cancel_task_def send(1,3) Let_def prod.case
      steps b1 b2 by simp
qed

lemma scheduler_cancel_test: "3 \<le> k \<Longrightarrow> test_cancel_task (sleep wid pid now k m) uuid"
  unfolding test_cancel_task_def
  by (rule cancel_scenario_holds)
     (simp_all add: make_scheduler_def scheduler_new_def rm_new_def big_task_def res_eval Let_def)

section \<open>A task that runs\<close>

lemma task_step_replies [simp]: "sy_replies (task_step wid pid now i s) = sy_replies s"
  by (auto simp: task_step_def advance_task_def Let_def split_beta
      split: dispatch_pc.splits get_pc.splits put_pc.splits ret_pc.splits)

lemma task_steps_frame:
  "sy_statuses ((task_step wid pid now i ^^ m) s) = sy_statuses s" "sy_loop ((task_step wid pid now i ^^ m) s) = sy_loop s"
  "sy_channel ((task_step wid pid now i ^^ m) s) = sy_channel s" "sy_pending ((task_step wid pid now i ^^ m) s) = sy_pending s"
  "sy_replies ((task_step wid pid now i ^^ m) s) = sy_replies s"
  "sy_senders_dropped ((task_step wid pid now i ^^ m) s) = sy_senders_dropped s"
  by (induction m) simp_all

lemma status_query:
  assumes "sy_loop s = LoopRecv" "sy_channel s = []" "\<not> sy_senders_dropped s" "sy_pending s = []" "sy_replies s = []"
    and "hm_get (sy_statuses s) tid = Some st" "2 \<le> k"
  shows "fst (status_is (sleep wid pid now k m) ch tid st s)"
proof -
  let ?s1 = "s\<lparr>sy_channel := [GetStatus tid ch]\<rparr>"
  have "(loop_step ^^ k) ?s1 = loop_iteration (GetStatus tid ch) (?s1\<lparr>sy_channel := []\<rparr>)"
    by (rule loop_command) (use assms in \<open>simp_all add: status_command_def\<close>)
  then have "sy_replies (sleep wid pid now k m ?s1) = [(ch, Inr st)]"
    using assms by (simp add: sleep_def task_steps_frame loop_iteration_def status_command_def)
  then show ?thesis using assms(1,2)
    by (simp add: status_is_def get_task_status_send_def send_command_def get_task_status_reply_def)
qed

lemma started_status:
  assumes "sy_loop s = LoopRecv" "sy_channel s = []" "\<not> sy_senders_dropped s" "sy_pending s = []" "sy_replies s = []"
    and "can_satisfy (rm_available (sy_rm s)) (ts_required_resources spec)" "2 \<le> k"
  shows "fst (status_is (sleep wid pid now k m) ch (ts_task_id spec) TS_Running
    (sleep wid pid now k m (s\<lparr>sy_channel := [SubmitTask spec]\<rparr>)))"
proof -
  let ?s1 = "s\<lparr>sy_channel := [SubmitTask spec]\<rparr>"
  have "(loop_step ^^ k) ?s1 = loop_iteration (SubmitTask spec) (?s1\<lparr>sy_channel := []\<rparr>)"
    by (rule loop_command)
       (use assms in \<open>simp_all add: submit_command_def try_start_def try_allocate_def dispatch_task_def set_status_def\<close>)
  then show ?thesis
    using assms
    by (intro status_query)
       (simp_all add: sleep_def task_steps_frame loop_iteration_def submit_command_def try_start_def try_allocate_def
          dispatch_task_def set_status_def)
qed

lemma scheduler_status_test: "2 \<le> k \<Longrightarrow> test_submit_and_status (sleep wid pid now k m) uuid"
  using started_status[of make_scheduler "make_task uuid ''test_func'' [42, 43, 44]" k wid pid now m 0]
  by (simp add: test_submit_and_status_def submit_task_def send_command_def make_scheduler_def scheduler_new_def rm_new_def
      make_task_def res_eval)

lemma scheduler_result_test:
  assumes "comes_to_rest wait" "poll_sleeps clock"
  shows "test_task_writes_result_to_store wait clock uuid"
proof -
  let ?t = "make_task uuid ''echo'' [10, 20, 30]"
  let ?s1 = "make_scheduler\<lparr>sy_channel := map SubmitTask [?t]\<rparr>"
  have cpu: "make_scheduler = scheduler_new (rm_new (res_set resources_new ''CPU'' (f64_of_nat 4))) LocalExecutor (os_new 0) (wp_new 4)"
    "ts_required_resources ?t = one_cpu" by (simp_all add: make_scheduler_def make_task_def)
  have ready: "node_ready 4 make_scheduler" unfolding cpu(1) by (intro node_ready_new) simp
  have "batch_inv 4 ?s1" using ready cpu(2) by (intro batch_begin) simp_all
  from batch_settles[OF this] assms(1) have w: "node_step\<^sup>*\<^sup>* ?s1 (wait ?s1)" "settled (wait ?s1)" by (auto simp: comes_to_rest_def)
  have "os_view (sy_store (wait ?s1)) = os_view (sy_store make_scheduler) ++
      map_of (List.map_filter (result_entry (sy_executor make_scheduler)) [?t])"
    using batch_spec_results[OF ready _ _ _ w] cpu(2) by (simp add: make_task_def)
  then have "os_view (sy_store (wait ?s1)) (id_new (uuid 2)) = Some [10, 20, 30]"
    by (simp add: cpu(1) scheduler_new_def result_entry_def make_task_def local_execute_def map_add_def)
  then show ?thesis
    using os_get_still[OF assms(2), of 0]
    by (simp add: test_task_writes_result_to_store_def submit_task_def send_command_def make_task_def cpu(1) scheduler_new_def)
qed

section \<open>ray-runtime\<close>

definition runtime_with :: "bytes \<Rightarrow> nat \<Rightarrow> nat \<Rightarrow> (LocalRuntime \<Rightarrow> bool) \<Rightarrow> bool" where
  "runtime_with uuid cpus workers P =
     unwrapped (runtime_new uuid \<lparr>rc_num_cpus = cpus, rc_max_workers = workers, rc_object_store_memory = 0\<rparr>) P"

definition test_runtime_put_and_get :: "(nat \<Rightarrow> nat) \<Rightarrow> nat \<Rightarrow> (nat \<Rightarrow> bytes) \<Rightarrow> bool" where
  "test_runtime_put_and_get clock now uuid =
     runtime_with (uuid 0) 2 4 (\<lambda>rt.
       let (r, rt) = put_object now (uuid 1) [1, 2, 3, 4, 5] rt
       in unwrapped r (\<lambda>oid. case get_object (\<lambda>_. rt) clock 0 oid 1000 of
            Some g \<Rightarrow> unwrapped g (\<lambda>result. result = [1, 2, 3, 4, 5]) | None \<Rightarrow> False))"

definition test_runtime_submit_fn_and_get :: "(System \<Rightarrow> System) \<Rightarrow> (nat \<Rightarrow> nat) \<Rightarrow> (nat \<Rightarrow> bytes) \<Rightarrow> bool" where
  "test_runtime_submit_fn_and_get wait clock uuid =
     runtime_with (uuid 0) 2 4 (\<lambda>rt.
       let rt = register_function ''double'' (\<lambda>payload. Returns (Inr (concat (map (\<lambda>b. [b, b]) payload)))) rt;
           (r, rt) = submit_fn (uuid 1) (uuid 2) (uuid 3) ''double'' [1, 2, 3] rt
       in case r of
            Some r \<Rightarrow> unwrapped r (\<lambda>return_id.
              case get_object (\<lambda>_. rt\<lparr>lr_system := wait (lr_system rt)\<rparr>) clock 0 return_id 5000 of
                Some g \<Rightarrow> unwrapped g (\<lambda>result. result = [1, 1, 2, 2, 3, 3]) | None \<Rightarrow> False)
          | None \<Rightarrow> False)"

definition rt_status_is :: "(System \<Rightarrow> System) \<Rightarrow> nat \<Rightarrow> TaskId \<Rightarrow> TaskStatus \<Rightarrow> LocalRuntime \<Rightarrow> bool \<times> LocalRuntime" where
  "rt_status_is wait ch tid st rt =
     (let (r, rt) = runtime_get_task_status_send tid ch rt; rt = rt\<lparr>lr_system := wait (lr_system rt)\<rparr>
      in (r = Some (Inr ()) \<and> runtime_get_task_status_reply ch rt = Some (Inr st), rt))"

definition noop_task :: "(nat \<Rightarrow> bytes) \<Rightarrow> TaskSpec" where
  "noop_task uuid =
     \<lparr>ts_task_id = id_new (uuid 1), ts_job_id = id_new (uuid 2), ts_function_name = ''noop'', ts_function_payload = [],
      ts_return_ids = [], ts_dependency_ids = [], ts_required_resources = res [(''CPU'', 1)], ts_max_retries = 0\<rparr>"

definition test_runtime_task_status :: "(System \<Rightarrow> System) \<Rightarrow> (nat \<Rightarrow> bytes) \<Rightarrow> bool" where
  "test_runtime_task_status wait uuid =
     runtime_with (uuid 0) 2 4 (\<lambda>rt.
       let (r, rt) = runtime_submit_task (noop_task uuid) rt; rt = rt\<lparr>lr_system := wait (lr_system rt)\<rparr>
       in r = Some (Inr ()) \<and> fst (rt_status_is wait 0 (ts_task_id (noop_task uuid)) TS_Running rt))"

definition test_runtime_cancel_task :: "(System \<Rightarrow> System) \<Rightarrow> (nat \<Rightarrow> bytes) \<Rightarrow> bool" where
  "test_runtime_cancel_task wait uuid =
     runtime_with (uuid 0) 1 2 (\<lambda>rt.
       let spec = big_task (\<lambda>k. uuid (k + 1)) ''big_task''; tid = ts_task_id spec; waited = (\<lambda>rt. rt\<lparr>lr_system := wait (lr_system rt)\<rparr>);
           (r1, rt) = runtime_submit_task spec rt; (b1, rt) = rt_status_is wait 0 tid TS_Pending (waited rt);
           (r2, rt) = runtime_cancel_task tid rt; (b2, rt) = rt_status_is wait 1 tid TS_Cancelled (waited rt)
       in r1 = Some (Inr ()) \<and> b1 \<and> r2 = Some (Inr ()) \<and> b2)"

lemma rt_status_system:
  "rt_status_is wait ch tid st rt =
     (fst (status_is wait ch tid st (lr_system rt)), rt\<lparr>lr_system := snd (status_is wait ch tid st (lr_system rt))\<rparr>)"
  by (simp add: rt_status_is_def status_is_def runtime_get_task_status_send_def runtime_get_task_status_reply_def Let_def split_beta)

lemma runtime_withI:
  assumes "\<And>rt. lr_system rt = scheduler_new (rm_new (res_set resources_new ''CPU'' (f64_of_nat cpus))) (Registry fr_new) (os_new 0) (wp_new workers)
    \<Longrightarrow> P rt"
  shows "runtime_with uuid cpus workers P"
  using assms by (simp add: runtime_with_def runtime_new_def Let_def)

lemma runtime_put_test: "poll_sleeps clock \<Longrightarrow> test_runtime_put_and_get clock now uuid"
  unfolding test_runtime_put_and_get_def
proof (rule runtime_withI)
  fix rt :: LocalRuntime
  assume clock: "poll_sleeps clock" and rt: "lr_system rt = scheduler_new (rm_new (res_set resources_new ''CPU'' (f64_of_nat 2)))
    (Registry fr_new) (os_new 0) (wp_new 4)"
  have "node_ready 2 (lr_system rt)" unfolding rt by (intro node_ready_new) simp
  from put_ready_node[OF this, of now "uuid 1" "[1, 2, 3, 4, 5]"] clock
  show "let (r, rt) = put_object now (uuid 1) [1, 2, 3, 4, 5] rt
       in unwrapped r (\<lambda>oid. case get_object (\<lambda>_. rt) clock 0 oid 1000 of
            Some g \<Rightarrow> unwrapped g (\<lambda>result. result = [1, 2, 3, 4, 5]) | None \<Rightarrow> False)"
    by (auto simp: get_object_def os_get_still)
qed

lemma runtime_status_test: "2 \<le> k \<Longrightarrow> test_runtime_task_status (sleep wid pid now k m) uuid"
  unfolding test_runtime_task_status_def
proof (rule runtime_withI)
  fix rt :: LocalRuntime
  assume k: "2 \<le> k" and rt: "lr_system rt = scheduler_new (rm_new (res_set resources_new ''CPU'' (f64_of_nat 2)))
    (Registry fr_new) (os_new 0) (wp_new 4)"
  let ?w = "sleep wid pid now k m"
  have "fst (status_is ?w 0 (ts_task_id (noop_task uuid)) TS_Running (?w ((lr_system rt)\<lparr>sy_channel := [SubmitTask (noop_task uuid)]\<rparr>)))"
    by (rule started_status) (use k in \<open>simp_all add: rt scheduler_new_def rm_new_def noop_task_def res_eval\<close>)
  moreover have "runtime_submit_task (noop_task uuid) rt =
      (Some (Inr ()), rt\<lparr>lr_system := (lr_system rt)\<lparr>sy_channel := [SubmitTask (noop_task uuid)]\<rparr>\<rparr>)"
    by (simp add: runtime_submit_task_def submit_task_def send_command_def rt scheduler_new_def)
  ultimately show "let (r, rt) = runtime_submit_task (noop_task uuid) rt; rt = rt\<lparr>lr_system := ?w (lr_system rt)\<rparr>
       in r = Some (Inr ()) \<and> fst (rt_status_is ?w 0 (ts_task_id (noop_task uuid)) TS_Running rt)"
    by (simp add: rt_status_system)
qed

lemma runtime_cancel_test: "3 \<le> k \<Longrightarrow> test_runtime_cancel_task (sleep wid pid now k m) uuid"
  unfolding test_runtime_cancel_task_def
proof (rule runtime_withI)
  fix rt :: LocalRuntime
  assume k: "3 \<le> k" and rt: "lr_system rt = scheduler_new (rm_new (res_set resources_new ''CPU'' (f64_of_nat 1)))
    (Registry fr_new) (os_new 0) (wp_new 2)"
  let ?spec = "big_task (\<lambda>k. uuid (k + 1)) ''big_task''" and ?w = "sleep wid pid now k m"
  have "cancel_scenario ?w ?spec (lr_system rt)"
    by (rule cancel_scenario_holds) (use k in \<open>simp_all add: rt scheduler_new_def rm_new_def big_task_def res_eval Let_def\<close>)
  then show "let spec = ?spec; tid = ts_task_id spec; waited = (\<lambda>rt. rt\<lparr>lr_system := ?w (lr_system rt)\<rparr>);
           (r1, rt) = runtime_submit_task spec rt; (b1, rt) = rt_status_is ?w 0 tid TS_Pending (waited rt);
           (r2, rt) = runtime_cancel_task tid rt; (b2, rt) = rt_status_is ?w 1 tid TS_Cancelled (waited rt)
       in r1 = Some (Inr ()) \<and> b1 \<and> r2 = Some (Inr ()) \<and> b2"
    by (simp add: cancel_scenario_def runtime_submit_task_def runtime_cancel_task_def rt_status_system Let_def split_beta)
qed

lemma runtime_submit_test:
  assumes "comes_to_rest wait" "poll_sleeps clock"
  shows "test_runtime_submit_fn_and_get wait clock uuid"
  unfolding test_runtime_submit_fn_and_get_def
proof (rule runtime_withI)
  fix rt :: LocalRuntime
  assume rt: "lr_system rt = scheduler_new (rm_new (res_set resources_new ''CPU'' (f64_of_nat 2)))
    (Registry fr_new) (os_new 0) (wp_new 4)"
  let ?f = "\<lambda>payload. Returns (Inr (concat (map (\<lambda>b. [b, b]) payload)))" and ?rt1 = "register_function ''double'' (\<lambda>payload. Returns (Inr (concat (map (\<lambda>b. [b, b]) payload)))) rt"
  let ?c = "\<lparr>ca_uuid_return = uuid 1, ca_uuid_task = uuid 2, ca_uuid_job = uuid 3, ca_function = ''double'', ca_payload = [1, 2, 3]\<rparr>"
  have new: "node_ready 2 (lr_system rt)" "sy_executor (lr_system rt) = Registry fr_new"
    unfolding rt by (intro node_ready_new, simp) (simp add: scheduler_new_def)
  note reg = register_ready[OF new, of "''double''" ?f]
  have exec: "execute (sy_executor (lr_system ?rt1)) (call_spec_of ?c) = Inr [1, 1, 2, 2, 3, 3]"
    by (simp add: reg(2) registry_execute_def register_fn_def call_spec_of_def fn_spec_def spawn_blocking_def)
  obtain s where s: "demo_submit [?c] wait ?rt1 = Some ([call_id ?c], ?rt1\<lparr>lr_system := s\<rparr>)"
    "os_view (sy_store s) (call_id ?c) = Some [1, 1, 2, 2, 3, 3]"
    using demo_submit_ok[OF reg(1), of "[?c]" wait] assms(1) exec by auto
  obtain rt2 where sub: "submit_fn (uuid 1) (uuid 2) (uuid 3) ''double'' [1, 2, 3] ?rt1 = (Some (Inr (call_id ?c)), rt2)"
    using submit_calls_sent[of ?rt1 "[?c]"] reg(1) by (auto simp: node_ready_def settled_def split_beta prod_eq_iff)
  have "rt2\<lparr>lr_system := wait (lr_system rt2)\<rparr> = ?rt1\<lparr>lr_system := s\<rparr>" using s(1) sub by (simp add: demo_submit_def)
  then have "get_object (\<lambda>_. rt2\<lparr>lr_system := wait (lr_system rt2)\<rparr>) clock 0 (call_id ?c) 5000 = Some (Inr [1, 1, 2, 2, 3, 3])"
    using s(2) assms(2) by (simp add: get_object_def os_get_still)
  with sub show "let rt = ?rt1; (r, rt) = submit_fn (uuid 1) (uuid 2) (uuid 3) ''double'' [1, 2, 3] rt
       in case r of
            Some r \<Rightarrow> unwrapped r (\<lambda>return_id.
              case get_object (\<lambda>_. rt\<lparr>lr_system := wait (lr_system rt)\<rparr>) clock 0 return_id 5000 of
                Some g \<Rightarrow> unwrapped g (\<lambda>result. result = [1, 1, 2, 2, 3, 3]) | None \<Rightarrow> False)
          | None \<Rightarrow> False"
    by simp
qed

end
