(* ===== verification/Integration_Tests.thy ===== *)
theory Integration_Tests
  imports Unit_Tests_Async
begin

text \<open>
  \<^verbatim>\<open>crates/ray-runtime/tests/integration_local_mode.rs\<close>: the end-to-end tests of the local runtime, as
  programs over the model in the style of the demo. A test ends with \<open>Some ()\<close>, or with \<open>None\<close> where an
  \<^verbatim>\<open>unwrap\<close> or an assertion would panic; each is shown to end. What the node does while a test waits is a
  parameter.
\<close>

definition make_runtime :: "demo_env \<Rightarrow> LocalRuntime option" where
  "make_runtime env = ok_value (runtime_new (de_uuid env 0) \<lparr>rc_num_cpus = 4, rc_max_workers = 8, rc_object_store_memory = 0\<rparr>)"

section \<open>Objects and tasks\<close>

definition test_local_put_get_object :: "demo_env \<Rightarrow> unit option" where
  "test_local_put_get_object env = do {
     rt \<leftarrow> make_runtime env;
     let data = [10, 20, 30, 40, 50];
     let (r, rt) = put_object (de_now env) (de_uuid env 1) data rt;
     obj_id \<leftarrow> ok_value r;
     result \<leftarrow> demo_get env rt obj_id 1000;
     assert_that (result = data) }"

definition append_marker :: TaskFn where
  "append_marker payload = Returns (Inr (payload @ [255]))"

definition test_local_task_lifecycle :: "demo_env \<Rightarrow> (System \<Rightarrow> System) \<Rightarrow> unit option" where
  "test_local_task_lifecycle env wait = do {
     rt \<leftarrow> make_runtime env;
     let rt = register_function ''append_marker'' append_marker rt;
     let input_data = [1, 2, 3];
     let (r, rt) = put_object (de_now env) (de_uuid env 1) input_data rt;
     input_id \<leftarrow> ok_value r;
     (ids, rt) \<leftarrow> demo_submit [demo_call env 2 ''append_marker'' input_data] wait rt;
     result \<leftarrow> demo_get env rt (hd ids) 5000;
     assert_that (result = [1, 2, 3, 255]);
     still_there \<leftarrow> demo_get env rt input_id 100;
     assert_that (still_there = input_data) }"

definition sum_calls :: "demo_env \<Rightarrow> call_args list" where
  "sum_calls env = map (\<lambda>i. demo_call env (1 + 3 * i) ''sum_bytes'' (replicate 10 (word_of_nat i))) [0, 1, 2, 3]"

definition test_local_parallel_tasks :: "bool \<Rightarrow> demo_env \<Rightarrow> (System \<Rightarrow> System) \<Rightarrow> unit option" where
  "test_local_parallel_tasks checks env wait = do {
     rt \<leftarrow> make_runtime env;
     let rt = register_function ''sum_bytes'' (sum_bytes checks) rt;
     (ids, rt) \<leftarrow> demo_submit (sum_calls env) wait rt;
     results \<leftarrow> those (map (\<lambda>rid. demo_get env rt rid 5000) ids);
     assert_that (list_all2 (\<lambda>result expected. 4 \<le> length result \<and> from_le_bytes result = expected) results [0, 10, 20, 30]) }"

definition always_fail :: TaskFn where
  "always_fail payload = Returns (Inl (TaskFailed [Lit ''Intentional failure'']))"

definition test_local_function_failure :: "demo_env \<Rightarrow> (System \<Rightarrow> System) \<Rightarrow> unit option" where
  "test_local_function_failure env wait = do {
     rt \<leftarrow> make_runtime env;
     let rt = register_function ''always_fail'' always_fail rt;
     (ids, rt) \<leftarrow> demo_submit [demo_call env 1 ''always_fail'' []] wait rt;
     result \<leftarrow> get_object (\<lambda>_. rt) (de_clock env) 0 (hd ids) 200;
     assert_that (\<not> is_ok result) }"

definition test_object_store_contains :: "demo_env \<Rightarrow> unit option" where
  "test_object_store_contains env = do {
     rt \<leftarrow> make_runtime env;
     present \<leftarrow> ok_value (os_contains (id_new (de_uuid env 1)) (runtime_object_store rt));
     assert_that (\<not> present);
     let (r, rt) = put_object (de_now env) (de_uuid env 2) [42] rt;
     _ \<leftarrow> ok_value r;
     let (r, rt) = put_object (de_now env) (de_uuid env 3) [1, 2] rt;
     id2 \<leftarrow> ok_value r;
     present \<leftarrow> ok_value (os_contains id2 (runtime_object_store rt));
     assert_that present }"

text \<open>The two tests that look at a task's status; \<open>res\<close> and \<open>big_task\<close> are those of the unit tests.\<close>

definition test_local_task_cancel :: "demo_env \<Rightarrow> (System \<Rightarrow> System) \<Rightarrow> bool" where
  "test_local_task_cancel env wait =
     runtime_with (de_uuid env 0) 4 8 (\<lambda>rt.
       let spec = big_task (\<lambda>k. de_uuid env (k + 1)) ''slow_fn''; tid = ts_task_id spec;
           waited = (\<lambda>rt. rt\<lparr>lr_system := wait (lr_system rt)\<rparr>);
           (r1, rt) = runtime_submit_task spec rt; (b1, rt) = rt_status_is wait 0 tid TS_Pending (waited rt);
           (r2, rt) = runtime_cancel_task tid rt; (b2, rt) = rt_status_is wait 1 tid TS_Cancelled (waited rt)
       in r1 = Some (Inr ()) \<and> b1 \<and> r2 = Some (Inr ()) \<and> b2)"

definition quick :: TaskFn where
  "quick payload = Returns (Inr payload)"

definition quick_task :: "demo_env \<Rightarrow> TaskSpec" where
  "quick_task env =
     \<lparr>ts_task_id = id_new (de_uuid env 1), ts_job_id = id_new (de_uuid env 3), ts_function_name = ''quick'',
      ts_function_payload = [99], ts_return_ids = [id_new (de_uuid env 2)], ts_dependency_ids = [],
      ts_required_resources = res [(''CPU'', 1)], ts_max_retries = 0\<rparr>"

text \<open>The test accepts running and finished; a status that is running passes.\<close>

definition test_task_status_flow :: "demo_env \<Rightarrow> (System \<Rightarrow> System) \<Rightarrow> (System \<Rightarrow> System) \<Rightarrow> bool" where
  "test_task_status_flow env wait wait2 =
     runtime_with (de_uuid env 0) 4 8 (\<lambda>rt.
       let rt = register_function ''quick'' quick rt;
           (r, rt) = runtime_submit_task (quick_task env) rt; rt = rt\<lparr>lr_system := wait (lr_system rt)\<rparr>;
           tid = ts_task_id (quick_task env);
           (running, rt1) = rt_status_is wait 0 tid TS_Running rt; (finished, _) = rt_status_is wait 0 tid TS_Finished rt
       in r = Some (Inr ()) \<and> (running \<or> finished) \<and>
          demo_get env (rt1\<lparr>lr_system := wait2 (lr_system rt1)\<rparr>) (id_new (de_uuid env 2)) 5000 = Some [99])"

section \<open>The control store\<close>

definition test_gcs_job_management :: "demo_env \<Rightarrow> nat \<Rightarrow> unit option" where
  "test_gcs_job_management env now_ms = do {
     rt \<leftarrow> make_runtime env;
     let job_id = id_new (de_uuid env 1);
     let (r, rt) = on_gcs (add_job \<lparr>ji_job_id = job_id, ji_driver_ip = ''127.0.0.1'', ji_start_time_ms = 1000,
       ji_end_time_ms = 0, ji_is_dead = False, ji_config = []\<rparr>) rt;
     _ \<leftarrow> ok_value r;
     jobs \<leftarrow> ok_value (get_all_jobs (runtime_gcs rt));
     assert_that (length jobs = 1 \<and> ji_job_id (hd jobs) = job_id \<and> \<not> ji_is_dead (hd jobs));
     let (r, rt) = on_gcs (mark_job_finished now_ms job_id) rt;
     _ \<leftarrow> ok_value r;
     jobs \<leftarrow> ok_value (get_all_jobs (runtime_gcs rt));
     assert_that (length jobs = 1 \<and> ji_is_dead (hd jobs) \<and> 0 < sint (ji_end_time_ms (hd jobs))) }"

definition test_gcs_resource_usage :: "demo_env \<Rightarrow> unit option" where
  "test_gcs_resource_usage env = do {
     rt \<leftarrow> make_runtime env;
     let node_id = id_new (de_uuid env 1);
     let (r, rt) = on_gcs (report_resource_usage \<lparr>ru_node_id = node_id, ru_available = res [(''CPU'', 3)],
       ru_total = res [(''CPU'', 4)], ru_timestamp_ms = 12345\<rparr>) rt;
     _ \<leftarrow> ok_value r;
     all_usage \<leftarrow> ok_value (get_all_resource_usage (runtime_gcs rt));
     assert_that (length all_usage = 1 \<and> ru_node_id (hd all_usage) = node_id
       \<and> res_get (ru_available (hd all_usage)) ''CPU'' = f64_of_nat 3
       \<and> res_get (ru_total (hd all_usage)) ''CPU'' = f64_of_nat 4) }"

section \<open>The tests hold\<close>

lemma make_runtime_ready:
  obtains rt where "make_runtime env = Some rt" "node_ready 4 (lr_system rt)" "sy_executor (lr_system rt) = Registry fr_new"
    "sy_store (lr_system rt) = os_new 0" "lr_gcs rt = gcs_new"
  using node_ready_new[of 4 "Registry fr_new" 8] that
  by (simp add: make_runtime_def runtime_new_def Let_def scheduler_new_def)

lemma assert_that_simps [simp]: "assert_that True = Some ()" "b \<Longrightarrow> assert_that b = Some ()"
  by (simp_all add: assert_that_def)

lemma put_get_object_test:
  assumes "poll_sleeps (de_clock env)" shows "test_local_put_get_object env = Some ()"
proof -
  obtain rt where rt: "make_runtime env = Some rt" "node_ready 4 (lr_system rt)" by (rule make_runtime_ready)
  show ?thesis using put_ready_node[OF rt(2), of "de_now env" "de_uuid env 1" "[10, 20, 30, 40, 50]"]
    by (auto simp: test_local_put_get_object_def rt(1) demo_get_ok[OF assms] Let_def)
qed

lemma object_store_contains_test: "test_object_store_contains env = Some ()"
proof -
  obtain rt where rt: "make_runtime env = Some rt" "node_ready 4 (lr_system rt)" "sy_store (lr_system rt) = os_new 0"
    by (rule make_runtime_ready)
  obtain rt1 where put1: "put_object (de_now env) (de_uuid env 2) [42] rt = (Inr (id_new (de_uuid env 2)), rt1)" "node_ready 4 (lr_system rt1)"
    using put_ready_node[OF rt(2), of "de_now env" "de_uuid env 2" "[42]"] by auto
  obtain rt2 where put2: "put_object (de_now env) (de_uuid env 3) [1, 2] rt1 = (Inr (id_new (de_uuid env 3)), rt2)"
    "os_view (sy_store (lr_system rt2)) (id_new (de_uuid env 3)) = Some [1, 2]"
    using put_ready_node[OF put1(2), of "de_now env" "de_uuid env 3" "[1, 2]"] by auto
  have "hm_contains (os_objects (sy_store (lr_system rt2))) (id_new (de_uuid env 3))" using put2(2) by (auto simp: os_view_def)
  then show ?thesis
    by (simp add: test_object_store_contains_def rt(1,3) put1(1) put2(1) os_contains_def runtime_object_store_def os_new_def)
qed

lemma gcs_job_test: "0 < now_ms \<Longrightarrow> now_ms < 2 ^ 63 \<Longrightarrow> test_gcs_job_management env now_ms = Some ()"
proof -
  assume "0 < now_ms" "now_ms < 2 ^ 63"
  then have "0 < sint (word_of_nat now_ms :: 64 word)"
    using signed_take_bit_int_eq_self[of 63 "int now_ms"] by (simp add: sint_uint unsigned_of_nat take_bit_nat_eq_self)
  moreover obtain rt where "make_runtime env = Some rt" "lr_gcs rt = gcs_new" by (rule make_runtime_ready)
  ultimately show ?thesis
    by (simp add: test_gcs_job_management_def on_gcs_def runtime_gcs_def add_job_def get_all_jobs_def mark_job_finished_def
        gcs_new_def hm_values_def hm_insert_def hm_modify_def hm_get_def Let_def)
qed

lemma gcs_usage_test: "test_gcs_resource_usage env = Some ()"
proof -
  obtain rt where "make_runtime env = Some rt" "lr_gcs rt = gcs_new" by (rule make_runtime_ready)
  then show ?thesis
    by (simp add: test_gcs_resource_usage_def on_gcs_def runtime_gcs_def report_resource_usage_def get_all_resource_usage_def
        gcs_new_def hm_values_def res_eval Let_def)
qed

section \<open>Tests that wait\<close>

lemma call_executes:
  "execute (Registry (register_fn name f ex)) (call_spec_of (demo_call env k name p)) =
     (case f p of Returns r \<Rightarrow> r | Panics e \<Rightarrow> Inl (TaskFailed [Lit ''Task panicked: '', Lit e]))"
  by (simp add: registry_execute_def register_fn_def call_spec_of_def fn_spec_def demo_call_def spawn_blocking_def split: outcome.split)

lemma task_lifecycle_test:
  assumes "poll_sleeps (de_clock env)" "comes_to_rest wait" "id_new (de_uuid env 1) \<noteq> (id_new (de_uuid env 2) :: ObjectId)"
  shows "test_local_task_lifecycle env wait = Some ()"
proof -
  obtain rt where rt: "make_runtime env = Some rt" "node_ready 4 (lr_system rt)" "sy_executor (lr_system rt) = Registry fr_new"
    by (rule make_runtime_ready)
  let ?rt1 = "register_function ''append_marker'' append_marker rt" and ?c = "demo_call env 2 ''append_marker'' [1, 2, 3]"
  note reg = register_ready[OF rt(2,3), of "''append_marker''" append_marker]
  obtain rt2 where put: "put_object (de_now env) (de_uuid env 1) [1, 2, 3] ?rt1 = (Inr (id_new (de_uuid env 1)), rt2)"
    "node_ready 4 (lr_system rt2)" "sy_executor (lr_system rt2) = sy_executor (lr_system ?rt1)"
    "os_view (sy_store (lr_system rt2)) (id_new (de_uuid env 1)) = Some [1, 2, 3]"
    using put_ready_node[OF reg(1), of "de_now env" "de_uuid env 1" "[1, 2, 3]"] by auto
  have exec: "execute (sy_executor (lr_system rt2)) (call_spec_of ?c) = Inr [1, 2, 3, 255]"
    using call_executes[of "''append_marker''" append_marker] by (simp add: put(3) reg(2) append_marker_def)
  obtain s where s: "demo_submit [?c] wait rt2 = Some ([call_id ?c], rt2\<lparr>lr_system := s\<rparr>)"
    "os_view (sy_store s) (call_id ?c) = Some [1, 2, 3, 255]"
    "\<forall>oid. oid \<noteq> call_id ?c \<longrightarrow> os_view (sy_store s) oid = os_view (sy_store (lr_system rt2)) oid"
    using demo_submit_ok[OF put(2), of "[?c]" wait] assms(2) exec by auto
  have "os_view (sy_store s) (id_new (de_uuid env 1)) = Some [1, 2, 3]"
    using s(3) put(4) assms(3) by (simp add: call_id_def demo_call_def)
  with s(1,2) put(1) rt(1) show ?thesis
    by (simp add: test_local_task_lifecycle_def demo_get_ok[OF assms(1)] Let_def)
qed

lemma function_failure_test:
  assumes "poll_sleeps (de_clock env)" "comes_to_rest wait"
  shows "test_local_function_failure env wait = Some ()"
proof -
  obtain rt where rt: "make_runtime env = Some rt" "node_ready 4 (lr_system rt)" "sy_executor (lr_system rt) = Registry fr_new"
    "sy_store (lr_system rt) = os_new 0" by (rule make_runtime_ready)
  let ?rt1 = "register_function ''always_fail'' always_fail rt" and ?c = "demo_call env 1 ''always_fail'' []"
  note reg = register_ready[OF rt(2,3), of "''always_fail''" always_fail]
  have none: "os_view (sy_store (lr_system ?rt1)) oid = None" for oid
    using rt(3,4) by (simp add: register_function_def on_registry_def os_view_def os_new_def)
  have exec: "execute (sy_executor (lr_system ?rt1)) (call_spec_of ?c) = Inl (TaskFailed [Lit ''Intentional failure''])"
    using call_executes[of "''always_fail''" always_fail] by (simp add: reg(2) always_fail_def)
  obtain s where s: "demo_submit [?c] wait ?rt1 = Some ([call_id ?c], ?rt1\<lparr>lr_system := s\<rparr>)"
    "os_view (sy_store s) (call_id ?c) = None"
    using demo_submit_ok[OF reg(1), of "[?c]" wait] assms(2) exec none by auto
  then show ?thesis
    by (simp add: test_local_function_failure_def rt(1) Let_def get_object_def os_get_still[OF assms(1)])
qed

lemma sum_bytes_tens: "sum_bytes checks (replicate 10 b) = Returns (Inr (to_le_bytes (word_of_nat (10 * unat b))))"
proof -
  have "unat b < 2 ^ LENGTH(8)" by (rule unsigned_less)
  then show ?thesis by (simp add: sum_bytes_def Let_def sum_list_replicate)
qed

lemma parallel_tasks_test:
  assumes "poll_sleeps (de_clock env)" "comes_to_rest wait"
    and "distinct (map (\<lambda>k. id_new (de_uuid env k) :: ObjectId) [1, 4, 7, 10])"
  shows "test_local_parallel_tasks checks env wait = Some ()"
proof -
  obtain rt where rt: "make_runtime env = Some rt" "node_ready 4 (lr_system rt)" "sy_executor (lr_system rt) = Registry fr_new"
    by (rule make_runtime_ready)
  let ?rt1 = "register_function ''sum_bytes'' (sum_bytes checks) rt" and ?cs = "sum_calls env"
  note reg = register_ready[OF rt(2,3), of "''sum_bytes''" "sum_bytes checks"]
  have ids: "distinct (map call_id ?cs)" "length ?cs \<le> 4" "length ?cs \<le> 4096"
    using assms(3) by (simp_all add: sum_calls_def demo_call_def call_id_def)
  have exec: "execute (sy_executor (lr_system ?rt1)) (call_spec_of (demo_call env k ''sum_bytes'' (replicate 10 b))) =
      Inr (to_le_bytes (word_of_nat (10 * unat b)))" for k b
    using call_executes[of "''sum_bytes''" "sum_bytes checks"] by (simp add: reg(2) sum_bytes_tens)
  obtain s where s: "demo_submit ?cs wait ?rt1 = Some (map call_id ?cs, ?rt1\<lparr>lr_system := s\<rparr>)"
    "\<forall>c\<in>set ?cs. \<forall>data. execute (sy_executor (lr_system ?rt1)) (call_spec_of c) = Inr data \<longrightarrow> os_view (sy_store s) (call_id c) = Some data"
    using demo_submit_ok[OF reg(1) ids(2,3,1) assms(2)] by blast
  have "those (map (\<lambda>rid. demo_get env (?rt1\<lparr>lr_system := s\<rparr>) rid 5000) (map call_id ?cs)) =
      Some (map (\<lambda>b :: u8. to_le_bytes (word_of_nat (10 * unat b))) [0, 1, 2, 3])"
    using s(2) exec by (simp add: sum_calls_def demo_get_ok[OF assms(1)])
  moreover have "list_all2 (\<lambda>result expected. 4 \<le> length result \<and> from_le_bytes result = expected)
      (map (\<lambda>b :: u8. to_le_bytes (word_of_nat (10 * unat b))) [0, 1, 2, 3]) [0, 10, 20, 30]"
    by (simp add: to_le_bytes_def from_le_bytes_def)
  ultimately show ?thesis using rt(1) s(1) by (simp add: test_local_parallel_tasks_def Let_def)
qed

lemma task_cancel_test: "3 \<le> k \<Longrightarrow> test_local_task_cancel env (sleep wid pid now k m)"
  unfolding test_local_task_cancel_def
proof (rule runtime_withI)
  fix rt :: LocalRuntime
  assume k: "3 \<le> k" and rt: "lr_system rt = scheduler_new (rm_new (res_set resources_new ''CPU'' (f64_of_nat 4)))
    (Registry fr_new) (os_new 0) (wp_new 8)"
  let ?spec = "big_task (\<lambda>k. de_uuid env (k + 1)) ''slow_fn''" and ?w = "sleep wid pid now k m"
  have "cancel_scenario ?w ?spec (lr_system rt)"
    by (rule cancel_scenario_holds) (use k in \<open>simp_all add: rt scheduler_new_def rm_new_def big_task_def res_eval Let_def\<close>)
  then show "let spec = ?spec; tid = ts_task_id spec; waited = (\<lambda>rt. rt\<lparr>lr_system := ?w (lr_system rt)\<rparr>);
           (r1, rt) = runtime_submit_task spec rt; (b1, rt) = rt_status_is ?w 0 tid TS_Pending (waited rt);
           (r2, rt) = runtime_cancel_task tid rt; (b2, rt) = rt_status_is ?w 1 tid TS_Cancelled (waited rt)
       in r1 = Some (Inr ()) \<and> b1 \<and> r2 = Some (Inr ()) \<and> b2"
    by (simp add: cancel_scenario_def runtime_submit_task_def runtime_cancel_task_def rt_status_system Let_def split_beta)
qed

text \<open>The replies of status queries do not influence what the node does.\<close>

lemma task_steps_replies:
  "(task_step wid pid now i ^^ m) (s\<lparr>sy_replies := rs\<rparr>) = ((task_step wid pid now i ^^ m) s)\<lparr>sy_replies := rs\<rparr>"
proof (induction m)
  case (Suc m)
  have "task_step wid pid now i (t\<lparr>sy_replies := rs\<rparr>) = (task_step wid pid now i t)\<lparr>sy_replies := rs\<rparr>" for t
    by (auto simp: task_step_def advance_task_def Let_def split_beta
        split: dispatch_pc.splits get_pc.splits put_pc.splits ret_pc.splits)
  with Suc show ?case by simp
qed simp

lemma node_steps_task: "node_step\<^sup>*\<^sup>* s ((task_step wid pid now i ^^ m) s)"
  by (induction m) (auto intro: rtranclp.rtrancl_into_rtrancl node_step.task)

lemma node_steps_loop: "node_step\<^sup>*\<^sup>* s ((loop_step ^^ m) s)"
  by (induction m) (auto intro: rtranclp.rtrancl_into_rtrancl node_step.loop)

text \<open>A task that was started and asked about: the state is one the batch reaches on a node with that reply.\<close>

lemma started_then_asked:
  fixes wid :: WorkerId and pid :: u32 and now m :: nat
  assumes "node_ready cpus s" "sy_replies s = []" "can_satisfy (rm_available (sy_rm s)) (ts_required_resources spec)" "2 \<le> k"
  defines "w \<equiv> sleep wid pid now k m"
  shows "\<exists>s'. status_is w ch (ts_task_id spec) TS_Running (w (s\<lparr>sy_channel := [SubmitTask spec]\<rparr>)) = (True, s')
    \<and> node_step\<^sup>*\<^sup>* (s\<lparr>sy_replies := [(ch, Inr TS_Running)]\<rparr>\<lparr>sy_channel := [SubmitTask spec]\<rparr>) s'"
proof -
  let ?s1 = "s\<lparr>sy_channel := [SubmitTask spec]\<rparr>" and ?rs = "[(ch, Inr TS_Running)]"
  have r: "sy_loop s = LoopRecv" "sy_channel s = []" "\<not> sy_senders_dropped s" "sy_pending s = []"
    using assms(1) by (simp_all add: node_ready_def settled_def)
  let ?it = "loop_iteration (SubmitTask spec)"
  have it: "sy_loop (?it s) = LoopRecv" "sy_channel (?it s) = []" "\<not> sy_senders_dropped (?it s)" "sy_pending (?it s) = []"
      "sy_replies (?it s) = []" "hm_get (sy_statuses (?it s)) (ts_task_id spec) = Some TS_Running"
      "?it (s\<lparr>sy_replies := ?rs\<rparr>) = (?it s)\<lparr>sy_replies := ?rs\<rparr>" "?s1\<lparr>sy_channel := []\<rparr> = s"
    using r assms(2,3)
    by (cases s; simp add: loop_iteration_def submit_command_def try_start_def try_allocate_def dispatch_task_def set_status_def)+
  have loop: "(loop_step ^^ k) (x\<lparr>sy_channel := [SubmitTask spec]\<rparr>) = ?it x"
    if "x = s \<or> x = s\<lparr>sy_replies := ?rs\<rparr>" for x
  proof -
    have x: "x\<lparr>sy_channel := [SubmitTask spec]\<rparr>\<lparr>sy_channel := []\<rparr> = x" using that r(2) by (cases s) auto
    have "(loop_step ^^ k) (x\<lparr>sy_channel := [SubmitTask spec]\<rparr>) = ?it (x\<lparr>sy_channel := [SubmitTask spec]\<rparr>\<lparr>sy_channel := []\<rparr>)"
      by (rule loop_command) (use that r assms(3,4) in
        \<open>auto simp: submit_command_def try_start_def try_allocate_def dispatch_task_def set_status_def\<close>)
    then show ?thesis unfolding x .
  qed
  let ?t = "(task_step wid pid now 0 ^^ m) (?it s)"
  have w1: "w ?s1 = ?t" by (simp add: w_def sleep_def loop)
  have t: "sy_loop ?t = LoopRecv" "sy_channel ?t = []" "\<not> sy_senders_dropped ?t" "sy_pending ?t = []"
      "sy_replies ?t = []" "hm_get (sy_statuses ?t) (ts_task_id spec) = Some TS_Running"
    using it by (simp_all add: task_steps_frame)
  let ?q = "?t\<lparr>sy_channel := [GetStatus (ts_task_id spec) ch]\<rparr>"
  have "(loop_step ^^ k) ?q = loop_iteration (GetStatus (ts_task_id spec) ch) (?q\<lparr>sy_channel := []\<rparr>)"
    by (rule loop_command) (use t assms(4) in \<open>simp_all add: status_command_def\<close>)
  moreover have "?q\<lparr>sy_channel := []\<rparr> = ?t" using t(2) by (cases ?t) simp
  moreover have "loop_iteration (GetStatus (ts_task_id spec) ch) ?t = ?t\<lparr>sy_replies := ?rs\<rparr>"
    using t by (cases ?t) (simp add: loop_iteration_def status_command_def)
  ultimately have q: "(loop_step ^^ k) ?q = ?t\<lparr>sy_replies := ?rs\<rparr>" by simp
  let ?s' = "(task_step wid pid now 0 ^^ m) (?t\<lparr>sy_replies := ?rs\<rparr>)"
  have "status_is w ch (ts_task_id spec) TS_Running ?t = (True, ?s')"
    using t(1,2) q
    by (simp add: status_is_def get_task_status_send_def send_command_def w_def sleep_def get_task_status_reply_def task_steps_frame)
  moreover have "?t\<lparr>sy_replies := ?rs\<rparr> =
      (task_step wid pid now 0 ^^ m) ((loop_step ^^ k) (s\<lparr>sy_replies := ?rs\<rparr>\<lparr>sy_channel := [SubmitTask spec]\<rparr>))"
    by (simp add: loop it(7) task_steps_replies)
  moreover then have "node_step\<^sup>*\<^sup>* (s\<lparr>sy_replies := ?rs\<rparr>\<lparr>sy_channel := [SubmitTask spec]\<rparr>) (?t\<lparr>sy_replies := ?rs\<rparr>)"
    using rtranclp_trans[OF node_steps_loop node_steps_task] by (simp only:)
  ultimately show ?thesis unfolding w1 using rtranclp_trans[OF _ node_steps_task] by blast
qed

lemma task_status_flow_test:
  assumes "poll_sleeps (de_clock env)" "comes_to_rest wait2" "2 \<le> k"
  shows "test_task_status_flow env (sleep wid pid now k m) wait2"
  unfolding test_task_status_flow_def
proof (rule runtime_withI)
  fix rt :: LocalRuntime
  assume rt: "lr_system rt = scheduler_new (rm_new (res_set resources_new ''CPU'' (f64_of_nat 4))) (Registry fr_new) (os_new 0) (wp_new 8)"
  let ?w = "sleep wid pid now k m" and ?t = "quick_task env" and ?rt1 = "register_function ''quick'' quick rt"
  have new: "node_ready 4 (lr_system rt)" "sy_executor (lr_system rt) = Registry fr_new"
    unfolding rt by (intro node_ready_new, simp) (simp add: scheduler_new_def)
  note reg = register_ready[OF new, of "''quick''" quick]
  let ?s = "lr_system ?rt1" and ?rs = "[(0, Inr TS_Running)]"
  have s: "sy_replies ?s = []" "can_satisfy (rm_available (sy_rm ?s)) (ts_required_resources ?t)"
    by (simp_all add: register_function_def on_registry_def rt scheduler_new_def rm_new_def quick_task_def res_eval)
  obtain s' where s': "status_is ?w 0 (ts_task_id ?t) TS_Running (?w (?s\<lparr>sy_channel := [SubmitTask ?t]\<rparr>)) = (True, s')"
    "node_step\<^sup>*\<^sup>* (?s\<lparr>sy_replies := ?rs\<rparr>\<lparr>sy_channel := [SubmitTask ?t]\<rparr>) s'"
    using started_then_asked[OF reg(1) s assms(3)] by blast
  have ready: "node_ready 4 (?s\<lparr>sy_replies := ?rs\<rparr>)"
    using reg(1) held_requests_cong[of "?s\<lparr>sy_replies := ?rs\<rparr>" ?s]
    by (simp add: node_ready_def settled_def live_tasks_def locks_ok_def sys_accounts_def waiting_def)
  have batch: "batch_inv 4 s'"
    using batch_steps[OF _ batch_begin[OF ready, of "[?t]"]] s'(2) by (simp add: quick_task_def)
  have w: "node_step\<^sup>*\<^sup>* s' (wait2 s')" "settled (wait2 s')"
    using batch_settles[OF batch] assms(2) by (auto simp: comes_to_rest_def)
  have run: "node_step\<^sup>*\<^sup>* (?s\<lparr>sy_replies := ?rs\<rparr>\<lparr>sy_channel := map SubmitTask [?t]\<rparr>) (wait2 s')" using s'(2) w(1) by simp
  have "execute (sy_executor ?s) ?t = Inr [99]"
    by (simp add: reg(2) registry_execute_def register_fn_def quick_task_def spawn_blocking_def quick_def)
  then have "os_view (sy_store (wait2 s')) (id_new (de_uuid env 2)) = Some [99]"
    using conjunct1[OF batch_spec_results[OF ready _ _ _ run w(2)]] by (simp add: result_entry_def quick_task_def)
  then have "demo_get env (rt\<lparr>lr_system := wait2 s'\<rparr>) (id_new (de_uuid env 2)) 5000 = Some [99]" for rt
    by (simp add: demo_get_ok[OF assms(1)])
  moreover have "runtime_submit_task ?t ?rt1 = (Some (Inr ()), ?rt1\<lparr>lr_system := ?s\<lparr>sy_channel := [SubmitTask ?t]\<rparr>\<rparr>)"
    using reg(1) by (simp add: runtime_submit_task_def submit_task_def send_command_def node_ready_def settled_def)
  ultimately show "let rt = ?rt1; (r, rt) = runtime_submit_task ?t rt; rt = rt\<lparr>lr_system := ?w (lr_system rt)\<rparr>;
           tid = ts_task_id ?t;
           (running, rt1) = rt_status_is ?w 0 tid TS_Running rt; (finished, _) = rt_status_is ?w 0 tid TS_Finished rt
       in r = Some (Inr ()) \<and> (running \<or> finished) \<and>
          demo_get env (rt1\<lparr>lr_system := wait2 (lr_system rt1)\<rparr>) (id_new (de_uuid env 2)) 5000 = Some [99]"
    using s'(1) by (simp add: Let_def rt_status_system split_beta)
qed

end
