(* ===== verification/Spec2Isabelle.thy ===== *)
theory Spec2Isabelle
  imports Raylet_Server Object_Store_Server Gcs_Server Global_Scheduler Local_Runtime Ray_Py
    Core_Serialize Shared_Memory Object_Store_Budget Scheduler_Spec System_Invariants Local_Demo
    Served_Tasks Worker_Pool_Conc Integration_Tests
begin

text \<open>
  \<^bold>\<open>Ray Rust: a verification of its crates\<close>

  \<^emph>\<open>The program.\<close> Ray Rust is a distributed task runtime. A client submits tasks to the scheduler of
  a node (\<^verbatim>\<open>ray-raylet\<close>); the scheduler's event loop grants resources and starts a background task,
  which takes a worker, executes the function, puts the result into the object store
  (\<^verbatim>\<open>ray-object-store\<close>), returns the worker and releases the resources. A global control store
  (\<^verbatim>\<open>ray-gcs\<close>) keeps nodes, actors, jobs and resource usage; a global scheduler (\<^verbatim>\<open>ray-scheduler\<close>)
  places tasks on nodes. gRPC services expose the raylet, the object store and the GCS;
  \<^verbatim>\<open>ray-runtime\<close> wires everything into one process and \<^verbatim>\<open>ray-py\<close> exports an object store to Python.
  The crates share the types of \<^verbatim>\<open>ray-core\<close>.

  \<^emph>\<open>Theories, and what they model.\<close>

  \<^item> \<open>Prelude\<close>, \<open>F64\<close>, \<open>Hash_Map\<close>: machine words and lists; IEEE binary64 arithmetic with rounding; the
    operations of \<^verbatim>\<open>HashMap\<close> on association lists, and the locales \<open>registry\<close> and
    \<open>registry_with_removal\<close>, the contract of a table whose records carry their own key.
  \<^item> \<open>Core_Id\<close> (\<^verbatim>\<open>id.rs\<close>), \<open>Core_Resource\<close> (\<^verbatim>\<open>resource.rs\<close>), \<open>Core_Error\<close> (\<^verbatim>\<open>error.rs\<close>), \<open>Core_Types\<close>
    (\<^verbatim>\<open>traits.rs\<close>), \<open>Core_Proto_Conv\<close> (\<^verbatim>\<open>proto_conv.rs\<close>), \<open>Core_Serialize\<close> (\<^verbatim>\<open>serialize.rs\<close>): the data of
    \<^verbatim>\<open>ray-core\<close>. The loops over a resource map are shown not to depend on its iteration order.
  \<^item> \<open>Resource_Manager\<close>, \<open>Worker_Pool\<close>, \<open>Executor\<close>, \<open>Local_Scheduler\<close>, \<open>Raylet_Server\<close>: the files of the same
    names of \<^verbatim>\<open>ray-raylet\<close>. The locales \<open>allocator\<close> and \<open>lease_pool\<close> are the contracts of the resource
    manager and of the worker pool; \<open>Worker_Pool_Conc\<close> is about any number of overlapping \<^verbatim>\<open>get_worker\<close> calls. \<open>Scheduler_Runs\<close> is about runs of the local scheduler,
    \<open>System_Invariants\<close> about all its reachable states, and \<open>Scheduler_Spec\<close> gives an abstract scheduler
    (queued, running and finished tasks and what is free) that it refines. \<open>Fair_Runs\<close>, \<open>Queue_Progress\<close>,
    \<open>Batch_Runs\<close> and \<open>Served_Tasks\<close> are about its infinite behaviours under fair schedules, about its queue over several
    commands and at the shutdown, about several tasks at once, and about a task from its submission to the
    answer of a polling client.
  \<^item> \<open>Object_Store\<close> and \<open>Object_Store_Conc\<close> (\<^verbatim>\<open>store.rs\<close>), \<open>Shared_Memory\<close>, \<open>Object_Store_Server\<close>: the files
    of \<^verbatim>\<open>ray-object-store\<close>; the locale \<open>object_store_api\<close> is the trait \<^verbatim>\<open>ObjectStore\<close>. \<open>Object_Store_Budget\<close>
    is about any number of overlapping \<^verbatim>\<open>put\<close> calls.
  \<^item> \<open>Gcs_Store\<close>, \<open>Gcs_Server\<close>: the files of \<^verbatim>\<open>ray-gcs\<close>; \<open>Global_Scheduler\<close>: \<^verbatim>\<open>policy.rs\<close> and \<^verbatim>\<open>global.rs\<close>,
    with the locale \<open>scheduling_policy\<close> for the trait \<^verbatim>\<open>SchedulingPolicy\<close>.
  \<^item> \<open>Local_Runtime\<close>: \<^verbatim>\<open>ray-runtime/src/lib.rs\<close>; \<open>Task_Results\<close> and \<open>Parallel_Calls\<close>: tasks that run at the
    same time on it; \<open>Local_Demo\<close>: \<^verbatim>\<open>ray-runtime/examples/local_demo.rs\<close>; \<open>Ray_Py\<close>: \<^verbatim>\<open>ray-py/src/runtime.rs\<close>.
  \<^item> \<open>Unit_Tests\<close>, \<open>Unit_Tests_Async\<close>: the unit tests of the crates as predicates over the model, each
    shown to hold; \<open>Integration_Tests\<close>: \<^verbatim>\<open>ray-runtime/tests/integration_local_mode.rs\<close> likewise.
  \<^item> \<open>Fair_Progress\<close>: behaviours of actors under fair schedules, and the locale \<open>fair_progress\<close> (every
    effective step makes a measure smaller), interpreted on the node.
  \<^item> \<open>Refinement\<close>: runs with events, and the locale \<open>refinement\<close> between two labelled step relations,
    interpreted on the scheduler and on overlapping \<^verbatim>\<open>put\<close> calls.

  Every locale is interpreted on the definitions of the component that provides it, and the
  clients use the interpreted facts.

  \<^emph>\<open>State and concurrency.\<close> A struct is a record, whose fields carry a prefix of the struct's
  name; an operation takes the state and returns it updated; an error is the left value of a sum.
  Code that holds a lock for its whole duration is one function. Code with several lock sections
  is also given as a step function over a program counter (\<open>get_step\<close>, \<open>ret_step\<close>, \<open>put_step\<close>,
  \<open>spill_read\<close> and \<open>spill_mark\<close>, \<open>heartbeat_read\<close> and \<open>heartbeat_write\<close>). \<open>sys_step\<close> interleaves the steps
  of the event loop, of any number of background tasks, of clients and of other users of the store;
  \<open>wp_step\<close>, \<open>os_reachable\<close>, \<open>gcs_step\<close> and \<open>py_step\<close> are the corresponding relations of a single component.
  Worker handles are references into a heap, since the pool and the tasks share them.

  \<^emph>\<open>What the properties show.\<close>
  Scheduling: resources are conserved under every interleaving; the scheduler refines its
  specification, with the same submissions and cancellations in the same order; an iteration of the
  loop starts all it can and loses nothing; a task that fits runs to its result and gives everything back; submitted to a node at rest, through the RPC
  layer or through the runtime, it is answered under every fair schedule; under every fair schedule a node comes to rest with every task
  ended and every resource back, and as many status queries as there are queued tasks run the whole
  queue; the status of a task says where it is; a cancelled task stays cancelled; shutdown ends the node, with nothing
  under way lost. The results of tasks that run in parallel do not depend on
  the schedule, a batch of calls that fits the node together with its queue is always answered, also to a client that polls while
  the node runs, and the demo program runs to
  its end with its assertions true. Taken alone, the atomic steps compute the composed code.
  Storage: the store refines a finite map, keeps its budget and reference counts, overlapping \<^verbatim>\<open>put\<close> calls
  take effect one at a time and exceed the budget by a bounded amount, \<^verbatim>\<open>get\<close> and \<^verbatim>\<open>wait\<close>
  return in time, spilling and restoring gives the bytes back.
  Workers, resources, placement: capacity, exclusiveness (of calls that do not overlap), exact return of what was taken; a task is
  placed on a node that can take it whenever there is one, and each policy optimises its criterion.
  Tables and messages: round trips of every conversion, the node table and actor life cycle of the GCS,
  what the RPC handlers answer on every branch.
  Several properties state what the code does where it differs from its documentation: statuses
  that are never final, a queue that no release ever wakes, checks and updates in separate lock
  sections (\<^verbatim>\<open>put\<close>, \<^verbatim>\<open>spill_to_disk\<close>, \<^verbatim>\<open>get_worker\<close>, the heartbeat), fractional requests whose release leaves a
  node short, leases that are never given back, a Python session that cannot be started again. (That a request
  with NaN switches the limit off is a lemma of \<open>Resource_Manager\<close>.)

  \<^emph>\<open>Assumptions and bounds.\<close> Resource conservation is stated for quantities on a common grid (multiples
  of a power of two, below the precision of a double, for example whole numbers); \<open>try_allocate_bounds\<close>
  holds for all finite non-negative doubles. The polling loops are partial functions and are shown to
  return under \<open>poll_sleeps\<close>: every poll is at least ten milliseconds after the one before, which is
  what the sleep between polls promises. Loops over steps are iterated with an explicit number of steps, whose
  existence is part of each statement. A schedule is fair if the event loop and each background task
  have their turn again and again (\<open>fair_schedule\<close>); nothing is assumed about the order, and \<open>node_work\<close> bounds
  the steps that change the state. In the conservation theorem the resource manager is used by the
  scheduler alone; \<open>raylet_step\<close> in \<open>Raylet_Server\<close> adds the lease calls of the raylet service to the same
  accounts. The theorems on results assume that the store has no memory limit (as in the runtime's
  default configuration) or room for all results that are still to be stored (\<open>room_for\<close>), and that the return
  identifiers differ, as random identifiers do.

  \<^emph>\<open>Parameters.\<close> The file system (\<open>fs_ops\<close>), the shared memory crate (\<open>shm_ops\<close>), the codecs
  (\<open>codec\<close>), tonic's server, the standard hasher, how a double prints, random UUID bytes, clocks, process
  identifiers and registered task functions are arguments.

  \<^emph>\<open>Not modelled.\<close> What tonic does after a \<^verbatim>\<open>serve\<close> call, the generated protobuf wire format, logging and
  printed lines, the build scripts, re-exports and the registration of the Python names,
  poisoning of locks, and failures of tokio itself.
\<close>

section \<open>Properties across components\<close>

text \<open>
  C5. A task submitted by RPC, and its result served by RPC: a raylet at rest whose node can run the task, whatever is
  left in its queue, accepts the encoded task. Under every fair schedule of the event loop and the
  background tasks the node comes to rest. A request to the object service over the same store for the task's
  first return identifier, polling at any moments of the run, is answered with exactly the bytes the
  task computed or with not found, and with the bytes whenever it looks in time after the node has come to rest; if the
  task failed, it is never found. At rest, a request to wait for the object locates it on this node exactly
  if the task succeeded.
\<close>

theorem rpc_task_result_served:
  assumes "can_serve g tot t return_id (rs_system rs)"
  shows "let (r, rs1) = rpc_submit_task (Some (task_spec_to_proto t)) rs; oid = id_to_proto return_id
    in r = Some (Inr (True, [])) \<and>
       (\<forall>who run. behaviour node_act who run \<and> fair_schedule who \<and> run 0 = rs_system rs1 \<longrightarrow>
          (\<exists>N. \<forall>k\<ge>N. at_rest node_act (run k)) \<and>
          (\<forall>moment clock start timeout_ms. poll_sleeps clock \<and> start \<le> clock 0 \<longrightarrow>
             (let answer = rpc_get (\<lambda>i. sy_store (run (moment i)), clock, start) (Some oid) timeout_ms;
                  not_found = Some (Inr \<lparr>gr_found = False, gr_object_data = None,
                    gr_error_message = error_to_string (get_timeout_error return_id timeout_ms)\<rparr>);
                  found = (\<lambda>data. Some (Inr \<lparr>gr_found = True,
                    gr_object_data = Some \<lparr>od_object_id = Some oid, od_data = data, od_metadata = []\<rparr>, gr_error_message = []\<rparr>))
              in case execute (sy_executor (rs_system rs)) t of
                   Inl e \<Rightarrow> answer = not_found
                 | Inr data \<Rightarrow> answer \<in> {not_found, found data} \<and>
                     (\<forall>i. at_rest node_act (run (moment i)) \<and> clock i \<le> start + millis timeout_ms \<longrightarrow> answer = found data))) \<and>
          (\<forall>k. at_rest node_act (run k) \<longrightarrow>
             rpc_wait_for_object (Some oid) (rs1\<lparr>rs_system := run k\<rparr>) =
               (case execute (sy_executor (rs_system rs)) t of
                  Inl e \<Rightarrow> Inr (False, None) | Inr data \<Rightarrow> Inr (True, id_to_option (rs_node_id rs)))))"
proof -
  let ?s1 = "(rs_system rs)\<lparr>sy_channel := [SubmitTask t]\<rparr>" and ?oid = "id_to_proto return_id"
  have takes: "takes g tot [t] (rs_system rs)" using assms by (simp add: can_serve_def)
  then have "res_grid g (ts_required_resources t)" by (simp add: takes_def)
  then have sub: "rpc_submit_task (Some (task_spec_to_proto t)) rs = (Some (Inr (True, [])), rs\<lparr>rs_system := ?s1\<rparr>)"
    using rpc_submit_accepted[of t rs] res_gridD(2) takesD(8,11)[OF takes] by auto
  show ?thesis unfolding sub Let_def prod.case
  proof (intro conjI allI impI; (elim conjE)?)
    fix who run assume run: "behaviour node_act who run" "fair_schedule who" "run 0 = rs_system (rs\<lparr>rs_system := ?s1\<rparr>)"
    then have "run 0 = ?s1" by simp
    note ans = served_answer[OF assms run(1,2) this]
    show "\<exists>N. \<forall>k\<ge>N. at_rest node_act (run k)" by (rule ans(1))
    show "rpc_wait_for_object (Some ?oid) (rs\<lparr>rs_system := ?s1, rs_system := run k\<rparr>) =
        (case execute (sy_executor (rs_system rs)) t of
           Inl e \<Rightarrow> Inr (False, None) | Inr data \<Rightarrow> Inr (True, id_to_option (rs_node_id rs)))"
      if "at_rest node_act (run k)" for k
      using ans(2)[OF that]
      by (auto simp: task_result_def rpc_wait_for_object_def require_arg_def os_contains_def internal_err_def os_view_def split: sum.splits)
    fix moment :: "nat \<Rightarrow> nat" and clock :: "nat \<Rightarrow> nat" and start timeout_ms
    assume "poll_sleeps clock" "start \<le> clock 0"
    note polled = ans(3,4)[OF this, where moment = moment and ms = timeout_ms]
    let ?answer = "rpc_get (\<lambda>i. sy_store (run (moment i)), clock, start) (Some ?oid) timeout_ms"
    let ?not_found = "Some (Inr \<lparr>gr_found = False, gr_object_data = None,
        gr_error_message = error_to_string (get_timeout_error return_id timeout_ms)\<rparr>)"
    let ?found = "\<lambda>data. Some (Inr \<lparr>gr_found = True,
        gr_object_data = Some \<lparr>od_object_id = Some ?oid, od_data = data, od_metadata = []\<rparr>, gr_error_message = []\<rparr>)"
    show "case execute (sy_executor (rs_system rs)) t of
        Inl e \<Rightarrow> ?answer = ?not_found
      | Inr data \<Rightarrow> ?answer \<in> {?not_found, ?found data} \<and>
          (\<forall>i. at_rest node_act (run (moment i)) \<and> clock i \<le> start + millis timeout_ms \<longrightarrow> ?answer = ?found data)"
      using polled by (auto simp: task_result_def rpc_get_def get_at_def require_arg_def split: sum.splits)
  qed simp
qed

theorem rpc_task_result_served_witness:
  "let rs = \<lparr>rs_system = cpu_system 4, rs_node_id = id_default\<rparr>;
       rs1 = snd (rpc_submit_task (Some (task_spec_to_proto (cpu_task 1 1 [42]))) rs);
       run = follow node_act round_schedule (\<lambda>_. (id_default, 7, 0)) (rs_system rs1);
       oid = id_to_proto (from_slice [1] :: ObjectId)
   in \<exists>N. rpc_get (\<lambda>_. sy_store (run N), \<lambda>i. i * 10000000, 0) (Some oid) 100 =
          Some (Inr \<lparr>gr_found = True,
            gr_object_data = Some \<lparr>od_object_id = Some oid, od_data = [42], od_metadata = []\<rparr>, gr_error_message = []\<rparr>)
        \<and> rpc_wait_for_object (Some oid) (rs1\<lparr>rs_system := run N\<rparr>) = Inr (True, id_to_option (id_default :: NodeId))"
proof -
  let ?rs = "\<lparr>rs_system = cpu_system 4, rs_node_id = id_default\<rparr>" and ?t = "cpu_task 1 1 [42]" and ?clock = "\<lambda>i :: nat. i * 10000000"
  have exec: "execute (sy_executor (rs_system ?rs)) ?t = Inr [42]"
    by (simp add: cpu_system_def scheduler_new_def cpu_task_def local_execute_def)
  have serve: "can_serve 1074 (res_set resources_new ''CPU'' (f64_of_nat 4)) ?t (from_slice [1]) (rs_system ?rs)"
    unfolding cpu_system_def RayletServer.select_convs
    by (intro can_serve_new[where rids = "[]"]) (simp_all add: cpu_task_def f64_of_nat_cmp)
  obtain r rs1 where sub: "rpc_submit_task (Some (task_spec_to_proto ?t)) ?rs = (r, rs1)" by force
  let ?run = "follow node_act round_schedule (\<lambda>_. (id_default, 7, 0)) (rs_system rs1)"
  note main = rpc_task_result_served[OF serve, unfolded sub Let_def prod.case exec sum.case, THEN conjunct2, THEN spec, THEN spec, THEN mp]
  have "behaviour node_act round_schedule ?run \<and> fair_schedule round_schedule \<and> ?run 0 = rs_system rs1"
    by (simp add: behaviour_follow round_schedule_fair)
  note main = main[OF this]
  have clock: "poll_sleeps ?clock \<and> 0 \<le> ?clock 0" by (simp add: poll_sleeps_def millis_10)
  have in_time: "\<exists>i. ?clock i \<le> millis 100" by (rule exI[of _ 0]) simp
  obtain N where N: "at_rest node_act (?run N)" using main by blast
  show ?thesis unfolding Let_def sub snd_conv
    using main[THEN conjunct2, THEN conjunct1, rule_format, OF clock, of "\<lambda>_. N" 100]
      main[THEN conjunct2, THEN conjunct2, rule_format, OF N] N in_time by (intro exI[of _ N]) auto
qed

end
